(* ===== verification/Prelude.thy ===== *)
theory Prelude
  imports Main "HOL-Library.Word"
begin

unbundle bit_operations_syntax

text \<open>
  What every component shares: the machine types, the ways a run of the program can fail and
  the sequencing of fallible operations, the copy primitives of the C++ library on byte lists,
  reachability for step relations with its invariant rule, and generic lemmas.

  A \<open>'a result\<close> is either a failure or the value. \<open>Exit\<close> is \<open>LOG_FATAL\<close> (Logger.h), which ends
  the process with \<open>exit(-1)\<close>; \<open>LengthError\<close> is the \<open>std::length_error\<close> that
  \<open>std::vector\<close> throws beyond its maximal size; \<open>SystemError\<close> is the \<open>std::system_error\<close> of a
  \<open>std::thread\<close> that is joined twice; \<open>Blocked\<close> is a call that waits for ever; \<open>Undefined\<close> is an access the C++ standard gives
  no meaning to (a copy outside the vector, an overlapping \<open>std::copy\<close>, an empty \<open>weak_ptr\<close> used
  as an object). A component's theorems say which of them it can reach.
\<close>

section \<open>Machine types\<close>

type_synonym byte = "8 word"
type_synonym size_t = "64 word"
type_synonym evmask = "32 word"
type_synonym errno = int
type_synonym int32 = "32 word"

section \<open>Failures and sequencing\<close>

datatype failure = Exit | LengthError | SystemError | Blocked | Undefined

type_synonym 'a result = "failure + 'a"

definition andThen :: "'a result \<Rightarrow> ('a \<Rightarrow> 'b result) \<Rightarrow> 'b result" where
  "andThen r f = (case r of Inl e \<Rightarrow> Inl e | Inr x \<Rightarrow> f x)"

named_theorems result_simps \<open>rewriting of sequenced results\<close>

lemma andThen_Inl [simp, result_simps]: "andThen (Inl e) f = Inl e"
  by (simp add: andThen_def)

lemma andThen_Inr [simp, result_simps]: "andThen (Inr x) f = f x"
  by (simp add: andThen_def)

lemma andThen_eq_Inr [result_simps]:
  "andThen r f = Inr y \<longleftrightarrow> (\<exists>x. r = Inr x \<and> f x = Inr y)"
  by (cases r) simp_all

lemma andThen_eq_Inl:
  "andThen r f = Inl e \<longleftrightarrow> r = Inl e \<or> (\<exists>x. r = Inr x \<and> f x = Inl e)"
  by (cases r) simp_all

lemma andThen_assoc: "andThen (andThen r f) g = andThen r (\<lambda>x. andThen (f x) g)"
  by (cases r) simp_all

lemma andThen_cong [fundef_cong]:
  "r = r' \<Longrightarrow> (\<And>x. r' = Inr x \<Longrightarrow> f x = f' x) \<Longrightarrow> andThen r f = andThen r' f'"
  by (cases r') simp_all

lemma if_andThen: "andThen (if b then r else s) f = (if b then andThen r f else andThen s f)"
  by simp

text \<open>\<open>foldE\<close> runs a fallible operation over a list, as a C++ range-for loop with a body that
  may end the process.\<close>

fun foldE :: "('a \<Rightarrow> 's \<Rightarrow> 's result) \<Rightarrow> 'a list \<Rightarrow> 's \<Rightarrow> 's result" where
  "foldE f [] s = Inr s"
| "foldE f (x # xs) s = andThen (f x s) (foldE f xs)"

lemma foldE_append: "foldE f (xs @ ys) s = andThen (foldE f xs s) (foldE f ys)"
  by (induction xs arbitrary: s) (auto simp: andThen_def split: sum.splits)

lemma foldE_snoc: "foldE f (xs @ [x]) s = andThen (foldE f xs s) (f x)"
  by (auto simp: foldE_append andThen_def split: sum.splits)

text \<open>
  \<open>holds P r\<close>: the operation, when it returns, returns a value satisfying \<open>P\<close>; \<open>succeeds P r\<close>:
  it returns, and the value satisfies \<open>P\<close>.
\<close>

definition holds :: "('a \<Rightarrow> bool) \<Rightarrow> 'a result \<Rightarrow> bool" where
  "holds P r \<longleftrightarrow> (\<forall>x. r = Inr x \<longrightarrow> P x)"

definition succeeds :: "('a \<Rightarrow> bool) \<Rightarrow> 'a result \<Rightarrow> bool" where
  "succeeds P r \<longleftrightarrow> (\<exists>x. r = Inr x \<and> P x)"

lemma holds_Inr [simp]: "holds P (Inr x) \<longleftrightarrow> P x"
  by (simp add: holds_def)

lemma holds_Inl [simp]: "holds P (Inl e)"
  by (simp add: holds_def)

lemma holdsD: "holds P r \<Longrightarrow> r = Inr x \<Longrightarrow> P x"
  by (simp add: holds_def)

lemma holds_andThen:
  "holds P r \<Longrightarrow> (\<And>x. P x \<Longrightarrow> holds Q (f x)) \<Longrightarrow> holds Q (andThen r f)"
  by (cases r) (simp_all add: holds_def)

lemma holds_mono: "holds P r \<Longrightarrow> (\<And>x. P x \<Longrightarrow> Q x) \<Longrightarrow> holds Q r"
  by (simp add: holds_def)

lemma holds_foldE:
  assumes "I s" and "\<And>x s. x \<in> set xs \<Longrightarrow> I s \<Longrightarrow> holds I (f x s)"
  shows "holds I (foldE f xs s)"
  using assms
proof (induction xs arbitrary: s)
  case Nil
  then show ?case by simp
next
  case (Cons x xs)
  then have "holds I (f x s)" by simp
  then have "holds I (andThen (f x s) (foldE f xs))"
    using Cons.IH Cons.prems(2) by (blast intro: holds_andThen list.set_intros)
  then show ?case by simp
qed

lemma succeeds_Inr [simp]: "succeeds P (Inr x) \<longleftrightarrow> P x"
  by (simp add: succeeds_def)

lemma succeeds_Inl [simp]: "\<not> succeeds P (Inl e)"
  by (simp add: succeeds_def)

lemma succeeds_andThen:
  "succeeds P r \<Longrightarrow> (\<And>x. P x \<Longrightarrow> succeeds Q (f x)) \<Longrightarrow> succeeds Q (andThen r f)"
  by (cases r) simp_all

lemma succeeds_mono: "succeeds P r \<Longrightarrow> (\<And>x. P x \<Longrightarrow> Q x) \<Longrightarrow> succeeds Q r"
  by (auto simp: succeeds_def)

lemma succeeds_with: "succeeds P r \<Longrightarrow> succeeds (\<lambda>x. r = Inr x \<and> P x) r"
  by (auto simp: succeeds_def)

lemma succeeds_and_holds: "succeeds P r \<Longrightarrow> holds Q r \<Longrightarrow> succeeds (\<lambda>x. P x \<and> Q x) r"
  by (auto simp: succeeds_def)

lemma succeeds_holds: "succeeds P r \<Longrightarrow> holds P r"
  by (auto simp: succeeds_def)

section \<open>Copying bytes\<close>

text \<open>
  \<open>std::copy(first, last, dest)\<close> inside one vector. The standard requires the range and the
  destination to lie in the vector and the destination not to lie in \<open>[first, last)\<close>.
\<close>

definition std_copy :: "'a list \<Rightarrow> nat \<Rightarrow> nat \<Rightarrow> nat \<Rightarrow> 'a list result" where
  "std_copy xs i j dest =
     (if i \<le> j \<and> j \<le> length xs \<and> dest + (j - i) \<le> length xs
         \<and> \<not> (i \<le> dest \<and> dest < j)
      then Inr (take dest xs @ take (j - i) (drop i xs) @ drop (dest + (j - i)) xs)
      else Inl Undefined)"

text \<open>Writing the bytes \<open>ys\<close> from position \<open>i\<close> on: undefined when they do not fit.\<close>

definition poke :: "'a list \<Rightarrow> nat \<Rightarrow> 'a list \<Rightarrow> 'a list result" where
  "poke xs i ys =
     (if i + length ys \<le> length xs then Inr (take i xs @ ys @ drop (i + length ys) xs)
      else Inl Undefined)"

text \<open>Reading \<open>n\<close> bytes from position \<open>i\<close>: undefined when they are not all there.\<close>

definition slice :: "'a list \<Rightarrow> nat \<Rightarrow> nat \<Rightarrow> 'a list result" where
  "slice xs i n = (if i + n \<le> length xs then Inr (take n (drop i xs)) else Inl Undefined)"

lemma poke_eq_Inr:
  "poke xs i ys = Inr zs \<longleftrightarrow>
     i + length ys \<le> length xs \<and> zs = take i xs @ ys @ drop (i + length ys) xs"
  by (auto simp: poke_def)

lemma poke_fits: "i + length ys \<le> length xs \<Longrightarrow> \<exists>zs. poke xs i ys = Inr zs"
  by (simp add: poke_def)

lemma length_poke: "poke xs i ys = Inr zs \<Longrightarrow> length zs = length xs"
  by (auto simp: poke_eq_Inr)

lemma poke_window:
  assumes "poke xs w ys = Inr zs" and "r \<le> w"
  shows "take (w + length ys - r) (drop r zs) = take (w - r) (drop r xs) @ ys"
proof -
  have "w + length ys - r = (w - r) + length ys" and "w \<le> length xs"
    using assms by (auto simp: poke_eq_Inr)
  then show ?thesis
    using assms by (auto simp: poke_eq_Inr drop_take)
qed

lemma take_drop_prefix: "m \<le> n \<Longrightarrow> take m (take n xs) = take m xs"
  by (simp add: min_def)

section \<open>Numbers as text\<close>

text \<open>Decimal digits, as \<open>%u\<close>, \<open>inet_ntop\<close> and \<open>std::to_string\<close> print them.\<close>

fun decimal :: "nat \<Rightarrow> string" where
  "decimal n = (if n < 10 then [char_of (48 + n)] else decimal (n div 10) @ [char_of (48 + n mod 10)])"

declare decimal.simps [simp del]

text \<open>\<open>%d\<close> and \<open>std::to_string\<close> of an \<open>int\<close>.\<close>

definition to_string_int :: "int \<Rightarrow> string" where
  "to_string_int i = (if i < 0 then ''-'' @ decimal (nat (- i)) else decimal (nat i))"

lemma length_decimal: "n < 10 ^ Suc d \<Longrightarrow> length (decimal n) \<le> Suc d"
proof (induction d arbitrary: n)
  case 0
  then show ?case by (simp add: decimal.simps [of n])
next
  case (Suc d)
  then have "n div 10 < 10 ^ Suc d"
    by (simp add: div_less_iff_less_mult mult.commute)
  then show ?case
    using Suc.IH [of "n div 10"] by (simp add: decimal.simps [of n])
qed

lemma digit_of: "n < 10 \<Longrightarrow> of_char (char_of (48 + n) :: char) = (48 + n :: nat)"
  by simp

text \<open>Different numbers have different digits.\<close>

definition undecimal :: "string \<Rightarrow> nat" where
  "undecimal ds = foldl (\<lambda>n c. 10 * n + (of_char c - 48)) 0 ds"

lemma undecimal_decimal: "undecimal (decimal n) = n"
proof (induction n rule: decimal.induct)
  case (1 n)
  then show ?case
    by (cases "n < 10") (simp_all add: decimal.simps [of n] undecimal_def)
qed

lemma decimal_inject [simp]: "decimal m = decimal n \<longleftrightarrow> m = n"
  by (metis undecimal_decimal)

lemma decimal_no_minus: "decimal n \<noteq> ''-'' @ ds"
proof (induction n arbitrary: ds rule: decimal.induct)
  case (1 n)
  show ?case
  proof (cases "n < 10")
    case True
    have "(char_of (48 + n) :: char) \<noteq> CHR ''-''"
    proof
      assume "(char_of (48 + n) :: char) = CHR ''-''"
      then have "(of_char (char_of (48 + n) :: char) :: nat) = of_char CHR ''-''" by simp
      then show False using True by simp
    qed
    then show ?thesis using True by (simp add: decimal.simps [of n])
  next
    case False
    have ne: "decimal (n div 10) \<noteq> []"
      using 1 [OF False, of "[]"] by (auto simp: decimal.simps [of "n div 10"])
    have "decimal (n div 10) \<noteq> ''-'' @ ds'" for ds'
      using 1 [OF False] .
    then show ?thesis
      using False ne by (cases "decimal (n div 10)") (auto simp: decimal.simps [of n])
  qed
qed

lemma to_string_int_inject [simp]: "to_string_int i = to_string_int j \<longleftrightarrow> i = j"
  using decimal_no_minus by (auto simp: to_string_int_def) (metis append_Cons append_Nil)+

section \<open>Reachable states\<close>

inductive reachable :: "('s \<Rightarrow> bool) \<Rightarrow> ('s \<Rightarrow> 's \<Rightarrow> bool) \<Rightarrow> 's \<Rightarrow> bool"
  for init :: "'s \<Rightarrow> bool" and step :: "'s \<Rightarrow> 's \<Rightarrow> bool" where
  reachable_init: "init s \<Longrightarrow> reachable init step s"
| reachable_step: "reachable init step s \<Longrightarrow> step s t \<Longrightarrow> reachable init step t"

lemma reachable_weaken:
  "(\<And>s. init s \<Longrightarrow> init' s) \<Longrightarrow> reachable init step s \<Longrightarrow> reachable init' step s"
  by (rotate_tac, induction rule: reachable.induct) (auto intro: reachable.intros)

lemma reachable_path: "step\<^sup>*\<^sup>* s t \<Longrightarrow> reachable init step s \<Longrightarrow> reachable init step t"
  by (induction rule: rtranclp_induct) (auto intro: reachable_step)

text \<open>The contract of an inductive invariant: what a machine provides, and what follows.\<close>

locale inductive_invariant =
  fixes init :: "'s \<Rightarrow> bool"
    and step :: "'s \<Rightarrow> 's \<Rightarrow> bool"
    and inv :: "'s \<Rightarrow> bool"
  assumes inv_init: "init s \<Longrightarrow> inv s"
    and inv_step: "inv s \<Longrightarrow> step s t \<Longrightarrow> inv t"
begin

lemma inv_reachable: "reachable init step s \<Longrightarrow> inv s"
  by (induction rule: reachable.induct) (auto intro: inv_init inv_step)

lemma inv_path: "step\<^sup>*\<^sup>* s t \<Longrightarrow> inv s \<Longrightarrow> inv t"
  by (induction rule: rtranclp_induct) (auto intro: inv_step)

end

end
