(* ===== verification/Kernel.thy ===== *)
theory Kernel
  imports Prelude
begin

text \<open>
  The operating system is not part of the repository: it is a parameter of the model. A value of
  \<open>'k os\<close> holds one function per system call the sources make, over a kernel state \<open>'k\<close> the model
  never looks into. A call returns \<open>Inl errno\<close> where the C function returns \<open>-1\<close> (or another
  negative value) and sets \<open>errno\<close>, and \<open>Inr\<close> of its result otherwise. What the code relies on of
  a call is stated as a named predicate over the \<open>os\<close> value, taken from the manual page of the call.
\<close>

section \<open>Constants of the system headers\<close>

definition EPOLLIN :: evmask where "EPOLLIN = 0x001"
definition EPOLLPRI :: evmask where "EPOLLPRI = 0x002"
definition EPOLLOUT :: evmask where "EPOLLOUT = 0x004"
definition EPOLLERR :: evmask where "EPOLLERR = 0x008"
definition EPOLLHUP :: evmask where "EPOLLHUP = 0x010"

lemmas epoll_bits = EPOLLIN_def EPOLLPRI_def EPOLLOUT_def EPOLLERR_def EPOLLHUP_def

definition EINTR :: errno where "EINTR = 4"
definition EWOULDBLOCK :: errno where "EWOULDBLOCK = 11"
definition EMFILE :: errno where "EMFILE = 24"
definition EPIPE :: errno where "EPIPE = 32"
definition ECONNRESET :: errno where "ECONNRESET = 104"

lemmas errno_values = EINTR_def EWOULDBLOCK_def EMFILE_def EPIPE_def ECONNRESET_def

datatype ctl_op = EPOLL_CTL_ADD | EPOLL_CTL_MOD | EPOLL_CTL_DEL

text \<open>\<open>struct epoll_event\<close>: the mask and the user data, here a pointer (an address in a heap).\<close>

record epoll_event =
  ev_events :: evmask
  ev_ptr :: nat

text \<open>\<open>struct sockaddr_in\<close>: the port and the address are in network byte order, as stored.\<close>

record sockaddr_in =
  sin_family :: nat
  sin_port :: "16 word"
  sin_addr :: "32 word"

definition AF_INET :: nat where "AF_INET = 2"
definition SOL_SOCKET :: int where "SOL_SOCKET = 1"
definition SO_REUSEADDR :: int where "SO_REUSEADDR = 2"
definition SO_KEEPALIVE :: int where "SO_KEEPALIVE = 9"
definition SO_REUSEPORT :: int where "SO_REUSEPORT = 15"
definition IPPROTO_TCP :: int where "IPPROTO_TCP = 6"
definition TCP_NODELAY :: int where "TCP_NODELAY = 1"

section \<open>System calls\<close>

record 'k os =
  sys_epoll_create1 :: "'k \<Rightarrow> (errno + int) \<times> 'k"
  sys_epoll_ctl :: "int \<Rightarrow> ctl_op \<Rightarrow> int \<Rightarrow> epoll_event \<Rightarrow> 'k \<Rightarrow> (errno + unit) \<times> 'k"
  sys_epoll_wait :: "int \<Rightarrow> nat \<Rightarrow> int \<Rightarrow> 'k \<Rightarrow> (errno + epoll_event list) \<times> 'k"
  sys_eventfd :: "'k \<Rightarrow> (errno + int) \<times> 'k"
  sys_read :: "int \<Rightarrow> nat \<Rightarrow> 'k \<Rightarrow> (errno + byte list) \<times> 'k"
  sys_readv :: "int \<Rightarrow> nat list \<Rightarrow> 'k \<Rightarrow> (errno + byte list) \<times> 'k"
  sys_write :: "int \<Rightarrow> byte list \<Rightarrow> 'k \<Rightarrow> (errno + nat) \<times> 'k"
  sys_shutdown_wr :: "int \<Rightarrow> 'k \<Rightarrow> (errno + unit) \<times> 'k"
  sys_so_error :: "int \<Rightarrow> 'k \<Rightarrow> (errno + int) \<times> 'k"
  sys_close :: "int \<Rightarrow> 'k \<Rightarrow> 'k"
  sys_time :: "'k \<Rightarrow> int \<times> 'k"
  sys_getenv :: "string \<Rightarrow> 'k \<Rightarrow> string option"
  sys_socket :: "'k \<Rightarrow> (errno + int) \<times> 'k"
  sys_bind :: "int \<Rightarrow> sockaddr_in \<Rightarrow> 'k \<Rightarrow> (errno + unit) \<times> 'k"
  sys_listen :: "int \<Rightarrow> nat \<Rightarrow> 'k \<Rightarrow> (errno + unit) \<times> 'k"
  sys_accept4 :: "int \<Rightarrow> 'k \<Rightarrow> (errno + int \<times> sockaddr_in) \<times> 'k"
  sys_getsockname :: "int \<Rightarrow> 'k \<Rightarrow> (errno + sockaddr_in) \<times> 'k"
  sys_setsockopt :: "int \<Rightarrow> int \<Rightarrow> int \<Rightarrow> int \<Rightarrow> 'k \<Rightarrow> 'k"

section \<open>What the manual pages promise\<close>

text \<open>readv(2): the bytes fill the buffers in order, so there are at most as many as fit.\<close>

definition readv_contract :: "'k os \<Rightarrow> bool" where
  "readv_contract os \<longleftrightarrow>
     (\<forall>fd caps k bs k'. sys_readv os fd caps k = (Inr bs, k') \<longrightarrow> length bs \<le> sum_list caps)"

text \<open>
  write(2): at most the bytes given are taken, from the front. \<open>sent k fd\<close> observes what the
  kernel has taken on a descriptor; a failed call takes nothing.
\<close>

definition write_contract :: "'k os \<Rightarrow> ('k \<Rightarrow> int \<Rightarrow> byte list) \<Rightarrow> bool" where
  "write_contract os sent \<longleftrightarrow>
     (\<forall>fd bs k n k'. sys_write os fd bs k = (Inr n, k') \<longrightarrow>
        n \<le> length bs \<and> sent k' = (sent k)(fd := sent k fd @ take n bs)) \<and>
     (\<forall>fd bs k e k'. sys_write os fd bs k = (Inl e, k') \<longrightarrow> sent k' = sent k)"

text \<open>The other calls the handlers of a connection make send nothing.\<close>

definition quiet_contract :: "'k os \<Rightarrow> ('k \<Rightarrow> int \<Rightarrow> byte list) \<Rightarrow> bool" where
  "quiet_contract os sent \<longleftrightarrow>
     (\<forall>ep op fd ev k. sent (snd (sys_epoll_ctl os ep op fd ev k)) = sent k) \<and>
     (\<forall>fd k. sent (snd (sys_shutdown_wr os fd k)) = sent k) \<and>
     (\<forall>fd caps k. sent (snd (sys_readv os fd caps k)) = sent k) \<and>
     (\<forall>fd k. sent (snd (sys_so_error os fd k)) = sent k)"

text \<open>epoll_wait(2): at most as many events as the array has room for.\<close>

definition epoll_wait_contract :: "'k os \<Rightarrow> bool" where
  "epoll_wait_contract os \<longleftrightarrow>
     (\<forall>ep n t k evs k'. sys_epoll_wait os ep n t k = (Inr evs, k') \<longrightarrow> length evs \<le> n)"

text \<open>
  epoll_ctl(2), for a kernel with memory to spare: adding a descriptor that is not in the interest
  list, and changing or removing one that is, succeeds and does just that. (\<open>EEXIST\<close> and \<open>ENOENT\<close>
  are left open.) \<open>interest k epfd fd\<close> observes the interest list.
\<close>

definition epoll_contract :: "'k os \<Rightarrow> ('k \<Rightarrow> int \<Rightarrow> int \<Rightarrow> epoll_event option) \<Rightarrow> bool" where
  "epoll_contract os interest \<longleftrightarrow>
     (\<forall>ep fd ev k. interest k ep fd = None \<longrightarrow>
        (\<exists>k'. sys_epoll_ctl os ep EPOLL_CTL_ADD fd ev k = (Inr (), k') \<and>
              interest k' = (interest k)(ep := (interest k ep)(fd := Some ev)))) \<and>
     (\<forall>ep fd ev k. interest k ep fd \<noteq> None \<longrightarrow>
        (\<exists>k'. sys_epoll_ctl os ep EPOLL_CTL_MOD fd ev k = (Inr (), k') \<and>
              interest k' = (interest k)(ep := (interest k ep)(fd := Some ev)))) \<and>
     (\<forall>ep fd ev k. interest k ep fd \<noteq> None \<longrightarrow>
        (\<exists>k'. sys_epoll_ctl os ep EPOLL_CTL_DEL fd ev k = (Inr (), k') \<and>
              interest k' = (interest k)(ep := (interest k ep)(fd := None))))"

text \<open>The calls on a socket leave the interest lists alone.\<close>

definition socket_calls_neutral :: "'k os \<Rightarrow> ('k \<Rightarrow> int \<Rightarrow> int \<Rightarrow> epoll_event option) \<Rightarrow> bool" where
  "socket_calls_neutral os interest \<longleftrightarrow>
     (\<forall>fd bs k. interest (snd (sys_write os fd bs k)) = interest k) \<and>
     (\<forall>fd k. interest (snd (sys_shutdown_wr os fd k)) = interest k)"

text \<open>A peer that keeps reading: every write of some bytes is accepted at least in part.\<close>

definition accepting :: "'k os \<Rightarrow> bool" where
  "accepting os \<longleftrightarrow> (\<forall>fd bs k. bs \<noteq> [] \<longrightarrow> (\<exists>n k'. sys_write os fd bs k = (Inr n, k') \<and> 0 < n))"

text \<open>shutdown(2): \<open>shut k fd\<close> observes that the write end is closed; writes and epoll_ctl(2) do not.\<close>

definition shutdown_contract :: "'k os \<Rightarrow> ('k \<Rightarrow> int \<Rightarrow> bool) \<Rightarrow> bool" where
  "shutdown_contract os shut \<longleftrightarrow>
     (\<forall>fd k. shut (snd (sys_shutdown_wr os fd k)) = (shut k)(fd := True))"

text \<open>epoll_create1(2), eventfd(2): a new epoll instance watches nothing; a new descriptor is not watched.\<close>

definition fresh_epoll_contract :: "'k os \<Rightarrow> ('k \<Rightarrow> int \<Rightarrow> int \<Rightarrow> epoll_event option) \<Rightarrow> bool" where
  "fresh_epoll_contract os interest \<longleftrightarrow>
     (\<forall>k epfd k'. sys_epoll_create1 os k = (Inr epfd, k') \<longrightarrow> interest k' epfd = (\<lambda>_. None)) \<and>
     (\<forall>k. interest (snd (sys_eventfd os k)) = interest k)"

lemma readv_contractD:
  "readv_contract os \<Longrightarrow> sys_readv os fd caps k = (Inr bs, k') \<Longrightarrow> length bs \<le> sum_list caps"
  unfolding readv_contract_def by blast

lemma write_contractD:
  assumes "write_contract os sent"
  shows "sys_write os fd bs k = (Inr n, k') \<Longrightarrow> n \<le> length bs"
    and "sys_write os fd bs k = (Inr n, k') \<Longrightarrow> sent k' = (sent k)(fd := sent k fd @ take n bs)"
    and "sys_write os fd bs k = (Inl e, k') \<Longrightarrow> sent k' = sent k"
  using assms by (auto simp: write_contract_def)

lemma epoll_contractD:
  assumes "epoll_contract os interest"
  shows "interest k ep fd = None \<Longrightarrow>
      \<exists>k'. sys_epoll_ctl os ep EPOLL_CTL_ADD fd ev k = (Inr (), k') \<and>
           interest k' = (interest k)(ep := (interest k ep)(fd := Some ev))"
    and "interest k ep fd \<noteq> None \<Longrightarrow>
      \<exists>k'. sys_epoll_ctl os ep EPOLL_CTL_MOD fd ev k = (Inr (), k') \<and>
           interest k' = (interest k)(ep := (interest k ep)(fd := Some ev))"
    and "interest k ep fd \<noteq> None \<Longrightarrow>
      \<exists>k'. sys_epoll_ctl os ep EPOLL_CTL_DEL fd ev k = (Inr (), k') \<and>
           interest k' = (interest k)(ep := (interest k ep)(fd := None))"
  using assms by (simp_all add: epoll_contract_def)

end
