(* ===== verification/Channel.thy ===== *)
theory Channel
  imports Kernel
begin

text \<open>
  \<open>Channel\<close> (Channel.h, Channel.cpp), the part that needs no loop: the fields, the masks, the
  setters and the queries. Objects live in heaps indexed by addresses (\<open>nat\<close>); a callback is the
  \<open>std::function\<close> the sources bind, named by a constructor of \<open>callback\<close>, and \<open>None\<close> is the empty
  \<open>std::function\<close>. The operations that go through the owning loop (\<open>update\<close>, \<open>remove\<close>,
  \<open>enableReading\<close> and so on) are in EventLoop, as the C++ code routes them there.
\<close>

section \<open>Addresses and callbacks\<close>

type_synonym chan_ptr = nat
type_synonym loop_ptr = nat
type_synonym conn_ptr = nat
type_synonym timestamp = int

datatype callback =
    EventLoop_handleRead_cb loop_ptr
  | Acceptor_handleRead_cb
  | TcpConnection_handleRead_cb conn_ptr
  | TcpConnection_handleWrite_cb conn_ptr
  | TcpConnection_handleClose_cb conn_ptr
  | TcpConnection_handleError_cb conn_ptr

section \<open>The class\<close>

record channel =
  m_chLoop :: loop_ptr
  m_fd :: int
  m_events :: evmask
  m_revents :: evmask
  m_channelStatus :: int
  m_tie :: "conn_ptr option"
  m_tied :: bool
  m_readCallback :: "callback option"
  m_writeCallback :: "callback option"
  m_closeCallback :: "callback option"
  m_errorCallback :: "callback option"

definition kNoneEvent :: evmask where "kNoneEvent = 0"
definition kReadEvent :: evmask where "kReadEvent = EPOLLIN OR EPOLLPRI"
definition kWriteEvent :: evmask where "kWriteEvent = EPOLLOUT"

lemmas event_masks = kNoneEvent_def kReadEvent_def kWriteEvent_def

definition Channel_ctor :: "loop_ptr \<Rightarrow> int \<Rightarrow> channel" where
  "Channel_ctor inLoop inFd =
     \<lparr>m_chLoop = inLoop, m_fd = inFd, m_events = 0, m_revents = 0, m_channelStatus = -1,
      m_tie = None, m_tied = False, m_readCallback = None, m_writeCallback = None,
      m_closeCallback = None, m_errorCallback = None\<rparr>"

definition setReadCallback :: "callback \<Rightarrow> channel \<Rightarrow> channel" where
  "setReadCallback cb c = c\<lparr>m_readCallback := Some cb\<rparr>"

definition setWriteCallback :: "callback \<Rightarrow> channel \<Rightarrow> channel" where
  "setWriteCallback cb c = c\<lparr>m_writeCallback := Some cb\<rparr>"

definition setCloseCallback :: "callback \<Rightarrow> channel \<Rightarrow> channel" where
  "setCloseCallback cb c = c\<lparr>m_closeCallback := Some cb\<rparr>"

definition setErrorCallback :: "callback \<Rightarrow> channel \<Rightarrow> channel" where
  "setErrorCallback cb c = c\<lparr>m_errorCallback := Some cb\<rparr>"

definition Channel_tie :: "conn_ptr \<Rightarrow> channel \<Rightarrow> channel" where
  "Channel_tie obj c = c\<lparr>m_tie := Some obj, m_tied := True\<rparr>"

definition setRevents :: "evmask \<Rightarrow> channel \<Rightarrow> channel" where
  "setRevents inRevt c = c\<lparr>m_revents := inRevt\<rparr>"

definition setChannelStatus :: "int \<Rightarrow> channel \<Rightarrow> channel" where
  "setChannelStatus status c = c\<lparr>m_channelStatus := status\<rparr>"

definition isNoneEvent :: "channel \<Rightarrow> bool" where
  "isNoneEvent c \<longleftrightarrow> m_events c = kNoneEvent"

definition isWriting :: "channel \<Rightarrow> bool" where
  "isWriting c \<longleftrightarrow> m_events c AND kWriteEvent \<noteq> 0"

definition isReading :: "channel \<Rightarrow> bool" where
  "isReading c \<longleftrightarrow> m_events c AND kReadEvent \<noteq> 0"

text \<open>The new mask of \<open>enableReading\<close>, \<open>disableReading\<close>, \<open>enableWriting\<close>, \<open>disableWriting\<close>
  and \<open>disableAll\<close>; \<open>NOT\<close> is C's \<open>~\<close>.\<close>

definition with_reading :: "channel \<Rightarrow> channel" where
  "with_reading c = c\<lparr>m_events := m_events c OR kReadEvent\<rparr>"

definition without_reading :: "channel \<Rightarrow> channel" where
  "without_reading c = c\<lparr>m_events := m_events c AND NOT kReadEvent\<rparr>"

definition with_writing :: "channel \<Rightarrow> channel" where
  "with_writing c = c\<lparr>m_events := m_events c OR kWriteEvent\<rparr>"

definition without_writing :: "channel \<Rightarrow> channel" where
  "without_writing c = c\<lparr>m_events := m_events c AND NOT kWriteEvent\<rparr>"

definition without_all :: "channel \<Rightarrow> channel" where
  "without_all c = c\<lparr>m_events := kNoneEvent\<rparr>"

lemmas mask_ops = with_reading_def without_reading_def with_writing_def without_writing_def
  without_all_def

section \<open>Reading and writing interest are independent\<close>

lemma read_write_masks [simp]:
  "kWriteEvent \<noteq> 0" "kReadEvent \<noteq> 0"
  "kReadEvent AND kWriteEvent = 0" "kWriteEvent AND kReadEvent = 0"
  "NOT kWriteEvent AND kReadEvent = kReadEvent" "NOT kReadEvent AND kWriteEvent = kWriteEvent"
  by (simp_all add: event_masks epoll_bits)

named_theorems mask_simps \<open>what an operation on the mask of a channel does to the queries\<close>

lemma writing_of [mask_simps, simp]:
  "isWriting (with_writing c)" "\<not> isWriting (without_writing c)" "\<not> isWriting (without_all c)"
  "isWriting (with_reading c) = isWriting c" "isWriting (without_reading c) = isWriting c"
  by (simp_all add: isWriting_def mask_ops bit.conj_disj_distrib2 or_eq_0_iff and.assoc kNoneEvent_def)

lemma reading_of [mask_simps, simp]:
  "isReading (with_reading c)" "\<not> isReading (without_reading c)" "\<not> isReading (without_all c)"
  "isReading (with_writing c) = isReading c" "isReading (without_writing c) = isReading c"
  by (simp_all add: isReading_def mask_ops bit.conj_disj_distrib2 or_eq_0_iff and.assoc kNoneEvent_def)

lemma isNone_without_all [mask_simps, simp]: "isNoneEvent (without_all c)"
  by (simp add: isNoneEvent_def without_all_def)

lemma writing_not_none: "isWriting c \<Longrightarrow> \<not> isNoneEvent c"
  by (auto simp: isWriting_def isNoneEvent_def kNoneEvent_def)

lemma reading_not_none: "isReading c \<Longrightarrow> \<not> isNoneEvent c"
  by (auto simp: isReading_def isNoneEvent_def kNoneEvent_def)

lemma none_not_writing: "isNoneEvent c \<Longrightarrow> \<not> isWriting c \<and> \<not> isReading c"
  using writing_not_none reading_not_none by blast

end
