(* ===== verification/Sim_Kernel.thy ===== *)
theory Sim_Kernel
  imports Kernel
begin

text \<open>
  A concrete kernel that fulfils the contracts of Kernel.thy: a small simulation of the calls, over a
  record of what there is to observe. It is used to run the model on concrete inputs, and it shows
  that the contracts can be met. A write takes at most \<open>k_room\<close> bytes, or fails with \<open>k_werr\<close>; a
  read delivers what is in \<open>k_input\<close> and reports the end of the stream when that is empty.
\<close>

record simk =
  k_interest :: "int \<Rightarrow> int \<Rightarrow> epoll_event option"
  k_sent :: "int \<Rightarrow> byte list"
  k_input :: "int \<Rightarrow> byte list"
  k_room :: nat
  k_werr :: "errno option"
  k_ready :: "epoll_event list"
  k_next :: int
  k_env :: "string \<Rightarrow> string option"
  k_closed :: "int list"
  k_shut :: "int list"
  k_accept :: "(int \<times> sockaddr_in) list"

definition EEXIST :: errno where "EEXIST = 17"
definition ENOENT :: errno where "ENOENT = 2"

definition sim_ctl :: "int \<Rightarrow> ctl_op \<Rightarrow> int \<Rightarrow> epoll_event \<Rightarrow> simk \<Rightarrow> (errno + unit) \<times> simk" where
  "sim_ctl ep op fd ev k =
     (let set = (\<lambda>e. (Inr (), k\<lparr>k_interest := (k_interest k)(ep := (k_interest k ep)(fd := e))\<rparr>)) in
      case op of
        EPOLL_CTL_ADD \<Rightarrow> (if k_interest k ep fd = None then set (Some ev) else (Inl EEXIST, k))
      | EPOLL_CTL_MOD \<Rightarrow> (if k_interest k ep fd = None then (Inl ENOENT, k) else set (Some ev))
      | EPOLL_CTL_DEL \<Rightarrow> (if k_interest k ep fd = None then (Inl ENOENT, k) else set None))"

definition sim_write :: "int \<Rightarrow> byte list \<Rightarrow> simk \<Rightarrow> (errno + nat) \<times> simk" where
  "sim_write fd bs k =
     (case k_werr k of
        Some e \<Rightarrow> (Inl e, k)
      | None \<Rightarrow> let n = min (length bs) (k_room k)
                in (Inr n, k\<lparr>k_sent := (k_sent k)(fd := k_sent k fd @ take n bs)\<rparr>))"

definition sim_fd :: "simk \<Rightarrow> (errno + int) \<times> simk" where
  "sim_fd k = (Inr (k_next k), k\<lparr>k_next := k_next k + 1\<rparr>)"

text \<open>A new epoll descriptor has an empty interest list.\<close>

definition sim_epoll_create :: "simk \<Rightarrow> (errno + int) \<times> simk" where
  "sim_epoll_create k = (Inr (k_next k), k\<lparr>k_next := k_next k + 1,
     k_interest := (k_interest k)(k_next k := (\<lambda>_. None))\<rparr>)"

definition sim_os :: "simk os" where
  "sim_os = \<lparr>sys_epoll_create1 = sim_epoll_create,
     sys_epoll_ctl = sim_ctl,
     sys_epoll_wait = (\<lambda>ep n t k. (Inr (take n (k_ready k)), k\<lparr>k_ready := drop n (k_ready k)\<rparr>)),
     sys_eventfd = sim_fd,
     sys_read = (\<lambda>fd n k. (Inr (take n (k_input k fd)), k\<lparr>k_input := (k_input k)(fd := drop n (k_input k fd))\<rparr>)),
     sys_readv = (\<lambda>fd caps k. (Inr (take (sum_list caps) (k_input k fd)),
        k\<lparr>k_input := (k_input k)(fd := drop (sum_list caps) (k_input k fd))\<rparr>)),
     sys_write = sim_write,
     sys_shutdown_wr = (\<lambda>fd k. (Inr (), k\<lparr>k_shut := k_shut k @ [fd]\<rparr>)),
     sys_so_error = (\<lambda>fd k. (Inr 0, k)),
     sys_close = (\<lambda>fd k. k\<lparr>k_closed := k_closed k @ [fd]\<rparr>),
     sys_time = (\<lambda>k. (0, k)),
     sys_getenv = (\<lambda>s k. k_env k s),
     sys_socket = sim_fd,
     sys_bind = (\<lambda>fd a k. (Inr (), k)),
     sys_listen = (\<lambda>fd n k. (Inr (), k)),
     sys_accept4 = (\<lambda>fd k. case k_accept k of [] \<Rightarrow> (Inl EWOULDBLOCK, k)
        | (c, a) # rest \<Rightarrow> (Inr (c, a), k\<lparr>k_accept := rest\<rparr>)),
     sys_getsockname = (\<lambda>fd k. (Inr \<lparr>sin_family = AF_INET, sin_port = 0, sin_addr = 0\<rparr>, k)),
     sys_setsockopt = (\<lambda>fd l opt v k. k)\<rparr>"

lemma sim_os_simps [simp]:
  "sys_epoll_create1 sim_os = sim_epoll_create" "sys_epoll_ctl sim_os = sim_ctl"
  "sys_epoll_wait sim_os ep n t k = (Inr (take n (k_ready k)), k\<lparr>k_ready := drop n (k_ready k)\<rparr>)"
  "sys_eventfd sim_os = sim_fd"
  "sys_read sim_os fd n k =
     (Inr (take n (k_input k fd)), k\<lparr>k_input := (k_input k)(fd := drop n (k_input k fd))\<rparr>)"
  "sys_readv sim_os fd caps k = (Inr (take (sum_list caps) (k_input k fd)),
     k\<lparr>k_input := (k_input k)(fd := drop (sum_list caps) (k_input k fd))\<rparr>)"
  "sys_write sim_os = sim_write"
  "sys_shutdown_wr sim_os fd k = (Inr (), k\<lparr>k_shut := k_shut k @ [fd]\<rparr>)"
  "sys_so_error sim_os fd k = (Inr 0, k)"
  "sys_close sim_os fd k = k\<lparr>k_closed := k_closed k @ [fd]\<rparr>"
  "sys_time sim_os k = (0, k)" "sys_getenv sim_os s k = k_env k s"
  "sys_socket sim_os = sim_fd" "sys_bind sim_os fd a k = (Inr (), k)"
  "sys_listen sim_os fd m k = (Inr (), k)" "sys_setsockopt sim_os fd l opt v k = k"
  "sys_accept4 sim_os fd k = (case k_accept k of [] \<Rightarrow> (Inl EWOULDBLOCK, k)
     | (c, a) # rest \<Rightarrow> (Inr (c, a), k\<lparr>k_accept := rest\<rparr>))"
  "sys_getsockname sim_os fd k = (Inr \<lparr>sin_family = AF_INET, sin_port = 0, sin_addr = 0\<rparr>, k)"
  by (simp_all add: sim_os_def)

section \<open>It fulfils the contracts\<close>

lemma sim_readv: "readv_contract sim_os"
  by (auto simp: readv_contract_def)

lemma sim_write_contract: "write_contract sim_os k_sent"
  by (auto simp: write_contract_def sim_write_def Let_def split: option.splits)

lemma sim_quiet: "quiet_contract sim_os k_sent"
  by (auto simp: quiet_contract_def sim_ctl_def Let_def split: ctl_op.split)

lemma sim_epoll_wait: "epoll_wait_contract sim_os"
  by (auto simp: epoll_wait_contract_def)

lemma sim_epoll: "epoll_contract sim_os k_interest"
  by (auto simp: epoll_contract_def sim_ctl_def Let_def)

lemma sim_fresh: "fresh_epoll_contract sim_os k_interest"
  by (simp add: fresh_epoll_contract_def sim_epoll_create_def sim_fd_def)

lemma sim_neutral: "socket_calls_neutral sim_os k_interest"
  by (auto simp: socket_calls_neutral_def sim_write_def Let_def split: option.split)

text \<open>The same kernel with a peer that keeps reading: a write takes two bytes, or all if there are fewer.\<close>

definition eager_os :: "simk os" where
  "eager_os = sim_os\<lparr>sys_write := (\<lambda>fd bs k. (Inr (min (length bs) 2),
     k\<lparr>k_sent := (k_sent k)(fd := k_sent k fd @ take 2 bs)\<rparr>))\<rparr>"

lemma eager_contracts:
  "readv_contract eager_os" "write_contract eager_os k_sent" "quiet_contract eager_os k_sent"
  "epoll_contract eager_os k_interest" "socket_calls_neutral eager_os k_interest" "accepting eager_os"
  "shutdown_contract eager_os (\<lambda>k fd. fd \<in> set (k_shut k))"
  using sim_readv sim_quiet sim_epoll sim_neutral
  by (auto simp: eager_os_def readv_contract_def write_contract_def quiet_contract_def epoll_contract_def
      socket_calls_neutral_def accepting_def shutdown_contract_def min_def fun_eq_iff)

section \<open>A freshly booted kernel\<close>

definition boot :: simk where
  "boot = \<lparr>k_interest = (\<lambda>_ _. None), k_sent = (\<lambda>_. []), k_input = (\<lambda>_. []), k_room = 4, k_werr = None,
     k_ready = [], k_next = 3, k_env = (\<lambda>_. None), k_closed = [], k_shut = [], k_accept = []\<rparr>"

end
