(* ===== verification/EPollPoller.thy ===== *)
theory EPollPoller
  imports Channel Sim_Kernel
begin

text \<open>
  \<open>Poller\<close> and \<open>EPollPoller\<close> (Poller.h/.cpp, EPollPoller.h/.cpp). The world is a record that later
  theories extend: the kernel, the heap of channels, and the poller of every loop. All operations
  are polymorphic in the extension, so they apply unchanged to the larger worlds.

  The invariant \<open>poller_inv\<close> relates the three copies of the registration the code keeps: the status
  of the channel, the interest list in the kernel, and the map \<open>m_channels\<close>.
\<close>

section \<open>State\<close>

record poller =
  m_channels :: "int \<Rightarrow> chan_ptr option"
  m_epollfd :: int
  m_eventList :: "epoll_event list"

record 'k sys =
  kern :: 'k
  chan :: "chan_ptr \<Rightarrow> channel"
  poller_of :: "loop_ptr \<Rightarrow> poller"

definition kStatusNew :: int where "kStatusNew = -1"
definition kStatusAdded :: int where "kStatusAdded = 1"
definition kStatusDeleted :: int where "kStatusDeleted = 2"
definition kInitEventListSize :: nat where "kInitEventListSize = 16"

lemmas status_values = kStatusNew_def kStatusAdded_def kStatusDeleted_def

text \<open>Updating one object of a heap.\<close>

definition upd_chan :: "chan_ptr \<Rightarrow> (channel \<Rightarrow> channel) \<Rightarrow> ('k, 'z) sys_scheme \<Rightarrow> ('k, 'z) sys_scheme" where
  "upd_chan c f w = w\<lparr>chan := (chan w)(c := f (chan w c))\<rparr>"

definition upd_poller :: "loop_ptr \<Rightarrow> (poller \<Rightarrow> poller) \<Rightarrow> ('k, 'z) sys_scheme \<Rightarrow> ('k, 'z) sys_scheme" where
  "upd_poller l f w = w\<lparr>poller_of := (poller_of w)(l := f (poller_of w l))\<rparr>"

section \<open>Operations\<close>

definition EPollPoller_ctor :: "'k os \<Rightarrow> 'k \<Rightarrow> (poller \<times> 'k) result" where
  "EPollPoller_ctor os k =
     (case sys_epoll_create1 os k of
        (Inl e, k') \<Rightarrow> Inl Exit
      | (Inr epfd, k') \<Rightarrow>
          Inr (\<lparr>m_channels = (\<lambda>_. None), m_epollfd = epfd,
                m_eventList = replicate kInitEventListSize \<lparr>ev_events = 0, ev_ptr = 0\<rparr>\<rparr>, k'))"

definition EPollPoller_dtor :: "'k os \<Rightarrow> loop_ptr \<Rightarrow> ('k, 'z) sys_scheme \<Rightarrow> ('k, 'z) sys_scheme" where
  "EPollPoller_dtor os l w = w\<lparr>kern := sys_close os (m_epollfd (poller_of w l)) (kern w)\<rparr>"

text \<open>\<open>None\<close> is the null pointer the factory returns when the environment asks for \<open>poll(2)\<close>.\<close>

definition newDefaultPoller :: "'k os \<Rightarrow> 'k \<Rightarrow> (poller option \<times> 'k) result" where
  "newDefaultPoller os k =
     (if sys_getenv os ''MUDUO_USE_POLL'' k \<noteq> None then Inr (None, k)
      else andThen (EPollPoller_ctor os k) (\<lambda>(p, k'). Inr (Some p, k')))"

definition hasChannel :: "loop_ptr \<Rightarrow> chan_ptr \<Rightarrow> ('k, 'z) sys_scheme \<Rightarrow> bool" where
  "hasChannel l inChannel w \<longleftrightarrow>
     (case m_channels (poller_of w l) (m_fd (chan w inChannel)) of
        None \<Rightarrow> False
      | Some c \<Rightarrow> c = inChannel)"

definition EPollPoller_update ::
    "'k os \<Rightarrow> loop_ptr \<Rightarrow> ctl_op \<Rightarrow> chan_ptr \<Rightarrow> ('k, 'z) sys_scheme \<Rightarrow> ('k, 'z) sys_scheme result" where
  "EPollPoller_update os l operation inChannel w =
     (let fd = m_fd (chan w inChannel);
          event = \<lparr>ev_events = m_events (chan w inChannel), ev_ptr = inChannel\<rparr>
      in case sys_epoll_ctl os (m_epollfd (poller_of w l)) operation fd event (kern w) of
           (Inl e, k') \<Rightarrow> (if operation = EPOLL_CTL_DEL then Inr (w\<lparr>kern := k'\<rparr>) else Inl Exit)
         | (Inr _, k') \<Rightarrow> Inr (w\<lparr>kern := k'\<rparr>))"

definition EPollPoller_updateChannel ::
    "'k os \<Rightarrow> loop_ptr \<Rightarrow> chan_ptr \<Rightarrow> ('k, 'z) sys_scheme \<Rightarrow> ('k, 'z) sys_scheme result" where
  "EPollPoller_updateChannel os l c w =
     (let status = m_channelStatus (chan w c) in
      if status = kStatusNew \<or> status = kStatusDeleted then
        let w1 = (if status = kStatusNew
                  then upd_poller l (\<lambda>p. p\<lparr>m_channels := (m_channels p)(m_fd (chan w c) \<mapsto> c)\<rparr>) w
                  else w);
            w2 = upd_chan c (setChannelStatus kStatusAdded) w1
        in EPollPoller_update os l EPOLL_CTL_ADD c w2
      else if isNoneEvent (chan w c) then
        let fd = m_fd (chan w c) in
        andThen (EPollPoller_update os l EPOLL_CTL_DEL c w) (\<lambda>w1.
          Inr (upd_poller l (\<lambda>p. p\<lparr>m_channels := (m_channels p)(fd := None)\<rparr>)
                (upd_chan c (setChannelStatus kStatusDeleted) w1)))
      else EPollPoller_update os l EPOLL_CTL_MOD c w)"

definition EPollPoller_removeChannel ::
    "'k os \<Rightarrow> loop_ptr \<Rightarrow> chan_ptr \<Rightarrow> ('k, 'z) sys_scheme \<Rightarrow> ('k, 'z) sys_scheme result" where
  "EPollPoller_removeChannel os l c w =
     (let fd = m_fd (chan w c);
          w1 = upd_poller l (\<lambda>p. p\<lparr>m_channels := (m_channels p)(fd := None)\<rparr>) w;
          status = m_channelStatus (chan w1 c)
      in andThen (if status = kStatusAdded then EPollPoller_update os l EPOLL_CTL_DEL c w1
                  else Inr w1) (\<lambda>w2.
           Inr (upd_chan c (setChannelStatus kStatusNew) w2)))"

text \<open>\<open>fillActiveChannels\<close> over the first \<open>numEvents\<close> entries of the event array; it returns the
  extended list of active channels.\<close>

fun fillActiveChannels ::
    "epoll_event list \<Rightarrow> chan_ptr list \<Rightarrow> ('k, 'z) sys_scheme \<Rightarrow> chan_ptr list \<times> ('k, 'z) sys_scheme" where
  "fillActiveChannels [] active w = (active, w)"
| "fillActiveChannels (ev # evs) active w =
     fillActiveChannels evs (active @ [ev_ptr ev]) (upd_chan (ev_ptr ev) (setRevents (ev_events ev)) w)"

definition EPollPoller_poll ::
    "'k os \<Rightarrow> loop_ptr \<Rightarrow> int \<Rightarrow> chan_ptr list \<Rightarrow> ('k, 'z) sys_scheme \<Rightarrow>
       timestamp \<times> chan_ptr list \<times> ('k, 'z) sys_scheme" where
  "EPollPoller_poll os l inTimeoutMs active w =
     (let p = poller_of w l;
          (res, k1) = sys_epoll_wait os (m_epollfd p) (length (m_eventList p)) inTimeoutMs (kern w);
          (now, k2) = sys_time os k1;
          w1 = w\<lparr>kern := k2\<rparr>
      in case res of
           Inl saveErrno \<Rightarrow> (now, active, w1)
         | Inr evs \<Rightarrow>
             if 0 < length evs then
               let array = evs @ drop (length evs) (m_eventList p);
                   w2 = upd_poller l (\<lambda>p. p\<lparr>m_eventList := array\<rparr>) w1;
                   (active', w3) = fillActiveChannels (take (length evs) array) active w2;
                   w4 = (if length evs = length array
                         then upd_poller l (\<lambda>p. p\<lparr>m_eventList := m_eventList p @
                                replicate (length array) \<lparr>ev_events = 0, ev_ptr = 0\<rparr>\<rparr>) w3
                         else w3)
               in (now, active', w4)
             else (now, active, w1))"

section \<open>Frame rules of the heap updates\<close>

lemma upd_chan_simps [simp]:
  "chan (upd_chan c f w) = (chan w)(c := f (chan w c))"
  "kern (upd_chan c f w) = kern w" "poller_of (upd_chan c f w) = poller_of w"
  "sys.more (upd_chan c f w) = sys.more w"
  by (simp_all add: upd_chan_def)

lemma upd_poller_simps [simp]:
  "poller_of (upd_poller l f w) = (poller_of w)(l := f (poller_of w l))"
  "kern (upd_poller l f w) = kern w" "chan (upd_poller l f w) = chan w"
  "sys.more (upd_poller l f w) = sys.more w"
  by (simp_all add: upd_poller_def)

lemma setChannelStatus_simps [simp]:
  "m_channelStatus (setChannelStatus s c) = s" "m_fd (setChannelStatus s c) = m_fd c"
  "m_events (setChannelStatus s c) = m_events c" "m_chLoop (setChannelStatus s c) = m_chLoop c"
  "m_revents (setChannelStatus s c) = m_revents c"
  "isWriting (setChannelStatus s c) = isWriting c" "isReading (setChannelStatus s c) = isReading c"
  "isNoneEvent (setChannelStatus s c) = isNoneEvent c"
  by (simp_all add: setChannelStatus_def isWriting_def isReading_def isNoneEvent_def)

lemma setRevents_simps [simp]:
  "m_revents (setRevents r c) = r" "m_channelStatus (setRevents r c) = m_channelStatus c"
  "m_fd (setRevents r c) = m_fd c" "m_events (setRevents r c) = m_events c"
  "m_chLoop (setRevents r c) = m_chLoop c"
  by (simp_all add: setRevents_def)

section \<open>What an operation can touch\<close>

text \<open>
  Whatever the kernel answers, \<open>updateChannel\<close> and \<open>removeChannel\<close> change the kernel, the status of
  the one channel and the map of the one poller, and nothing else of any larger world.
\<close>

definition sys_touch ::
    "loop_ptr \<Rightarrow> chan_ptr \<Rightarrow> 'k \<Rightarrow> int \<Rightarrow> (int \<Rightarrow> chan_ptr option) \<Rightarrow> ('k, 'z) sys_scheme \<Rightarrow> ('k, 'z) sys_scheme"
  where
  "sys_touch l c k s M w = w\<lparr>kern := k, chan := (chan w)(c := setChannelStatus s (chan w c)),
     poller_of := (poller_of w)(l := (poller_of w l)\<lparr>m_channels := M\<rparr>)\<rparr>"

definition touches :: "loop_ptr \<Rightarrow> chan_ptr \<Rightarrow> ('k, 'z) sys_scheme \<Rightarrow> ('k, 'z) sys_scheme \<Rightarrow> bool" where
  "touches l c w w' \<longleftrightarrow> (\<exists>k s M. w' = sys_touch l c k s M w)"

lemma sys_touch_simps [simp]:
  "kern (sys_touch l c k s M w) = k"
  "chan (sys_touch l c k s M w) = (chan w)(c := setChannelStatus s (chan w c))"
  "m_epollfd (poller_of (sys_touch l c k s M w) l') = m_epollfd (poller_of w l')"
  "m_eventList (poller_of (sys_touch l c k s M w) l') = m_eventList (poller_of w l')"
  "m_channels (poller_of (sys_touch l c k s M w) l) = M"
  by (simp_all add: sys_touch_def)

lemma setChannelStatus_self: "setChannelStatus (m_channelStatus c) c = c"
  by (simp add: setChannelStatus_def)

lemma setChannelStatus_twice: "setChannelStatus s (setChannelStatus t c) = setChannelStatus s c"
  by (simp add: setChannelStatus_def)

lemma EPollPoller_update_eq:
  "EPollPoller_update os l op c w = Inr w' \<Longrightarrow>
     w' = w\<lparr>kern := snd (sys_epoll_ctl os (m_epollfd (poller_of w l)) op (m_fd (chan w c))
                      \<lparr>ev_events = m_events (chan w c), ev_ptr = c\<rparr> (kern w))\<rparr>"
  by (auto simp: EPollPoller_update_def Let_def split: prod.splits sum.splits if_splits)

lemma sys_touch_twice:
  "sys_touch l c k s M (sys_touch l c k' s' M' w) = sys_touch l c k s M w"
  by (cases w) (simp add: sys_touch_def setChannelStatus_twice)

lemma touches_trans [trans]: "touches l c w w1 \<Longrightarrow> touches l c w1 w2 \<Longrightarrow> touches l c w w2"
  unfolding touches_def by (metis sys_touch_twice)

lemma touches_refl: "touches l c w w"
  unfolding touches_def
  by (rule exI [of _ "kern w"], rule exI [of _ "m_channelStatus (chan w c)"],
      rule exI [of _ "m_channels (poller_of w l)"])
    (cases w; simp add: sys_touch_def setChannelStatus_self)

lemma touches_kern: "touches l c w (w\<lparr>kern := k\<rparr>)"
  unfolding touches_def
  by (rule exI [of _ k], rule exI [of _ "m_channelStatus (chan w c)"],
      rule exI [of _ "m_channels (poller_of w l)"])
    (cases w; simp add: sys_touch_def setChannelStatus_self)

lemma touches_status: "touches l c w (upd_chan c (setChannelStatus s) w)"
  unfolding touches_def
  by (rule exI [of _ "kern w"], rule exI [of _ s], rule exI [of _ "m_channels (poller_of w l)"])
    (cases w; simp add: sys_touch_def upd_chan_def)

lemma touches_map: "touches l c w (upd_poller l (\<lambda>p. p\<lparr>m_channels := f p\<rparr>) w)"
  unfolding touches_def
  by (rule exI [of _ "kern w"], rule exI [of _ "m_channelStatus (chan w c)"],
      rule exI [of _ "f (poller_of w l)"])
    (cases w; simp add: sys_touch_def upd_poller_def setChannelStatus_self)

lemma EPollPoller_update_touches:
  "EPollPoller_update os l op c' w1 = Inr w2 \<Longrightarrow> touches l c w w1 \<Longrightarrow> touches l c w w2"
  by (auto dest!: EPollPoller_update_eq intro: touches_trans touches_kern)

lemmas touches_then = EPollPoller_update_touches touches_refl
  touches_trans [OF _ touches_status] touches_trans [OF _ touches_map]

lemma updateChannel_touches:
  assumes "EPollPoller_updateChannel os l c w = Inr w'"
  shows "touches l c w w'"
  using assms unfolding EPollPoller_updateChannel_def Let_def
  by (auto simp: andThen_eq_Inr split: if_split_asm intro!: touches_refl touches_then(3,4)
      elim!: EPollPoller_update_touches)

lemma removeChannel_touches:
  assumes "EPollPoller_removeChannel os l c w = Inr w'"
  shows "touches l c w w'"
  using assms unfolding EPollPoller_removeChannel_def Let_def
  by (auto simp: andThen_eq_Inr split: if_split_asm intro!: touches_refl touches_then(3,4)
      elim!: EPollPoller_update_touches)

section \<open>Registration: the interest list, the status and the map agree\<close>

text \<open>
  The invariant of the poller of loop \<open>l\<close>, except for the mask of the channels in \<open>X\<close> (whose mask
  was just changed and is about to be passed to the kernel): every entry of the kernel's interest
  list belongs to a channel of this loop, is stored under its descriptor, carries its current mask,
  and the status of the channel is \<open>kStatusAdded\<close>; every such channel has its entry; an entry of
  \<open>m_channels\<close> names a channel with that status.
\<close>

definition poller_inv ::
    "('k \<Rightarrow> int \<Rightarrow> int \<Rightarrow> epoll_event option) \<Rightarrow> chan_ptr set \<Rightarrow> loop_ptr \<Rightarrow> ('k, 'z) sys_scheme \<Rightarrow> bool" where
  "poller_inv interest X l w \<longleftrightarrow>
     (\<forall>fd ev. interest (kern w) (m_epollfd (poller_of w l)) fd = Some ev \<longrightarrow>
        m_chLoop (chan w (ev_ptr ev)) = l \<and> m_fd (chan w (ev_ptr ev)) = fd \<and>
        m_channelStatus (chan w (ev_ptr ev)) = kStatusAdded \<and>
        (ev_ptr ev \<notin> X \<longrightarrow> ev_events ev = m_events (chan w (ev_ptr ev)))) \<and>
     (\<forall>c. m_chLoop (chan w c) = l \<and> m_channelStatus (chan w c) = kStatusAdded \<longrightarrow>
        (\<exists>ev. interest (kern w) (m_epollfd (poller_of w l)) (m_fd (chan w c)) = Some ev \<and> ev_ptr ev = c)) \<and>
     (\<forall>fd c. m_channels (poller_of w l) fd = Some c \<longrightarrow>
        m_chLoop (chan w c) = l \<and> m_fd (chan w c) = fd \<and> m_channelStatus (chan w c) = kStatusAdded) \<and>
     (\<forall>c. m_chLoop (chan w c) = l \<longrightarrow>
        m_channelStatus (chan w c) \<in> {kStatusNew, kStatusAdded, kStatusDeleted})"

text \<open>The mask the kernel watches for a channel, if any.\<close>

definition watched ::
    "('k \<Rightarrow> int \<Rightarrow> int \<Rightarrow> epoll_event option) \<Rightarrow> loop_ptr \<Rightarrow> ('k, 'z) sys_scheme \<Rightarrow> chan_ptr \<Rightarrow> evmask option" where
  "watched interest l w c =
     (case interest (kern w) (m_epollfd (poller_of w l)) (m_fd (chan w c)) of
        Some ev \<Rightarrow> (if ev_ptr ev = c then Some (ev_events ev) else None)
      | None \<Rightarrow> None)"

text \<open>No other channel of the loop is registered under the descriptor of \<open>c\<close>.\<close>

definition fd_free :: "loop_ptr \<Rightarrow> chan_ptr \<Rightarrow> ('k, 'z) sys_scheme \<Rightarrow> bool" where
  "fd_free l c w \<longleftrightarrow>
     (\<forall>c'. c' \<noteq> c \<and> m_chLoop (chan w c') = l \<and> m_fd (chan w c') = m_fd (chan w c) \<longrightarrow>
        m_channelStatus (chan w c') \<noteq> kStatusAdded)"

lemma status_distinct [simp]:
  "kStatusNew \<noteq> kStatusAdded" "kStatusAdded \<noteq> kStatusNew"
  "kStatusNew \<noteq> kStatusDeleted" "kStatusDeleted \<noteq> kStatusNew"
  "kStatusAdded \<noteq> kStatusDeleted" "kStatusDeleted \<noteq> kStatusAdded"
  by (simp_all add: status_values)

lemma poller_invD:
  assumes "poller_inv interest X l w"
  shows "interest (kern w) (m_epollfd (poller_of w l)) fd = Some ev \<Longrightarrow>
      m_chLoop (chan w (ev_ptr ev)) = l \<and> m_fd (chan w (ev_ptr ev)) = fd \<and>
      m_channelStatus (chan w (ev_ptr ev)) = kStatusAdded"
    and "interest (kern w) (m_epollfd (poller_of w l)) fd = Some ev \<Longrightarrow> ev_ptr ev \<notin> X \<Longrightarrow>
      ev_events ev = m_events (chan w (ev_ptr ev))"
    and "m_chLoop (chan w c) = l \<Longrightarrow> m_channelStatus (chan w c) = kStatusAdded \<Longrightarrow>
      \<exists>ev. interest (kern w) (m_epollfd (poller_of w l)) (m_fd (chan w c)) = Some ev \<and> ev_ptr ev = c"
    and "m_channels (poller_of w l) fd = Some c \<Longrightarrow>
      m_chLoop (chan w c) = l \<and> m_fd (chan w c) = fd \<and> m_channelStatus (chan w c) = kStatusAdded"
    and "m_chLoop (chan w c) = l \<Longrightarrow>
      m_channelStatus (chan w c) \<in> {kStatusNew, kStatusAdded, kStatusDeleted}"
  using assms unfolding poller_inv_def by blast+

lemma poller_invI:
  assumes "\<And>fd ev. interest (kern w) (m_epollfd (poller_of w l)) fd = Some ev \<Longrightarrow>
      m_chLoop (chan w (ev_ptr ev)) = l \<and> m_fd (chan w (ev_ptr ev)) = fd \<and>
      m_channelStatus (chan w (ev_ptr ev)) = kStatusAdded"
    and "\<And>fd ev. interest (kern w) (m_epollfd (poller_of w l)) fd = Some ev \<Longrightarrow> ev_ptr ev \<notin> X \<Longrightarrow>
      ev_events ev = m_events (chan w (ev_ptr ev))"
    and "\<And>c. m_chLoop (chan w c) = l \<Longrightarrow> m_channelStatus (chan w c) = kStatusAdded \<Longrightarrow>
      \<exists>ev. interest (kern w) (m_epollfd (poller_of w l)) (m_fd (chan w c)) = Some ev \<and> ev_ptr ev = c"
    and "\<And>fd c. m_channels (poller_of w l) fd = Some c \<Longrightarrow>
      m_chLoop (chan w c) = l \<and> m_fd (chan w c) = fd \<and> m_channelStatus (chan w c) = kStatusAdded"
    and "\<And>c. m_chLoop (chan w c) = l \<Longrightarrow>
      m_channelStatus (chan w c) \<in> {kStatusNew, kStatusAdded, kStatusDeleted}"
  shows "poller_inv interest X l w"
  using assms unfolding poller_inv_def by blast

lemma fd_free_interest:
  assumes inv: "poller_inv interest X l w" and free: "fd_free l c w"
    and st: "m_channelStatus (chan w c) \<noteq> kStatusAdded"
  shows "interest (kern w) (m_epollfd (poller_of w l)) (m_fd (chan w c)) = None"
proof (rule ccontr)
  assume "interest (kern w) (m_epollfd (poller_of w l)) (m_fd (chan w c)) \<noteq> None"
  then obtain ev where "interest (kern w) (m_epollfd (poller_of w l)) (m_fd (chan w c)) = Some ev"
    by blast
  then show False
    using poller_invD(1) [OF inv] free st unfolding fd_free_def by metis
qed

lemma watched_iff:
  assumes inv: "poller_inv interest X l w" and l: "m_chLoop (chan w c) = l" and X: "c \<notin> X"
  shows "watched interest l w c =
     (if m_channelStatus (chan w c) = kStatusAdded then Some (m_events (chan w c)) else None)"
proof (cases "m_channelStatus (chan w c) = kStatusAdded")
  case True
  then obtain ev where
    "interest (kern w) (m_epollfd (poller_of w l)) (m_fd (chan w c)) = Some ev" "ev_ptr ev = c"
    using poller_invD(3) [OF inv l] by blast
  with True poller_invD(2) [OF inv this(1)] X show ?thesis
    by (simp add: watched_def)
next
  case False
  then have "ev_ptr ev \<noteq> c"
    if "interest (kern w) (m_epollfd (poller_of w l)) (m_fd (chan w c)) = Some ev" for ev
    using poller_invD(1) [OF inv that] by blast
  with False show ?thesis
    by (simp add: watched_def split: option.split)
qed

lemma poller_inv_weaken: "poller_inv interest {} l w \<Longrightarrow> poller_inv interest X l w"
  unfolding poller_inv_def by blast

lemma poller_inv_mask:
  assumes "poller_inv interest {} l w"
    and "\<And>ch. m_chLoop (f ch) = m_chLoop ch" "\<And>ch. m_fd (f ch) = m_fd ch"
      "\<And>ch. m_channelStatus (f ch) = m_channelStatus ch"
  shows "poller_inv interest {c} l (upd_chan c f w)"
  using assms unfolding poller_inv_def by auto

section \<open>The two operations keep it\<close>

lemma ctl_add:
  assumes "epoll_contract os interest"
    and "interest (kern w) (m_epollfd (poller_of w l)) (m_fd (chan w c)) = None"
  shows "\<exists>k. EPollPoller_update os l EPOLL_CTL_ADD c w = Inr (w\<lparr>kern := k\<rparr>) \<and>
     interest k = (interest (kern w))(m_epollfd (poller_of w l) :=
       (interest (kern w) (m_epollfd (poller_of w l)))
         (m_fd (chan w c) := Some \<lparr>ev_events = m_events (chan w c), ev_ptr = c\<rparr>))"
  using epoll_contractD(1) [OF assms, where ev = "\<lparr>ev_events = m_events (chan w c), ev_ptr = c\<rparr>"]
  by (auto simp: EPollPoller_update_def)

lemma ctl_mod:
  assumes "epoll_contract os interest"
    and "interest (kern w) (m_epollfd (poller_of w l)) (m_fd (chan w c)) \<noteq> None"
  shows "\<exists>k. EPollPoller_update os l EPOLL_CTL_MOD c w = Inr (w\<lparr>kern := k\<rparr>) \<and>
     interest k = (interest (kern w))(m_epollfd (poller_of w l) :=
       (interest (kern w) (m_epollfd (poller_of w l)))
         (m_fd (chan w c) := Some \<lparr>ev_events = m_events (chan w c), ev_ptr = c\<rparr>))"
  using epoll_contractD(2) [OF assms, where ev = "\<lparr>ev_events = m_events (chan w c), ev_ptr = c\<rparr>"]
  by (auto simp: EPollPoller_update_def)

lemma ctl_del:
  assumes "epoll_contract os interest"
    and "interest (kern w) (m_epollfd (poller_of w l)) (m_fd (chan w c)) \<noteq> None"
  shows "\<exists>k. EPollPoller_update os l EPOLL_CTL_DEL c w = Inr (w\<lparr>kern := k\<rparr>) \<and>
     interest k = (interest (kern w))(m_epollfd (poller_of w l) :=
       (interest (kern w) (m_epollfd (poller_of w l)))(m_fd (chan w c) := None))"
  using epoll_contractD(3) [OF assms, where ev = "\<lparr>ev_events = m_events (chan w c), ev_ptr = c\<rparr>"]
  by (auto simp: EPollPoller_update_def)

text \<open>
  The three ways a registration changes, as facts about the state \<open>sys_touch\<close> reaches: the entry of
  \<open>c\<close> is set (after \<open>EPOLL_CTL_ADD\<close> or \<open>EPOLL_CTL_MOD\<close>), deleted, or not there.
\<close>

lemma touch_set_inv:
  assumes inv: "poller_inv interest {c} l w" and l: "m_chLoop (chan w c) = l"
    and free: "fd_free l c w"
    and k: "interest k = (interest (kern w))(m_epollfd (poller_of w l) :=
       (interest (kern w) (m_epollfd (poller_of w l)))
         (m_fd (chan w c) := Some \<lparr>ev_events = m_events (chan w c), ev_ptr = c\<rparr>))"
    and M: "\<And>fd x. M fd = Some x \<Longrightarrow>
       x = c \<and> fd = m_fd (chan w c) \<or> m_channels (poller_of w l) fd = Some x"
  shows "poller_inv interest {} l (sys_touch l c k kStatusAdded M w)"
proof (rule poller_invI, goal_cases)
  case (1 fd ev)
  then show ?case
    using poller_invD(1) [OF inv, of fd ev] l k by (auto split: if_splits)
next
  case (2 fd ev)
  show ?case
  proof (cases "fd = m_fd (chan w c)")
    case True
    then show ?thesis using 2 k by auto
  next
    case False
    then have ev: "interest (kern w) (m_epollfd (poller_of w l)) fd = Some ev"
      using 2 k by simp
    have "ev_ptr ev \<noteq> c"
      using poller_invD(1) [OF inv ev] False by auto
    then show ?thesis
      using poller_invD(2) [OF inv ev] by simp
  qed
next
  case (3 x)
  show ?case
  proof (cases "x = c")
    case True
    then show ?thesis using k by simp
  next
    case False
    then have x: "m_chLoop (chan w x) = l" "m_channelStatus (chan w x) = kStatusAdded"
      using 3 by auto
    then have "m_fd (chan w x) \<noteq> m_fd (chan w c)"
      using free False unfolding fd_free_def by auto
    then show ?thesis
      using poller_invD(3) [OF inv x] False k by simp
  qed
next
  case (4 fd x)
  then show ?case using M poller_invD(4) [OF inv, of fd x] l by auto
next
  case (5 x)
  then show ?case using poller_invD(5) [OF inv, of x] by (auto split: if_splits)
qed

text \<open>Where \<open>c\<close> leaves the interest list (or was not in it), its status is no longer added.\<close>

lemma touch_gone_inv:
  assumes inv: "poller_inv interest {c} l w" and l: "m_chLoop (chan w c) = l"
    and gone: "\<And>fd. interest k (m_epollfd (poller_of w l)) fd =
       (case interest (kern w) (m_epollfd (poller_of w l)) fd of
          None \<Rightarrow> None | Some ev \<Rightarrow> if ev_ptr ev = c then None else Some ev)"
    and s: "s \<in> {kStatusNew, kStatusDeleted}"
    and M: "M = (m_channels (poller_of w l))(m_fd (chan w c) := None)"
  shows "poller_inv interest {} l (sys_touch l c k s M w)"
proof -
  let ?i = "interest (kern w) (m_epollfd (poller_of w l))"
  have keep: "?i fd = Some ev \<and> ev_ptr ev \<noteq> c"
    if "interest k (m_epollfd (poller_of w l)) fd = Some ev" for fd ev
    using that gone [of fd] by (auto split: option.splits if_splits)
  show ?thesis
  proof (rule poller_invI, goal_cases)
    case (1 fd ev)
    then have ev: "?i fd = Some ev" "ev_ptr ev \<noteq> c"
      using keep by simp_all
    show ?case using poller_invD(1) [OF inv ev(1)] ev(2) by simp
  next
    case (2 fd ev)
    then have ev: "?i fd = Some ev" "ev_ptr ev \<noteq> c"
      using keep by simp_all
    show ?case using poller_invD(2) [OF inv ev(1)] ev(2) by simp
  next
    case (3 x)
    then have x: "x \<noteq> c" "m_chLoop (chan w x) = l" "m_channelStatus (chan w x) = kStatusAdded"
      using s by (auto split: if_splits)
    then show ?case
      using poller_invD(3) [OF inv x(2,3)] gone [of "m_fd (chan w x)"] by auto
  next
    case (4 fd x)
    then have x: "m_channels (poller_of w l) fd = Some x" "fd \<noteq> m_fd (chan w c)"
      using M by (auto split: if_splits)
    then show ?case using poller_invD(4) [OF inv x(1)] by auto
  next
    case (5 x)
    then show ?case using poller_invD(5) [OF inv, of x] s by (auto split: if_splits)
  qed
qed

lemma gone_by_del:
  assumes inv: "poller_inv interest X l w" and l: "m_chLoop (chan w c) = l"
    and st: "m_channelStatus (chan w c) = kStatusAdded"
    and k: "interest k = (interest (kern w))(m_epollfd (poller_of w l) :=
       (interest (kern w) (m_epollfd (poller_of w l)))(m_fd (chan w c) := None))"
  shows "interest k (m_epollfd (poller_of w l)) fd =
       (case interest (kern w) (m_epollfd (poller_of w l)) fd of
          None \<Rightarrow> None | Some ev \<Rightarrow> if ev_ptr ev = c then None else Some ev)"
proof -
  obtain ev where "interest (kern w) (m_epollfd (poller_of w l)) (m_fd (chan w c)) = Some ev"
      "ev_ptr ev = c"
    using poller_invD(3) [OF inv l st] by blast
  then show ?thesis
    using k poller_invD(1) [OF inv, of fd] by (auto split: option.splits)
qed

lemma gone_already:
  assumes inv: "poller_inv interest X l w" and st: "m_channelStatus (chan w c) \<noteq> kStatusAdded"
  shows "interest (kern w) (m_epollfd (poller_of w l)) fd =
       (case interest (kern w) (m_epollfd (poller_of w l)) fd of
          None \<Rightarrow> None | Some ev \<Rightarrow> if ev_ptr ev = c then None else Some ev)"
  using st poller_invD(1) [OF inv, of fd] by (auto split: option.splits)

lemma updateChannel_registers:
  assumes ct: "epoll_contract os interest" and inv: "poller_inv interest {c} l w"
    and l: "m_chLoop (chan w c) = l" and free: "fd_free l c w"
  shows "succeeds (\<lambda>w'. poller_inv interest {} l w' \<and> touches l c w w' \<and>
           m_channelStatus (chan w' c) =
             (if m_channelStatus (chan w c) = kStatusAdded \<and> isNoneEvent (chan w c)
              then kStatusDeleted else kStatusAdded))
         (EPollPoller_updateChannel os l c w)"
proof (cases "m_channelStatus (chan w c) = kStatusAdded")
  case False
  define M where "M = (if m_channelStatus (chan w c) = kStatusNew
    then (m_channels (poller_of w l))(m_fd (chan w c) \<mapsto> c) else m_channels (poller_of w l))"
  define w2 where "w2 = sys_touch l c (kern w) kStatusAdded M w"
  have st: "m_channelStatus (chan w c) = kStatusNew \<or> m_channelStatus (chan w c) = kStatusDeleted"
    using poller_invD(5) [OF inv l] False by auto
  have "EPollPoller_updateChannel os l c w = EPollPoller_update os l EPOLL_CTL_ADD c w2"
    using st by (cases w) (auto simp: EPollPoller_updateChannel_def w2_def M_def sys_touch_def
        upd_chan_def upd_poller_def)
  moreover have "interest (kern w2) (m_epollfd (poller_of w2 l)) (m_fd (chan w2 c)) = None"
    using fd_free_interest [OF inv free False] by (simp add: w2_def)
  ultimately obtain k where k: "EPollPoller_updateChannel os l c w = Inr (w2\<lparr>kern := k\<rparr>)"
    and ik: "interest k = (interest (kern w))(m_epollfd (poller_of w l) :=
       (interest (kern w) (m_epollfd (poller_of w l)))
         (m_fd (chan w c) := Some \<lparr>ev_events = m_events (chan w c), ev_ptr = c\<rparr>))"
    using ctl_add [OF ct, of w2 l c] by (auto simp: w2_def)
  have w': "w2\<lparr>kern := k\<rparr> = sys_touch l c k kStatusAdded M w"
    by (cases w) (simp add: w2_def sys_touch_def)
  have "poller_inv interest {} l (w2\<lparr>kern := k\<rparr>)"
    unfolding w' by (rule touch_set_inv [OF inv l free ik]) (auto simp: M_def split: if_splits)
  then show ?thesis
    using k False updateChannel_touches [OF k] by (simp add: w')
next
  case True
  note reg = poller_invD(3) [OF inv l True]
  show ?thesis
  proof (cases "isNoneEvent (chan w c)")
    case none: True
    obtain k where k: "EPollPoller_update os l EPOLL_CTL_DEL c w = Inr (w\<lparr>kern := k\<rparr>)"
      and ik: "interest k = (interest (kern w))(m_epollfd (poller_of w l) :=
         (interest (kern w) (m_epollfd (poller_of w l)))(m_fd (chan w c) := None))"
      using ctl_del [OF ct] reg by blast
    let ?M = "(m_channels (poller_of w l))(m_fd (chan w c) := None)"
    have w': "EPollPoller_updateChannel os l c w = Inr (sys_touch l c k kStatusDeleted ?M w)"
      using True none k by (cases w) (simp add: EPollPoller_updateChannel_def sys_touch_def
          upd_chan_def upd_poller_def)
    have "poller_inv interest {} l (sys_touch l c k kStatusDeleted ?M w)"
      by (rule touch_gone_inv [OF inv l gone_by_del [OF inv l True ik]]) simp_all
    then show ?thesis
      using w' True none updateChannel_touches [OF w'] by simp
  next
    case some: False
    obtain k where k: "EPollPoller_update os l EPOLL_CTL_MOD c w = Inr (w\<lparr>kern := k\<rparr>)"
      and ik: "interest k = (interest (kern w))(m_epollfd (poller_of w l) :=
         (interest (kern w) (m_epollfd (poller_of w l)))
           (m_fd (chan w c) := Some \<lparr>ev_events = m_events (chan w c), ev_ptr = c\<rparr>))"
      using ctl_mod [OF ct] reg by blast
    have w': "w\<lparr>kern := k\<rparr> = sys_touch l c k kStatusAdded (m_channels (poller_of w l)) w"
      using True setChannelStatus_self [of "chan w c"] by (cases w) (simp add: sys_touch_def)
    have eq: "EPollPoller_updateChannel os l c w = Inr (w\<lparr>kern := k\<rparr>)"
      using True some k by (simp add: EPollPoller_updateChannel_def)
    have "poller_inv interest {} l (w\<lparr>kern := k\<rparr>)"
      unfolding w' by (rule touch_set_inv [OF inv l free ik]) simp
    then show ?thesis
      using eq True some updateChannel_touches [OF eq] by (simp add: w')
  qed
qed

lemma removeChannel_unregisters:
  assumes ct: "epoll_contract os interest" and inv: "poller_inv interest {c} l w"
    and l: "m_chLoop (chan w c) = l"
  shows "succeeds (\<lambda>w'. poller_inv interest {} l w' \<and> touches l c w w' \<and>
           m_channelStatus (chan w' c) = kStatusNew \<and> \<not> hasChannel l c w')
         (EPollPoller_removeChannel os l c w)"
proof (cases "m_channelStatus (chan w c) = kStatusAdded")
  case True
  let ?M = "(m_channels (poller_of w l))(m_fd (chan w c) := None)"
  define w1 where "w1 = upd_poller l (\<lambda>p. p\<lparr>m_channels := (m_channels p)(m_fd (chan w c) := None)\<rparr>) w"
  obtain k where k: "EPollPoller_update os l EPOLL_CTL_DEL c w1 = Inr (w1\<lparr>kern := k\<rparr>)"
    and ik: "interest k = (interest (kern w))(m_epollfd (poller_of w l) :=
       (interest (kern w) (m_epollfd (poller_of w l)))(m_fd (chan w c) := None))"
    using ctl_del [OF ct, of w1 l c] poller_invD(3) [OF inv l True] by (auto simp: w1_def)
  have w': "EPollPoller_removeChannel os l c w = Inr (sys_touch l c k kStatusNew ?M w)"
    using True k by (cases w) (simp add: EPollPoller_removeChannel_def sys_touch_def w1_def
        upd_chan_def upd_poller_def)
  have "poller_inv interest {} l (sys_touch l c k kStatusNew ?M w)"
    by (rule touch_gone_inv [OF inv l gone_by_del [OF inv l True ik]]) simp_all
  then show ?thesis
    using w' removeChannel_touches [OF w'] by (simp add: hasChannel_def)
next
  case False
  let ?M = "(m_channels (poller_of w l))(m_fd (chan w c) := None)"
  have w': "EPollPoller_removeChannel os l c w = Inr (sys_touch l c (kern w) kStatusNew ?M w)"
    using False by (cases w) (simp add: EPollPoller_removeChannel_def sys_touch_def
        upd_chan_def upd_poller_def)
  have "poller_inv interest {} l (sys_touch l c (kern w) kStatusNew ?M w)"
    by (rule touch_gone_inv [OF inv l gone_already [OF inv False]]) simp_all
  then show ?thesis
    using w' removeChannel_touches [OF w'] by (simp add: hasChannel_def)
qed

section \<open>Polling\<close>

lemma fillActiveChannels_active:
  "fst (fillActiveChannels evs active w) = active @ map ev_ptr evs"
  by (induction evs active w rule: fillActiveChannels.induct) simp_all

text \<open>Only \<open>m_revents\<close> of the reported channels changes; where a channel is reported once, to the
  mask reported.\<close>

lemma fillActiveChannels_frame:
  "kern (snd (fillActiveChannels evs active w)) = kern w"
  "poller_of (snd (fillActiveChannels evs active w)) = poller_of w"
  "sys.more (snd (fillActiveChannels evs active w)) = sys.more w"
  "\<exists>r. chan (snd (fillActiveChannels evs active w)) c = setRevents r (chan w c)"
proof (induction evs active w rule: fillActiveChannels.induct)
  case (1 active w)
  {
    case 4
    show ?case by (rule exI [of _ "m_revents (chan w c)"]) (simp add: setRevents_def)
  }
qed (auto simp: setRevents_def)

lemma fillActiveChannels_other:
  "c \<notin> ev_ptr ` set evs \<Longrightarrow> chan (snd (fillActiveChannels evs active w)) c = chan w c"
  by (induction evs active w rule: fillActiveChannels.induct) auto

lemma fillActiveChannels_revents:
  "distinct (map ev_ptr evs) \<Longrightarrow> ev \<in> set evs \<Longrightarrow>
     m_revents (chan (snd (fillActiveChannels evs active w)) (ev_ptr ev)) = ev_events ev"
proof (induction evs active w rule: fillActiveChannels.induct)
  case (2 e evs active w)
  then show ?case
    by (cases "ev = e") (auto simp: fillActiveChannels_other image_iff)
qed simp

lemma poller_inv_revents:
  assumes "poller_inv interest X l w" and "kern w' = kern w"
    and "m_epollfd (poller_of w' l) = m_epollfd (poller_of w l)"
    and "m_channels (poller_of w' l) = m_channels (poller_of w l)"
    and "\<And>c. \<exists>r. chan w' c = setRevents r (chan w c)"
  shows "poller_inv interest X l w'"
proof -
  have "m_chLoop (chan w' c) = m_chLoop (chan w c)" "m_fd (chan w' c) = m_fd (chan w c)"
    "m_channelStatus (chan w' c) = m_channelStatus (chan w c)"
    "m_events (chan w' c) = m_events (chan w c)" for c
    using assms(5) [of c] by auto
  then show ?thesis
    using assms unfolding poller_inv_def by simp
qed

lemma poll_events:
  assumes wait: "sys_epoll_wait os (m_epollfd (poller_of w l)) (length (m_eventList (poller_of w l)))
            t (kern w) = (Inr evs, k1)"
    and time: "sys_time os k1 = (now, k2)" and bound: "length evs \<le> length (m_eventList (poller_of w l))"
    and poll: "EPollPoller_poll os l t active w = (ts, active', w')"
  shows "ts = now \<and> kern w' = k2 \<and> active' = active @ map ev_ptr evs \<and> sys.more w' = sys.more w \<and>
     (\<forall>c. \<exists>r. chan w' c = setRevents r (chan w c)) \<and>
     (\<forall>c. c \<notin> ev_ptr ` set evs \<longrightarrow> chan w' c = chan w c) \<and>
     (distinct (map ev_ptr evs) \<longrightarrow>
        (\<forall>ev \<in> set evs. m_revents (chan w' (ev_ptr ev)) = ev_events ev)) \<and>
     m_epollfd (poller_of w' l) = m_epollfd (poller_of w l) \<and>
     m_channels (poller_of w' l) = m_channels (poller_of w l) \<and>
     (\<forall>l'. l' \<noteq> l \<longrightarrow> poller_of w' l' = poller_of w l') \<and>
     length (m_eventList (poller_of w' l)) =
       (if evs \<noteq> [] \<and> length evs = length (m_eventList (poller_of w l))
        then 2 * length (m_eventList (poller_of w l)) else length (m_eventList (poller_of w l)))"
proof (cases "evs = []")
  case True
  then have "ts = now" "active' = active" "w' = w\<lparr>kern := k2\<rparr>"
    using poll wait time by (auto simp: EPollPoller_poll_def Let_def)
  then show ?thesis
    using True exI [of "\<lambda>r. chan w c = setRevents r (chan w c)" "m_revents (chan w c)" for c]
    by (simp add: setRevents_def)
next
  case False
  define w2 where "w2 = upd_poller l (\<lambda>p. p\<lparr>m_eventList := evs @ drop (length evs) (m_eventList p)\<rparr>)
    (w\<lparr>kern := k2\<rparr>)"
  have "EPollPoller_poll os l t active w =
    (now, fst (fillActiveChannels evs active w2),
     (if length evs = length (m_eventList (poller_of w l))
      then upd_poller l (\<lambda>p. p\<lparr>m_eventList := m_eventList p @
             replicate (length (m_eventList (poller_of w l))) \<lparr>ev_events = 0, ev_ptr = 0\<rparr>\<rparr>)
             (snd (fillActiveChannels evs active w2))
      else snd (fillActiveChannels evs active w2)))"
    using False wait time bound
    by (simp add: EPollPoller_poll_def Let_def w2_def split: prod.split)
      (simp add: upd_poller_def)
  then show ?thesis
    using poll False bound fillActiveChannels_frame [of evs active w2]
      fillActiveChannels_other [of _ evs active w2] fillActiveChannels_revents [of evs _ active w2]
    by (auto simp: fillActiveChannels_active w2_def)
qed

section \<open>The map of channels\<close>

lemma EPollPoller_update_frame:
  assumes "EPollPoller_update os l op c w = Inr w'"
  shows "chan w' = chan w" "poller_of w' = poller_of w"
  using EPollPoller_update_eq [OF assms] by (cases w, simp)+

lemma updateChannel_map:
  assumes "EPollPoller_updateChannel os l c w = Inr w'"
  shows "m_channels (poller_of w' l) =
     (if m_channelStatus (chan w c) = kStatusNew then (m_channels (poller_of w l))(m_fd (chan w c) \<mapsto> c)
      else if m_channelStatus (chan w c) \<noteq> kStatusDeleted \<and> isNoneEvent (chan w c)
      then (m_channels (poller_of w l))(m_fd (chan w c) := None)
      else m_channels (poller_of w l))"
  using assms unfolding EPollPoller_updateChannel_def Let_def
  by (auto simp: andThen_eq_Inr split: if_split_asm dest!: EPollPoller_update_frame)

lemma touches_watched_other:
  assumes inv: "poller_inv interest {c} l w" and inv': "poller_inv interest {} l w'" and t: "touches l c w w'"
    and c': "c' \<noteq> c" "m_chLoop (chan w c') = l"
  shows "watched interest l w' c' = watched interest l w c'"
proof -
  have "chan w' c' = chan w c'"
    using t c'(1) by (auto simp: touches_def)
  then show ?thesis
    using watched_iff [OF inv c'(2)] watched_iff [OF inv', of c'] c' by simp
qed

section \<open>A concrete poller\<close>

text \<open>The poller of loop 0 with two new channels, at 4 on descriptor 5 and at 2 on descriptor 6; the
  other addresses hold channels of another loop.\<close>

definition sample_sys :: "simk sys" where
  "sample_sys = \<lparr>kern = boot\<lparr>k_ready := [\<lparr>ev_events = EPOLLIN, ev_ptr = 2\<rparr>]\<rparr>,
     chan = (\<lambda>_. Channel_ctor 9 0)(4 := (Channel_ctor 0 5)\<lparr>m_events := EPOLLIN\<rparr>, 2 := Channel_ctor 0 6),
     poller_of = (\<lambda>_. \<lparr>m_channels = (\<lambda>_. None), m_epollfd = 3,
       m_eventList = replicate kInitEventListSize \<lparr>ev_events = 0, ev_ptr = 0\<rparr>\<rparr>)\<rparr>"

lemma sample_sys_chan:
  "chan sample_sys 4 = (Channel_ctor 0 5)\<lparr>m_events := EPOLLIN\<rparr>" "chan sample_sys 2 = Channel_ctor 0 6"
  by (simp_all add: sample_sys_def)

lemma sample_sys_inv: "poller_inv k_interest X l sample_sys"
  by (simp add: poller_inv_def sample_sys_def boot_def Channel_ctor_def status_values)

lemma sample_sys_free: "fd_free l c sample_sys"
  by (simp add: fd_free_def sample_sys_def Channel_ctor_def status_values)

section \<open>Properties\<close>

text \<open>
  C31: \<open>updateChannel\<close> brings the kernel in line with the channel: it succeeds, afterwards the kernel
  watches the channel for exactly its mask (a registered channel without events is withdrawn), the
  other channels of the loop are watched as before, and interest list, channel status and map agree.
\<close>

theorem updateChannel_correct:
  assumes "epoll_contract os interest" and "poller_inv interest {c} l w"
    and "m_chLoop (chan w c) = l" and "fd_free l c w"
  shows "succeeds (\<lambda>w'. poller_inv interest {} l w' \<and>
     watched interest l w' c =
       (if m_channelStatus (chan w c) = kStatusAdded \<and> isNoneEvent (chan w c) then None
        else Some (m_events (chan w c))) \<and>
     (\<forall>c'. c' \<noteq> c \<and> m_chLoop (chan w c') = l \<longrightarrow> watched interest l w' c' = watched interest l w c'))
   (EPollPoller_updateChannel os l c w)"
proof (rule succeeds_mono [OF updateChannel_registers [OF assms]], elim conjE)
  fix w' assume inv': "poller_inv interest {} l w'" and t: "touches l c w w'"
    and st: "m_channelStatus (chan w' c) = (if m_channelStatus (chan w c) = kStatusAdded \<and> isNoneEvent (chan w c)
              then kStatusDeleted else kStatusAdded)"
  have "m_chLoop (chan w' c) = l" "m_events (chan w' c) = m_events (chan w c)"
    using t assms(3) by (auto simp: touches_def)
  then show "poller_inv interest {} l w' \<and>
     watched interest l w' c = (if m_channelStatus (chan w c) = kStatusAdded \<and> isNoneEvent (chan w c) then None
        else Some (m_events (chan w c))) \<and>
     (\<forall>c'. c' \<noteq> c \<and> m_chLoop (chan w c') = l \<longrightarrow> watched interest l w' c' = watched interest l w c')"
    using watched_iff [OF inv', of c] touches_watched_other [OF assms(2) inv' t] inv' st by simp
qed

theorem updateChannel_correct_witness:
  "succeeds (\<lambda>w'. watched k_interest 0 w' 4 = Some EPOLLIN \<and> watched k_interest 0 w' 2 = None)
     (EPollPoller_updateChannel sim_os 0 4 sample_sys)"
proof -
  have "watched k_interest 0 sample_sys 2 = None"
    by (simp add: watched_def sample_sys_def boot_def)
  then show ?thesis
    using updateChannel_correct [OF sim_epoll sample_sys_inv _ sample_sys_free, of 4 0]
    by (auto simp: sample_sys_chan Channel_ctor_def status_values elim!: succeeds_mono)
qed

text \<open>
  \<open>removeChannel\<close> succeeds, the kernel and the map forget the channel, its status is new again, and
  the other channels of the loop are watched as before.
\<close>

theorem removeChannel_correct:
  assumes "epoll_contract os interest" and "poller_inv interest {c} l w" and "m_chLoop (chan w c) = l"
  shows "succeeds (\<lambda>w'. poller_inv interest {} l w' \<and> watched interest l w' c = None \<and>
     \<not> hasChannel l c w' \<and> m_channelStatus (chan w' c) = kStatusNew \<and>
     (\<forall>c'. c' \<noteq> c \<and> m_chLoop (chan w c') = l \<longrightarrow> watched interest l w' c' = watched interest l w c'))
   (EPollPoller_removeChannel os l c w)"
proof (rule succeeds_mono [OF removeChannel_unregisters [OF assms]], elim conjE)
  fix w' assume inv': "poller_inv interest {} l w'" and t: "touches l c w w'"
    and st: "m_channelStatus (chan w' c) = kStatusNew" "\<not> hasChannel l c w'"
  have "m_chLoop (chan w' c) = l"
    using t assms(3) by (auto simp: touches_def)
  then show "poller_inv interest {} l w' \<and> watched interest l w' c = None \<and>
     \<not> hasChannel l c w' \<and> m_channelStatus (chan w' c) = kStatusNew \<and>
     (\<forall>c'. c' \<noteq> c \<and> m_chLoop (chan w c') = l \<longrightarrow> watched interest l w' c' = watched interest l w c')"
    using watched_iff [OF inv', of c] touches_watched_other [OF assms(2) inv' t] inv' st by simp
qed

theorem removeChannel_correct_witness:
  "succeeds (\<lambda>w'. watched k_interest 0 w' 2 = None \<and> \<not> hasChannel 0 2 w')
     (EPollPoller_removeChannel sim_os 0 2 sample_sys)"
  using removeChannel_correct [OF sim_epoll sample_sys_inv, of 2 0]
  by (auto simp: sample_sys_chan Channel_ctor_def elim!: succeeds_mono)

text \<open>
  C32: \<open>poll\<close> reports exactly the events \<open>epoll_wait\<close> delivered: their channels are appended to the
  active list in order, each channel's \<open>m_revents\<close> is the mask reported, no other channel changes,
  and the event array doubles exactly when it was filled, so no later batch is cut shorter.
\<close>

theorem poll_reports_events:
  assumes "epoll_wait_contract os"
    and "sys_epoll_wait os (m_epollfd (poller_of w l)) (length (m_eventList (poller_of w l))) t (kern w) = (Inr evs, k1)"
    and "distinct (map ev_ptr evs)" and "EPollPoller_poll os l t active w = (ts, active', w')"
  shows "active' = active @ map ev_ptr evs \<and>
     (\<forall>ev \<in> set evs. m_revents (chan w' (ev_ptr ev)) = ev_events ev) \<and>
     (\<forall>c. c \<notin> ev_ptr ` set evs \<longrightarrow> chan w' c = chan w c) \<and>
     length (m_eventList (poller_of w' l)) =
       (if evs \<noteq> [] \<and> length evs = length (m_eventList (poller_of w l))
        then 2 * length (m_eventList (poller_of w l)) else length (m_eventList (poller_of w l)))"
proof -
  obtain now k2 where time: "sys_time os k1 = (now, k2)"
    by fastforce
  have "length evs \<le> length (m_eventList (poller_of w l))"
    using assms(1,2) unfolding epoll_wait_contract_def by blast
  from poll_events [OF assms(2) time this assms(4)] show ?thesis
    using assms(3) by simp
qed

theorem poll_reports_events_witness:
  "\<exists>ts w'. EPollPoller_poll sim_os 0 10000 [] sample_sys = (ts, [2], w') \<and>
     m_revents (chan w' 2) = EPOLLIN \<and> chan w' 4 = chan sample_sys 4"
proof -
  obtain ts active' w' where p: "EPollPoller_poll sim_os 0 10000 [] sample_sys = (ts, active', w')"
    by (cases "EPollPoller_poll sim_os 0 10000 [] sample_sys") blast
  have "sys_epoll_wait sim_os (m_epollfd (poller_of sample_sys 0)) (length (m_eventList (poller_of sample_sys 0)))
      10000 (kern sample_sys) = (Inr [\<lparr>ev_events = EPOLLIN, ev_ptr = 2\<rparr>],
      (kern sample_sys)\<lparr>k_ready := []\<rparr>)"
    by (simp add: sample_sys_def kInitEventListSize_def)
  from poll_reports_events [OF sim_epoll_wait this _ p] show ?thesis
    using p by simp
qed

end
