(* ===== verification/EventLoop.thy ===== *)
theory EventLoop
  imports EPollPoller
begin

text \<open>
  \<open>EventLoop\<close> (EventLoop.h, EventLoop.cpp) and the operations of \<open>Channel\<close> that go through the
  owning loop (Channel.h, Channel.cpp). The world gains the loops, the thread that is running (the
  value of \<open>gettid\<close>) and the thread-local \<open>t_loopInThisThread\<close> of every thread.

  Closures are named by the place that creates them (\<open>closure\<close>). Running a closure, calling back a
  channel's \<open>std::function\<close> and promoting a \<open>weak_ptr\<close> are arguments (\<open>run\<close>, \<open>invoke\<close>, \<open>lock\<close>) of
  the operations that do so; the theories of the connection and of the server supply them.
\<close>

section \<open>State\<close>

datatype closure =
    SendInLoop_fn conn_ptr "byte list"
  | WriteComplete_fn conn_ptr
  | HighWaterMark_fn conn_ptr size_t
  | ShutdownInLoop_fn conn_ptr
  | ConnectEstablished_fn conn_ptr
  | ConnectDestroyed_fn conn_ptr
  | RemoveConnectionInLoop_fn conn_ptr
  | Listen_fn
  | User_fn nat

record eventloop =
  m_looping :: bool
  m_quit :: bool
  m_threadId :: int
  m_pollReturnTime :: timestamp
  m_wakeupFd :: int
  m_wakeupChannel :: chan_ptr
  m_activeChannels :: "chan_ptr list"
  m_callingPendingFunctors :: bool
  m_pendingFunctors :: "closure list"

record 'k lsys = "'k sys" +
  loop_of :: "loop_ptr \<Rightarrow> eventloop"
  cur_thread :: int
  t_loopInThisThread :: "int \<Rightarrow> loop_ptr option"

definition kPollTimeMs :: int where "kPollTimeMs = 10000"

definition upd_loop :: "loop_ptr \<Rightarrow> (eventloop \<Rightarrow> eventloop) \<Rightarrow> ('k, 'z) lsys_scheme \<Rightarrow> ('k, 'z) lsys_scheme" where
  "upd_loop l f w = w\<lparr>loop_of := (loop_of w)(l := f (loop_of w l))\<rparr>"

section \<open>The loop's channel operations and the channel operations that use them\<close>

definition EventLoop_updateChannel ::
    "'k os \<Rightarrow> loop_ptr \<Rightarrow> chan_ptr \<Rightarrow> ('k, 'z) sys_scheme \<Rightarrow> ('k, 'z) sys_scheme result" where
  "EventLoop_updateChannel os l inChannel w = EPollPoller_updateChannel os l inChannel w"

definition EventLoop_removeChannel ::
    "'k os \<Rightarrow> loop_ptr \<Rightarrow> chan_ptr \<Rightarrow> ('k, 'z) sys_scheme \<Rightarrow> ('k, 'z) sys_scheme result" where
  "EventLoop_removeChannel os l inChannel w = EPollPoller_removeChannel os l inChannel w"

definition EventLoop_hasChannel :: "loop_ptr \<Rightarrow> chan_ptr \<Rightarrow> ('k, 'z) sys_scheme \<Rightarrow> bool" where
  "EventLoop_hasChannel l inChannel w = hasChannel l inChannel w"

definition Channel_update :: "'k os \<Rightarrow> chan_ptr \<Rightarrow> ('k, 'z) sys_scheme \<Rightarrow> ('k, 'z) sys_scheme result" where
  "Channel_update os c w = EventLoop_updateChannel os (m_chLoop (chan w c)) c w"

definition Channel_remove :: "'k os \<Rightarrow> chan_ptr \<Rightarrow> ('k, 'z) sys_scheme \<Rightarrow> ('k, 'z) sys_scheme result" where
  "Channel_remove os c w = EventLoop_removeChannel os (m_chLoop (chan w c)) c w"

definition enableReading :: "'k os \<Rightarrow> chan_ptr \<Rightarrow> ('k, 'z) sys_scheme \<Rightarrow> ('k, 'z) sys_scheme result" where
  "enableReading os c w = Channel_update os c (upd_chan c with_reading w)"

definition disableReading :: "'k os \<Rightarrow> chan_ptr \<Rightarrow> ('k, 'z) sys_scheme \<Rightarrow> ('k, 'z) sys_scheme result" where
  "disableReading os c w = Channel_update os c (upd_chan c without_reading w)"

definition enableWriting :: "'k os \<Rightarrow> chan_ptr \<Rightarrow> ('k, 'z) sys_scheme \<Rightarrow> ('k, 'z) sys_scheme result" where
  "enableWriting os c w = Channel_update os c (upd_chan c with_writing w)"

definition disableWriting :: "'k os \<Rightarrow> chan_ptr \<Rightarrow> ('k, 'z) sys_scheme \<Rightarrow> ('k, 'z) sys_scheme result" where
  "disableWriting os c w = Channel_update os c (upd_chan c without_writing w)"

definition disableAll :: "'k os \<Rightarrow> chan_ptr \<Rightarrow> ('k, 'z) sys_scheme \<Rightarrow> ('k, 'z) sys_scheme result" where
  "disableAll os c w = Channel_update os c (upd_chan c without_all w)"

text \<open>
  \<open>handleEventWithGuard\<close>: each test reads \<open>m_revents\<close> and the callback again, as the C++ does,
  since an earlier callback may have changed the object.
\<close>

definition call_opt ::
    "(callback \<Rightarrow> timestamp \<Rightarrow> 'w \<Rightarrow> 'w result) \<Rightarrow> callback option \<Rightarrow> timestamp \<Rightarrow> 'w \<Rightarrow> 'w result" where
  "call_opt invoke cb t w = (case cb of None \<Rightarrow> Inr w | Some f \<Rightarrow> invoke f t w)"

definition handleEventWithGuard ::
    "(callback \<Rightarrow> timestamp \<Rightarrow> ('k, 'z) sys_scheme \<Rightarrow> ('k, 'z) sys_scheme result) \<Rightarrow>
       chan_ptr \<Rightarrow> timestamp \<Rightarrow> ('k, 'z) sys_scheme \<Rightarrow> ('k, 'z) sys_scheme result" where
  "handleEventWithGuard invoke c inReceiveTime w =
     (let revents = (\<lambda>w. m_revents (chan w c)) in
      andThen (if revents w AND EPOLLHUP \<noteq> 0 \<and> \<not> revents w AND EPOLLIN \<noteq> 0
               then call_opt invoke (m_closeCallback (chan w c)) inReceiveTime w else Inr w) (\<lambda>w.
      andThen (if revents w AND EPOLLERR \<noteq> 0
               then call_opt invoke (m_errorCallback (chan w c)) inReceiveTime w else Inr w) (\<lambda>w.
      andThen (if revents w AND (EPOLLIN OR EPOLLPRI) \<noteq> 0
               then call_opt invoke (m_readCallback (chan w c)) inReceiveTime w else Inr w) (\<lambda>w.
      if revents w AND EPOLLOUT \<noteq> 0
      then call_opt invoke (m_writeCallback (chan w c)) inReceiveTime w else Inr w))))"

text \<open>\<open>lock obj w\<close>: whether \<open>weak_ptr::lock\<close> yields an object, that is, whether it is alive.\<close>

definition Channel_handleEvent ::
    "(conn_ptr \<Rightarrow> ('k, 'z) sys_scheme \<Rightarrow> bool) \<Rightarrow>
     (callback \<Rightarrow> timestamp \<Rightarrow> ('k, 'z) sys_scheme \<Rightarrow> ('k, 'z) sys_scheme result) \<Rightarrow>
       chan_ptr \<Rightarrow> timestamp \<Rightarrow> ('k, 'z) sys_scheme \<Rightarrow> ('k, 'z) sys_scheme result" where
  "Channel_handleEvent lock invoke c inReceiveTime w =
     (if m_tied (chan w c) then
        (case m_tie (chan w c) of
           None \<Rightarrow> Inr w
         | Some obj \<Rightarrow> (if lock obj w then handleEventWithGuard invoke c inReceiveTime w else Inr w))
      else handleEventWithGuard invoke c inReceiveTime w)"

section \<open>The loop\<close>

definition isInLoopThread :: "loop_ptr \<Rightarrow> ('k, 'z) lsys_scheme \<Rightarrow> bool" where
  "isInLoopThread l w \<longleftrightarrow> m_threadId (loop_of w l) = cur_thread w"

text \<open>The eight bytes of \<open>uint64_t one = 1\<close> on a little-endian machine.\<close>

definition one_bytes :: "byte list" where "one_bytes = [1, 0, 0, 0, 0, 0, 0, 0]"

definition wakeup :: "'k os \<Rightarrow> loop_ptr \<Rightarrow> ('k, 'z) lsys_scheme \<Rightarrow> ('k, 'z) lsys_scheme" where
  "wakeup os l w = w\<lparr>kern := snd (sys_write os (m_wakeupFd (loop_of w l)) one_bytes (kern w))\<rparr>"

definition EventLoop_handleRead :: "'k os \<Rightarrow> loop_ptr \<Rightarrow> ('k, 'z) lsys_scheme \<Rightarrow> ('k, 'z) lsys_scheme" where
  "EventLoop_handleRead os l w = w\<lparr>kern := snd (sys_read os (m_wakeupFd (loop_of w l)) 8 (kern w))\<rparr>"

definition quit :: "'k os \<Rightarrow> loop_ptr \<Rightarrow> ('k, 'z) lsys_scheme \<Rightarrow> ('k, 'z) lsys_scheme" where
  "quit os l w =
     (let w1 = upd_loop l (\<lambda>e. e\<lparr>m_quit := True\<rparr>) w
      in if \<not> isInLoopThread l w1 then wakeup os l w1 else w1)"

definition queueInLoop ::
    "'k os \<Rightarrow> loop_ptr \<Rightarrow> closure \<Rightarrow> ('k, 'z) lsys_scheme \<Rightarrow> ('k, 'z) lsys_scheme" where
  "queueInLoop os l inCallback w =
     (let w1 = upd_loop l (\<lambda>e. e\<lparr>m_pendingFunctors := m_pendingFunctors e @ [inCallback]\<rparr>) w
      in if \<not> isInLoopThread l w1 \<or> m_callingPendingFunctors (loop_of w1 l) then wakeup os l w1 else w1)"

text \<open>\<open>body\<close> is what calling the closure \<open>inCallback\<close> does.\<close>

definition runInLoop ::
    "'k os \<Rightarrow> loop_ptr \<Rightarrow> closure \<Rightarrow> (('k, 'z) lsys_scheme \<Rightarrow> ('k, 'z) lsys_scheme result) \<Rightarrow>
       ('k, 'z) lsys_scheme \<Rightarrow> ('k, 'z) lsys_scheme result" where
  "runInLoop os l inCallback body w =
     (if isInLoopThread l w then body w else Inr (queueInLoop os l inCallback w))"

definition doPendingFunctors ::
    "(closure \<Rightarrow> ('k, 'z) lsys_scheme \<Rightarrow> ('k, 'z) lsys_scheme result) \<Rightarrow>
       loop_ptr \<Rightarrow> ('k, 'z) lsys_scheme \<Rightarrow> ('k, 'z) lsys_scheme result" where
  "doPendingFunctors run l w =
     (let w1 = upd_loop l (\<lambda>e. e\<lparr>m_callingPendingFunctors := True\<rparr>) w;
          functors = m_pendingFunctors (loop_of w1 l);
          w2 = upd_loop l (\<lambda>e. e\<lparr>m_pendingFunctors := []\<rparr>) w1
      in andThen (foldE run functors w2) (\<lambda>w3.
           Inr (upd_loop l (\<lambda>e. e\<lparr>m_callingPendingFunctors := False\<rparr>) w3)))"

text \<open>One pass of the \<open>while\<close> in \<open>loop()\<close>, and the \<open>while\<close> itself: \<open>None\<close> is not returning.\<close>

definition loop_pass ::
    "'k os \<Rightarrow> (conn_ptr \<Rightarrow> ('k, 'z) lsys_scheme \<Rightarrow> bool) \<Rightarrow>
     (callback \<Rightarrow> timestamp \<Rightarrow> ('k, 'z) lsys_scheme \<Rightarrow> ('k, 'z) lsys_scheme result) \<Rightarrow>
     (closure \<Rightarrow> ('k, 'z) lsys_scheme \<Rightarrow> ('k, 'z) lsys_scheme result) \<Rightarrow>
       loop_ptr \<Rightarrow> ('k, 'z) lsys_scheme \<Rightarrow> ('k, 'z) lsys_scheme result" where
  "loop_pass os lock invoke run l w =
     (let w1 = upd_loop l (\<lambda>e. e\<lparr>m_activeChannels := []\<rparr>) w;
          (now, active, w2) = EPollPoller_poll os l kPollTimeMs (m_activeChannels (loop_of w1 l)) w1;
          w3 = upd_loop l (\<lambda>e. e\<lparr>m_activeChannels := active, m_pollReturnTime := now\<rparr>) w2
      in andThen (foldE (\<lambda>c w. Channel_handleEvent lock invoke c (m_pollReturnTime (loop_of w l)) w) active w3)
           (doPendingFunctors run l))"

partial_function (option) loop_while ::
    "'k os \<Rightarrow> (conn_ptr \<Rightarrow> ('k, 'z) lsys_scheme \<Rightarrow> bool) \<Rightarrow>
     (callback \<Rightarrow> timestamp \<Rightarrow> ('k, 'z) lsys_scheme \<Rightarrow> ('k, 'z) lsys_scheme result) \<Rightarrow>
     (closure \<Rightarrow> ('k, 'z) lsys_scheme \<Rightarrow> ('k, 'z) lsys_scheme result) \<Rightarrow>
       loop_ptr \<Rightarrow> ('k, 'z) lsys_scheme \<Rightarrow> ('k, 'z) lsys_scheme result option" where
  "loop_while os lock invoke run l w =
     (if m_quit (loop_of w l) then Some (Inr w)
      else (case loop_pass os lock invoke run l w of
              Inl e \<Rightarrow> Some (Inl e)
            | Inr w1 \<Rightarrow> loop_while os lock invoke run l w1))"

definition EventLoop_loop ::
    "'k os \<Rightarrow> (conn_ptr \<Rightarrow> ('k, 'z) lsys_scheme \<Rightarrow> bool) \<Rightarrow>
     (callback \<Rightarrow> timestamp \<Rightarrow> ('k, 'z) lsys_scheme \<Rightarrow> ('k, 'z) lsys_scheme result) \<Rightarrow>
     (closure \<Rightarrow> ('k, 'z) lsys_scheme \<Rightarrow> ('k, 'z) lsys_scheme result) \<Rightarrow>
       loop_ptr \<Rightarrow> ('k, 'z) lsys_scheme \<Rightarrow> ('k, 'z) lsys_scheme result option" where
  "EventLoop_loop os lock invoke run l w =
     (case loop_while os lock invoke run l
             (upd_loop l (\<lambda>e. e\<lparr>m_looping := True, m_quit := False\<rparr>) w) of
        None \<Rightarrow> None
      | Some r \<Rightarrow> Some (andThen r (\<lambda>w1. Inr (upd_loop l (\<lambda>e. e\<lparr>m_looping := False\<rparr>) w1))))"

section \<open>Construction and destruction\<close>

definition createEventfd :: "'k os \<Rightarrow> 'k \<Rightarrow> (int \<times> 'k) result" where
  "createEventfd os k = (case sys_eventfd os k of (Inl e, k') \<Rightarrow> Inl Exit | (Inr fd, k') \<Rightarrow> Inr (fd, k'))"

text \<open>
  The constructor, for a loop at address \<open>l\<close> whose wakeup channel is at address \<open>c\<close>. With the null
  poller of \<open>newDefaultPoller\<close> the \<open>enableReading\<close> at the end goes through a null pointer.
\<close>

definition EventLoop_ctor ::
    "'k os \<Rightarrow> loop_ptr \<Rightarrow> chan_ptr \<Rightarrow> ('k, 'z) lsys_scheme \<Rightarrow> ('k, 'z) lsys_scheme result" where
  "EventLoop_ctor os l c w =
     andThen (newDefaultPoller os (kern w)) (\<lambda>(p, k1).
     andThen (createEventfd os k1) (\<lambda>(wfd, k2).
       let w1 = upd_loop l (\<lambda>_. \<lparr>m_looping = False, m_quit = False, m_threadId = cur_thread w,
                  m_pollReturnTime = 0, m_wakeupFd = wfd, m_wakeupChannel = c, m_activeChannels = [],
                  m_callingPendingFunctors = False, m_pendingFunctors = []\<rparr>) (w\<lparr>kern := k2\<rparr>);
           w2 = upd_chan c (\<lambda>_. Channel_ctor l wfd) w1
       in if t_loopInThisThread w2 (cur_thread w2) \<noteq> None then Inl Exit
          else let w3 = w2\<lparr>t_loopInThisThread := (t_loopInThisThread w2)(cur_thread w2 := Some l)\<rparr>;
                   w4 = upd_chan c (setReadCallback (EventLoop_handleRead_cb l)) w3
               in (case p of
                     None \<Rightarrow> Inl Undefined
                   | Some p \<Rightarrow> enableReading os c (upd_poller l (\<lambda>_. p) w4))))"

definition EventLoop_dtor :: "'k os \<Rightarrow> loop_ptr \<Rightarrow> ('k, 'z) lsys_scheme \<Rightarrow> ('k, 'z) lsys_scheme result" where
  "EventLoop_dtor os l w =
     (let c = m_wakeupChannel (loop_of w l) in
      andThen (disableAll os c w) (\<lambda>w1.
      andThen (Channel_remove os c w1) (\<lambda>w2.
        let w3 = w2\<lparr>kern := sys_close os (m_wakeupFd (loop_of w2 l)) (kern w2)\<rparr>;
            w4 = w3\<lparr>t_loopInThisThread := (t_loopInThisThread w3)(cur_thread w3 := None)\<rparr>
        in Inr (EPollPoller_dtor os l w4))))"

section \<open>The contract of channel registration\<close>

text \<open>
  What \<open>EventLoop\<close>, \<open>Acceptor\<close> and \<open>TcpConnection\<close> rely on when they switch events on and off: after
  a change of the mask the kernel watches the channel for exactly the new mask, and after the
  removal for nothing. The one exception is the code's: a mask of no events is withdrawn from the
  kernel when the channel was watched, and registered (with no events) when it was not.
\<close>

locale channel_registry =
  fixes ready :: "'c \<Rightarrow> 'w \<Rightarrow> bool"
    and mask :: "'c \<Rightarrow> 'w \<Rightarrow> evmask"
    and watching :: "'c \<Rightarrow> 'w \<Rightarrow> evmask option"
    and change :: "(evmask \<Rightarrow> evmask) \<Rightarrow> 'c \<Rightarrow> 'w \<Rightarrow> 'w result"
    and drop_out :: "'c \<Rightarrow> 'w \<Rightarrow> 'w result"
  assumes change: "ready c w \<Longrightarrow> succeeds (\<lambda>w'. ready c w' \<and> mask c w' = g (mask c w) \<and>
      watching c w' = (if watching c w \<noteq> None \<and> g (mask c w) = 0 then None else Some (g (mask c w))))
      (change g c w)"
    and drop_out: "ready c w \<Longrightarrow> succeeds (\<lambda>w'. ready c w' \<and> mask c w' = mask c w \<and>
      watching c w' = None) (drop_out c w)"
begin

definition settled :: "'c \<Rightarrow> 'w \<Rightarrow> bool" where
  "settled c w \<longleftrightarrow> ready c w \<and>
     (watching c w = Some (mask c w) \<or> mask c w = 0 \<and> watching c w = None)"

lemma change_settles:
  "settled c w \<Longrightarrow> succeeds (\<lambda>w'. settled c w' \<and> mask c w' = g (mask c w)) (change g c w)"
  unfolding settled_def by (elim conjE, rule succeeds_mono [OF change [of c w g]]) auto

text \<open>No change is lost, whatever came before: any sequence of changes leaves the kernel watching
  the channel for the resulting mask (or for nothing, when the mask is empty).\<close>

lemma changes_settle:
  "settled c w \<Longrightarrow> succeeds (\<lambda>w'. settled c w' \<and> mask c w' = fold (\<lambda>g m. g m) gs (mask c w))
     (foldE (\<lambda>g. change g c) gs w)"
proof (induction gs arbitrary: w)
  case Nil
  then show ?case by simp
next
  case (Cons g gs)
  have "succeeds (\<lambda>w'. settled c w' \<and> mask c w' = fold (\<lambda>g m. g m) gs (g (mask c w)))
      (andThen (change g c w) (foldE (\<lambda>g. change g c) gs))"
    using change_settles [OF Cons.prems, of g]
    by (rule succeeds_andThen) (use Cons.IH in fastforce)
  then show ?case by simp
qed

text \<open>The destruction sequence of the owners, \<open>disableAll\<close> and then \<open>remove\<close>.\<close>

lemma disable_and_drop:
  assumes "ready c w"
  shows "succeeds (\<lambda>w'. ready c w' \<and> watching c w' = None) (andThen (change (\<lambda>_. 0) c w) (drop_out c))"
  using change [OF assms, of "\<lambda>_. 0"]
  by (rule succeeds_andThen) (auto intro: succeeds_mono [OF drop_out])

end

definition change_mask ::
    "'k os \<Rightarrow> (evmask \<Rightarrow> evmask) \<Rightarrow> chan_ptr \<Rightarrow> ('k, 'z) sys_scheme \<Rightarrow> ('k, 'z) sys_scheme result" where
  "change_mask os g c w = Channel_update os c (upd_chan c (\<lambda>ch. ch\<lparr>m_events := g (m_events ch)\<rparr>) w)"

lemma channel_ops_change_mask:
  "enableReading os = change_mask os (\<lambda>m. m OR kReadEvent)"
  "disableReading os = change_mask os (\<lambda>m. m AND NOT kReadEvent)"
  "enableWriting os = change_mask os (\<lambda>m. m OR kWriteEvent)"
  "disableWriting os = change_mask os (\<lambda>m. m AND NOT kWriteEvent)"
  "disableAll os = change_mask os (\<lambda>m. 0)"
  by (simp_all add: fun_eq_iff change_mask_def enableReading_def disableReading_def enableWriting_def
      disableWriting_def disableAll_def upd_chan_def mask_ops kNoneEvent_def)

text \<open>A channel may be registered when the invariant of its poller holds and no other channel of the
  loop holds its descriptor.\<close>

definition registry_ok ::
    "'k os \<Rightarrow> ('k \<Rightarrow> int \<Rightarrow> int \<Rightarrow> epoll_event option) \<Rightarrow> chan_ptr \<Rightarrow> ('k, 'z) sys_scheme \<Rightarrow> bool" where
  "registry_ok os interest c w \<longleftrightarrow>
     epoll_contract os interest \<and> poller_inv interest {} (m_chLoop (chan w c)) w \<and>
     fd_free (m_chLoop (chan w c)) c w"

definition channel_watched ::
    "('k \<Rightarrow> int \<Rightarrow> int \<Rightarrow> epoll_event option) \<Rightarrow> chan_ptr \<Rightarrow> ('k, 'z) sys_scheme \<Rightarrow> evmask option" where
  "channel_watched interest c w = watched interest (m_chLoop (chan w c)) w c"

lemma touches_chan: "touches l c w w' \<Longrightarrow> \<exists>s. chan w' = (chan w)(c := setChannelStatus s (chan w c))"
  by (auto simp: touches_def)

lemma touches_fields:
  assumes "touches l c w w'"
  shows "m_chLoop (chan w' x) = m_chLoop (chan w x)" "m_fd (chan w' x) = m_fd (chan w x)"
    "m_events (chan w' x) = m_events (chan w x)" "m_revents (chan w' x) = m_revents (chan w x)"
    "x \<noteq> c \<Longrightarrow> chan w' x = chan w x"
  using touches_chan [OF assms] by auto

lemma touches_fd_free:
  assumes "touches l c w w'"
  shows "fd_free l c w' \<longleftrightarrow> fd_free l c w"
  unfolding fd_free_def using touches_fields [OF assms] by metis

lemma change_mask_registers:
  assumes ok: "registry_ok os interest c w"
  shows "succeeds (\<lambda>w'. registry_ok os interest c w' \<and> m_events (chan w' c) = g (m_events (chan w c)) \<and>
           channel_watched interest c w' =
             (if channel_watched interest c w \<noteq> None \<and> g (m_events (chan w c)) = 0 then None
              else Some (g (m_events (chan w c))))) (change_mask os g c w)"
proof -
  let ?f = "\<lambda>ch. ch\<lparr>m_events := g (m_events ch)\<rparr>" and ?l = "m_chLoop (chan w c)"
  let ?w1 = "upd_chan c ?f w"
  have inv: "poller_inv interest {} ?l w" and free: "fd_free ?l c w" and ct: "epoll_contract os interest"
    using ok by (auto simp: registry_ok_def)
  have l1: "m_chLoop (chan ?w1 c) = ?l" and inv1: "poller_inv interest {c} ?l ?w1"
    and free1: "fd_free ?l c ?w1"
    using poller_inv_mask [OF inv, of ?f c] free by (auto simp: fd_free_def)
  obtain w' where w': "EPollPoller_updateChannel os ?l c ?w1 = Inr w'"
    and inv': "poller_inv interest {} ?l w'" and t: "touches ?l c ?w1 w'"
    and st: "m_channelStatus (chan w' c) =
             (if m_channelStatus (chan ?w1 c) = kStatusAdded \<and> isNoneEvent (chan ?w1 c)
              then kStatusDeleted else kStatusAdded)"
    using updateChannel_registers [OF ct inv1 l1 free1] by (auto simp: succeeds_def)
  have ch: "m_chLoop (chan w' c) = ?l" "m_events (chan w' c) = g (m_events (chan w c))"
    using touches_fields [OF t, of c] by simp_all
  have "change_mask os g c w = Inr w'"
    using w' by (simp add: change_mask_def Channel_update_def EventLoop_updateChannel_def)
  moreover have "registry_ok os interest c w'"
    using ct inv' touches_fd_free [OF t] free1 ch by (simp add: registry_ok_def)
  moreover have "channel_watched interest c w' =
      (if channel_watched interest c w \<noteq> None \<and> g (m_events (chan w c)) = 0 then None
       else Some (g (m_events (chan w c))))"
    using watched_iff [OF inv' ch(1)] watched_iff [OF inv refl] st ch
    by (auto simp: channel_watched_def isNoneEvent_def kNoneEvent_def)
  ultimately show ?thesis
    using ch by simp
qed

lemma Channel_remove_unregisters:
  assumes ok: "registry_ok os interest c w"
  shows "succeeds (\<lambda>w'. registry_ok os interest c w' \<and> m_events (chan w' c) = m_events (chan w c) \<and>
           m_chLoop (chan w' c) = m_chLoop (chan w c) \<and>
           channel_watched interest c w' = None \<and> \<not> hasChannel (m_chLoop (chan w c)) c w')
         (Channel_remove os c w)"
proof -
  let ?l = "m_chLoop (chan w c)"
  have inv: "poller_inv interest {c} ?l w" and free: "fd_free ?l c w" and ct: "epoll_contract os interest"
    using ok by (auto simp: registry_ok_def poller_inv_weaken)
  obtain w' where w': "EPollPoller_removeChannel os ?l c w = Inr w'"
    and inv': "poller_inv interest {} ?l w'" and t: "touches ?l c w w'"
    and st: "m_channelStatus (chan w' c) = kStatusNew" "\<not> hasChannel ?l c w'"
    using removeChannel_unregisters [OF ct inv refl] by (auto simp: succeeds_def)
  have ch: "m_chLoop (chan w' c) = ?l" "m_events (chan w' c) = m_events (chan w c)"
    using touches_fields [OF t, of c] by simp_all
  have "registry_ok os interest c w'"
    using ct inv' touches_fd_free [OF t] free ch by (simp add: registry_ok_def)
  then show ?thesis
    using w' st ch watched_iff [OF inv' ch(1)]
    by (simp add: Channel_remove_def EventLoop_removeChannel_def channel_watched_def)
qed

interpretation registry: channel_registry "registry_ok os interest" "\<lambda>c w. m_events (chan w c)"
    "channel_watched interest" "change_mask os" "Channel_remove os" for os interest
proof unfold_locales
  show "succeeds (\<lambda>w'. registry_ok os interest c w' \<and> m_events (chan w' c) = m_events (chan w c) \<and>
      channel_watched interest c w' = None) (Channel_remove os c w)"
    if "registry_ok os interest c w" for c and w :: "('a, 'b) sys_scheme"
    using Channel_remove_unregisters [OF that] by (rule succeeds_mono) blast
qed (rule change_mask_registers)

section \<open>Dispatching the events of a channel\<close>

text \<open>The callbacks a channel owes for the events reported, in the order of the code.\<close>

definition opt_list :: "bool \<Rightarrow> 'a option \<Rightarrow> 'a list" where
  "opt_list b x = (if b then (case x of None \<Rightarrow> [] | Some y \<Rightarrow> [y]) else [])"

definition due_callbacks :: "channel \<Rightarrow> callback list" where
  "due_callbacks ch =
     opt_list (bit (m_revents ch) 4 \<and> \<not> bit (m_revents ch) 0) (m_closeCallback ch) @
     opt_list (bit (m_revents ch) 3) (m_errorCallback ch) @
     opt_list (bit (m_revents ch) 0 \<or> bit (m_revents ch) 1) (m_readCallback ch) @
     opt_list (bit (m_revents ch) 2) (m_writeCallback ch)"

lemma and_exp_bit: "n < 32 \<Longrightarrow> (r :: evmask) AND 2 ^ n \<noteq> 0 \<longleftrightarrow> bit r n"
  by (metis and_exp_eq_0_iff_not_bit)

lemma revents_tests:
  fixes r :: evmask
  shows "r AND EPOLLIN \<noteq> 0 \<longleftrightarrow> bit r 0" "r AND EPOLLOUT \<noteq> 0 \<longleftrightarrow> bit r 2"
    "r AND EPOLLERR \<noteq> 0 \<longleftrightarrow> bit r 3" "r AND EPOLLHUP \<noteq> 0 \<longleftrightarrow> bit r 4"
    "r AND (EPOLLIN OR EPOLLPRI) \<noteq> 0 \<longleftrightarrow> bit r 0 \<or> bit r 1"
proof -
  have pow: "EPOLLIN = 2 ^ 0" "EPOLLPRI = 2 ^ 1" "EPOLLOUT = 2 ^ 2" "EPOLLERR = 2 ^ 3" "EPOLLHUP = 2 ^ 4"
    by (simp_all add: epoll_bits)
  have b: "r AND 2 ^ 0 \<noteq> 0 \<longleftrightarrow> bit r 0" "r AND 2 ^ 1 \<noteq> 0 \<longleftrightarrow> bit r 1" "r AND 2 ^ 2 \<noteq> 0 \<longleftrightarrow> bit r 2"
    "r AND 2 ^ 3 \<noteq> 0 \<longleftrightarrow> bit r 3" "r AND 2 ^ 4 \<noteq> 0 \<longleftrightarrow> bit r 4"
    by (rule and_exp_bit; simp)+
  show "r AND EPOLLIN \<noteq> 0 \<longleftrightarrow> bit r 0" "r AND EPOLLOUT \<noteq> 0 \<longleftrightarrow> bit r 2"
    "r AND EPOLLERR \<noteq> 0 \<longleftrightarrow> bit r 3" "r AND EPOLLHUP \<noteq> 0 \<longleftrightarrow> bit r 4"
    unfolding pow by (rule b)+
  show "r AND (EPOLLIN OR EPOLLPRI) \<noteq> 0 \<longleftrightarrow> bit r 0 \<or> bit r 1"
    unfolding pow bit.conj_disj_distrib or_eq_0_iff using b by blast
qed

text \<open>The fields of a channel the dispatch reads.\<close>

definition dispatch_fields :: "channel \<Rightarrow> evmask \<times> callback option list" where
  "dispatch_fields ch =
     (m_revents ch, [m_closeCallback ch, m_errorCallback ch, m_readCallback ch, m_writeCallback ch])"

definition keeps_dispatch ::
    "(callback \<Rightarrow> timestamp \<Rightarrow> ('k, 'z) sys_scheme \<Rightarrow> ('k, 'z) sys_scheme result) \<Rightarrow> chan_ptr \<Rightarrow> bool" where
  "keeps_dispatch invoke c \<longleftrightarrow>
     (\<forall>cb t w w'. invoke cb t w = Inr w' \<longrightarrow> dispatch_fields (chan w' c) = dispatch_fields (chan w c))"

lemma call_opt_foldE:
  "call_opt invoke cb t w = foldE (\<lambda>cb. invoke cb t) (opt_list True cb) w"
  by (cases cb) (simp_all add: call_opt_def opt_list_def andThen_def split: sum.splits)

lemma if_call_opt:
  "(if b then call_opt invoke cb t w else Inr w) = foldE (\<lambda>cb. invoke cb t) (opt_list b cb) w"
  by (simp add: call_opt_foldE opt_list_def)

lemma foldE_keeps_dispatch:
  assumes "keeps_dispatch invoke c" and "foldE (\<lambda>cb. invoke cb t) cbs w = Inr w'"
  shows "dispatch_fields (chan w' c) = dispatch_fields (chan w c)"
  using assms(2)
proof (induction cbs arbitrary: w)
  case (Cons cb cbs)
  then show ?case
    using assms(1) unfolding keeps_dispatch_def by (fastforce simp: andThen_eq_Inr)
qed simp

lemma handleEventWithGuard_eq:
  assumes keep: "keeps_dispatch invoke c"
  shows "handleEventWithGuard invoke c t w = foldE (\<lambda>cb. invoke cb t) (due_callbacks (chan w c)) w"
proof -
  have same: "m_revents (chan w' c) = m_revents (chan w c)"
      "m_errorCallback (chan w' c) = m_errorCallback (chan w c)"
      "m_readCallback (chan w' c) = m_readCallback (chan w c)"
      "m_writeCallback (chan w' c) = m_writeCallback (chan w c)"
    if "foldE (\<lambda>cb. invoke cb t) cbs w = Inr w'" for cbs w w'
    using foldE_keeps_dispatch [OF keep that] by (simp_all add: dispatch_fields_def)
  show ?thesis
    unfolding handleEventWithGuard_def Let_def if_call_opt revents_tests
    by (auto simp: due_callbacks_def foldE_append same intro!: andThen_cong
        simp del: foldE.simps)
qed

section \<open>Returning from the loop\<close>

fun passes ::
    "'k os \<Rightarrow> (conn_ptr \<Rightarrow> ('k, 'z) lsys_scheme \<Rightarrow> bool) \<Rightarrow>
     (callback \<Rightarrow> timestamp \<Rightarrow> ('k, 'z) lsys_scheme \<Rightarrow> ('k, 'z) lsys_scheme result) \<Rightarrow>
     (closure \<Rightarrow> ('k, 'z) lsys_scheme \<Rightarrow> ('k, 'z) lsys_scheme result) \<Rightarrow>
       loop_ptr \<Rightarrow> nat \<Rightarrow> ('k, 'z) lsys_scheme \<Rightarrow> ('k, 'z) lsys_scheme result" where
  "passes os lock invoke run l 0 w = Inr w"
| "passes os lock invoke run l (Suc n) w =
     andThen (loop_pass os lock invoke run l w) (passes os lock invoke run l n)"

lemma loop_while_complete:
  assumes "passes os lock invoke run l n w = Inr w'" and "m_quit (loop_of w' l)"
    and "\<And>m. m < n \<Longrightarrow> \<exists>v. passes os lock invoke run l m w = Inr v \<and> \<not> m_quit (loop_of v l)"
  shows "loop_while os lock invoke run l w = Some (Inr w')"
  using assms
proof (induction n arbitrary: w)
  case 0
  then show ?case by (simp add: loop_while.simps)
next
  case (Suc n)
  then obtain w1 where w1: "loop_pass os lock invoke run l w = Inr w1"
    and n: "passes os lock invoke run l n w1 = Inr w'"
    by (auto simp: andThen_eq_Inr)
  have "\<exists>v. passes os lock invoke run l m w1 = Inr v \<and> \<not> m_quit (loop_of v l)" if "m < n" for m
    using Suc.prems(3) [of "Suc m"] that w1 by simp
  then have "loop_while os lock invoke run l w1 = Some (Inr w')"
    using Suc.IH n Suc.prems(2) by blast
  moreover have "\<not> m_quit (loop_of w l)"
    using Suc.prems(3) [of 0] by simp
  ultimately show ?case
    using w1 by (simp add: loop_while.simps [of os lock invoke run l w])
qed

lemma loop_while_sound:
  assumes "loop_while os lock invoke run l w = Some (Inr w')"
  shows "\<exists>n. passes os lock invoke run l n w = Inr w' \<and> m_quit (loop_of w' l) \<and>
     (\<forall>m<n. \<exists>v. passes os lock invoke run l m w = Inr v \<and> \<not> m_quit (loop_of v l))"
proof -
  let ?P = "\<lambda>os lock invoke run l w (r :: ('a, 'b) lsys_scheme result). \<forall>w'. r = Inr w' \<longrightarrow>
     (\<exists>n. passes os lock invoke run l n w = Inr w' \<and> m_quit (loop_of w' l) \<and>
       (\<forall>m<n. \<exists>v. passes os lock invoke run l m w = Inr v \<and> \<not> m_quit (loop_of v l)))"
  have "?P os lock invoke run l w (Inr w')"
    using assms
  proof (rule loop_while.raw_induct [where P = ?P, rotated])
    fix f :: "'a os \<Rightarrow> (nat \<Rightarrow> ('a, 'b) lsys_scheme \<Rightarrow> bool) \<Rightarrow>
        (callback \<Rightarrow> timestamp \<Rightarrow> ('a, 'b) lsys_scheme \<Rightarrow> ('a, 'b) lsys_scheme result) \<Rightarrow>
        (closure \<Rightarrow> ('a, 'b) lsys_scheme \<Rightarrow> ('a, 'b) lsys_scheme result) \<Rightarrow>
        nat \<Rightarrow> ('a, 'b) lsys_scheme \<Rightarrow> ('a, 'b) lsys_scheme result option"
      and os lock invoke run l w r
    assume IH: "\<And>os lock invoke run l w r. f os lock invoke run l w = Some r \<Longrightarrow> ?P os lock invoke run l w r"
      and eq: "(if m_quit (loop_of w l) then Some (Inr w)
         else (case loop_pass os lock invoke run l w of Inl e \<Rightarrow> Some (Inl e)
               | Inr w1 \<Rightarrow> f os lock invoke run l w1)) = Some r"
    show "?P os lock invoke run l w r"
    proof (intro allI impI)
    fix w' assume r: "r = Inr w'"
    show "\<exists>n. passes os lock invoke run l n w = Inr w' \<and> m_quit (loop_of w' l) \<and>
       (\<forall>m<n. \<exists>v. passes os lock invoke run l m w = Inr v \<and> \<not> m_quit (loop_of v l))"
    proof (cases "m_quit (loop_of w l)")
      case True
      then show ?thesis using eq r by (intro exI [of _ 0]) simp
    next
      case False
      then obtain w1 where w1: "loop_pass os lock invoke run l w = Inr w1"
        and f: "f os lock invoke run l w1 = Some (Inr w')"
        using eq r by (auto split: sum.splits)
      then obtain n where n: "passes os lock invoke run l n w1 = Inr w'" "m_quit (loop_of w' l)"
        "\<forall>m<n. \<exists>v. passes os lock invoke run l m w1 = Inr v \<and> \<not> m_quit (loop_of v l)"
        using IH by blast
      have "\<exists>v. passes os lock invoke run l m w = Inr v \<and> \<not> m_quit (loop_of v l)" if "m < Suc n" for m
        using that n(3) False w1 by (cases m) simp_all
      then show ?thesis
        using n w1 by (intro exI [of _ "Suc n"]) simp
    qed
    qed
  qed
  then show ?thesis by simp
qed

section \<open>Sequences of channel operations\<close>

datatype mask_op = Enable_reading | Disable_reading | Enable_writing | Disable_writing | Disable_all

fun run_mask_op :: "'k os \<Rightarrow> chan_ptr \<Rightarrow> mask_op \<Rightarrow> ('k, 'z) sys_scheme \<Rightarrow> ('k, 'z) sys_scheme result" where
  "run_mask_op os c Enable_reading = enableReading os c"
| "run_mask_op os c Disable_reading = disableReading os c"
| "run_mask_op os c Enable_writing = enableWriting os c"
| "run_mask_op os c Disable_writing = disableWriting os c"
| "run_mask_op os c Disable_all = disableAll os c"

fun mask_after :: "mask_op \<Rightarrow> evmask \<Rightarrow> evmask" where
  "mask_after Enable_reading m = m OR kReadEvent"
| "mask_after Disable_reading m = m AND NOT kReadEvent"
| "mask_after Enable_writing m = m OR kWriteEvent"
| "mask_after Disable_writing m = m AND NOT kWriteEvent"
| "mask_after Disable_all m = 0"

lemma run_mask_op_change: "run_mask_op os c op = change_mask os (mask_after op) c"
proof -
  have "mask_after Enable_reading = (\<lambda>m. m OR kReadEvent)" "mask_after Disable_reading = (\<lambda>m. m AND NOT kReadEvent)"
    "mask_after Enable_writing = (\<lambda>m. m OR kWriteEvent)" "mask_after Disable_writing = (\<lambda>m. m AND NOT kWriteEvent)"
    "mask_after Disable_all = (\<lambda>m. 0)"
    by (simp_all add: fun_eq_iff)
  then show ?thesis
    by (cases op) (simp_all add: channel_ops_change_mask)
qed

lemma run_mask_ops_change:
  "foldE (run_mask_op os c) ops w = foldE (\<lambda>g. change_mask os g c) (map mask_after ops) w"
  by (induction ops arbitrary: w) (simp_all add: run_mask_op_change andThen_def split: sum.split)

lemma masks_after: "fold (\<lambda>g. g) (map mask_after ops) m = fold mask_after ops m"
  by (induction ops arbitrary: m) simp_all

text \<open>The kernel watches the channel for its mask, or for nothing when the mask is empty.\<close>

definition in_line ::
    "'k os \<Rightarrow> ('k \<Rightarrow> int \<Rightarrow> int \<Rightarrow> epoll_event option) \<Rightarrow> chan_ptr \<Rightarrow> ('k, 'z) sys_scheme \<Rightarrow> bool" where
  "in_line os interest c w \<longleftrightarrow> registry_ok os interest c w \<and>
     (channel_watched interest c w = Some (m_events (chan w c)) \<or>
      m_events (chan w c) = 0 \<and> channel_watched interest c w = None)"

lemma in_line_settled: "in_line os interest = registry.settled os interest"
  by (simp add: fun_eq_iff in_line_def registry.settled_def)

lemma touches_loops:
  fixes w w' :: "('k, 'z) lsys_scheme"
  assumes "touches l c w w'"
  shows "loop_of w' = loop_of w" "cur_thread w' = cur_thread w" "t_loopInThisThread w' = t_loopInThisThread w"
  using assms by (auto simp: touches_def sys_touch_def)

lemma change_mask_touches:
  assumes "change_mask os g c w = Inr w'"
  shows "touches (m_chLoop (chan w c)) c (upd_chan c (\<lambda>ch. ch\<lparr>m_events := g (m_events ch)\<rparr>) w) w'"
  using assms by (auto simp: change_mask_def Channel_update_def EventLoop_updateChannel_def
      intro: updateChannel_touches)

lemma change_mask_loops:
  fixes w w' :: "('k, 'z) lsys_scheme"
  assumes "change_mask os g c w = Inr w'"
  shows "loop_of w' = loop_of w" "cur_thread w' = cur_thread w" "t_loopInThisThread w' = t_loopInThisThread w"
  using touches_loops [OF change_mask_touches [OF assms]] by (simp_all add: upd_chan_def)

lemma Channel_remove_loops:
  fixes w w' :: "('k, 'z) lsys_scheme"
  assumes "Channel_remove os c w = Inr w'"
  shows "loop_of w' = loop_of w" "cur_thread w' = cur_thread w" "t_loopInThisThread w' = t_loopInThisThread w"
proof -
  have "touches (m_chLoop (chan w c)) c w w'"
    using assms by (auto simp: Channel_remove_def EventLoop_removeChannel_def intro: removeChannel_touches)
  from touches_loops [OF this] show "loop_of w' = loop_of w" "cur_thread w' = cur_thread w"
      "t_loopInThisThread w' = t_loopInThisThread w"
    by simp_all
qed

text \<open>What switching off and on again does to the status and to the map of channels.\<close>

lemma disableAll_deletes:
  assumes ok: "registry_ok os interest c w" and wd: "channel_watched interest c w \<noteq> None"
    and w1: "disableAll os c w = Inr w1"
  shows "registry_ok os interest c w1" "m_events (chan w1 c) = 0" "m_channelStatus (chan w1 c) = kStatusDeleted"
    "m_channels (poller_of w1 (m_chLoop (chan w1 c))) (m_fd (chan w1 c)) = None"
proof -
  let ?l = "m_chLoop (chan w c)" and ?w0 = "upd_chan c (\<lambda>ch. ch\<lparr>m_events := 0\<rparr>) w"
  have u: "EPollPoller_updateChannel os ?l c ?w0 = Inr w1" and t: "touches ?l c ?w0 w1"
    using w1 change_mask_touches [of os "\<lambda>_. 0" c w w1]
    by (simp_all add: channel_ops_change_mask change_mask_def Channel_update_def EventLoop_updateChannel_def)
  have inv: "poller_inv interest {} ?l w" and free: "fd_free ?l c w" and ct: "epoll_contract os interest"
    using ok by (auto simp: registry_ok_def)
  have st: "m_channelStatus (chan w c) = kStatusAdded"
    using wd watched_iff [OF inv refl] by (auto simp: channel_watched_def split: if_splits)
  have "poller_inv interest {c} ?l ?w0" "fd_free ?l c ?w0"
    using poller_inv_mask [OF inv, of "\<lambda>ch. ch\<lparr>m_events := 0\<rparr>" c] free by (auto simp: fd_free_def)
  then show "m_channelStatus (chan w1 c) = kStatusDeleted"
    using updateChannel_registers [OF ct, of c ?l ?w0] u st
    by (simp add: isNoneEvent_def kNoneEvent_def)
  have ch: "m_chLoop (chan w1 c) = ?l" "m_fd (chan w1 c) = m_fd (chan w c)"
    using touches_fields [OF t, of c] by simp_all
  show "m_channels (poller_of w1 (m_chLoop (chan w1 c))) (m_fd (chan w1 c)) = None"
    using updateChannel_map [OF u] st ch by (simp add: isNoneEvent_def kNoneEvent_def)
  show "registry_ok os interest c w1" "m_events (chan w1 c) = 0"
    using change_mask_registers [OF ok, of "\<lambda>_. 0"] w1 by (simp_all add: channel_ops_change_mask)
qed

lemma change_mask_deleted_map:
  assumes "change_mask os g c w = Inr w'" and "m_channelStatus (chan w c) = kStatusDeleted"
  shows "m_channels (poller_of w' (m_chLoop (chan w' c))) (m_fd (chan w' c)) =
     m_channels (poller_of w (m_chLoop (chan w c))) (m_fd (chan w c))"
  using assms updateChannel_map [of os "m_chLoop (chan w c)" c "upd_chan c (\<lambda>ch. ch\<lparr>m_events := g (m_events ch)\<rparr>) w" w']
    touches_fields [OF change_mask_touches [OF assms(1)], of c]
  by (simp add: change_mask_def Channel_update_def EventLoop_updateChannel_def)

section \<open>A loop about to be constructed\<close>

definition boot_world :: "simk lsys" where
  "boot_world = \<lparr>kern = boot, chan = (\<lambda>_. Channel_ctor 9 0),
     poller_of = (\<lambda>_. \<lparr>m_channels = (\<lambda>_. None), m_epollfd = 0, m_eventList = []\<rparr>),
     loop_of = (\<lambda>_. \<lparr>m_looping = False, m_quit = False, m_threadId = 7, m_pollReturnTime = 0, m_wakeupFd = 0,
       m_wakeupChannel = 0, m_activeChannels = [], m_callingPendingFunctors = False, m_pendingFunctors = []\<rparr>),
     cur_thread = 7, t_loopInThisThread = (\<lambda>_. None)\<rparr>"

text \<open>The world of EPollPoller's example with a loop around it.\<close>

definition sample_world :: "simk lsys" where
  "sample_world = boot_world\<lparr>chan := chan sample_sys, poller_of := poller_of sample_sys\<rparr>"

lemma sample_world_registry: "registry_ok sim_os k_interest c sample_world"
  using sim_epoll sample_sys_inv sample_sys_free
  by (auto simp: registry_ok_def poller_inv_def fd_free_def sample_world_def boot_world_def sample_sys_def boot_def
      Channel_ctor_def status_values)

section \<open>Properties\<close>

text \<open>
  C15: No change of interest is lost: after any sequence of \<open>enableReading\<close>, \<open>disableReading\<close>,
  \<open>enableWriting\<close>, \<open>disableWriting\<close> and \<open>disableAll\<close> calls the mask of the channel is the one the calls
  compute, and the kernel watches the channel for exactly that mask (for nothing, when it is empty).
\<close>

theorem interest_follows_mask:
  assumes "in_line os interest c w"
  shows "succeeds (\<lambda>w'. in_line os interest c w' \<and> m_events (chan w' c) = fold mask_after ops (m_events (chan w c)))
     (foldE (run_mask_op os c) ops w)"
  using registry.changes_settle [of os interest c w "map mask_after ops"] assms
  by (simp add: in_line_settled run_mask_ops_change masks_after)

theorem interest_follows_mask_witness:
  "succeeds (\<lambda>w'. channel_watched k_interest 2 w' = Some EPOLLOUT)
     (foldE (run_mask_op sim_os 2) [Enable_reading, Disable_all, Enable_reading, Enable_writing, Disable_reading] sample_world)"
proof -
  have "in_line sim_os k_interest 2 sample_world"
    using sample_world_registry [of 2]
    by (simp add: in_line_def channel_watched_def watched_def sample_world_def boot_world_def sample_sys_def boot_def
        Channel_ctor_def)
  from interest_follows_mask [OF this] show ?thesis
    by (rule succeeds_mono)
      (auto simp: in_line_def sample_world_def boot_world_def sample_sys_chan Channel_ctor_def event_masks epoll_bits)
qed

text \<open>
  The destruction sequence of every owner of a channel, \<open>disableAll\<close> and then \<open>remove\<close>, leaves
  neither the kernel nor the poller with a reference to the channel.
\<close>

theorem destroyed_channel_forgotten:
  assumes "registry_ok os interest c w"
  shows "succeeds (\<lambda>w'. registry_ok os interest c w' \<and> channel_watched interest c w' = None \<and>
       \<not> EventLoop_hasChannel (m_chLoop (chan w' c)) c w')
     (andThen (disableAll os c w) (Channel_remove os c))"
  using change_mask_registers [OF assms, of "\<lambda>_. 0"] unfolding channel_ops_change_mask
  by (rule succeeds_andThen)
    (rule succeeds_mono [OF Channel_remove_unregisters],
     auto simp: EventLoop_hasChannel_def)

theorem destroyed_channel_forgotten_witness:
  "succeeds (\<lambda>w'. channel_watched k_interest 4 w' = None)
     (andThen (disableAll sim_os 4 sample_world) (Channel_remove sim_os 4))"
  using destroyed_channel_forgotten [OF sample_world_registry] by (rule succeeds_mono) blast

text \<open>
  C36: A channel that was disabled and enabled again is registered with the kernel, but \<open>hasChannel\<close>
  denies it: \<open>updateChannel\<close> erases the entry of \<open>m_channels\<close> when the events are switched off, and
  enters it only for a channel of status new, not for one of status deleted.
\<close>

theorem reenabled_channel_not_found:
  assumes "registry_ok os interest c w" and "channel_watched interest c w \<noteq> None"
  shows "succeeds (\<lambda>w'. channel_watched interest c w' = Some kReadEvent \<and>
       \<not> EventLoop_hasChannel (m_chLoop (chan w' c)) c w')
     (andThen (disableAll os c w) (enableReading os c))"
proof -
  obtain w1 where w1: "disableAll os c w = Inr w1"
    using change_mask_registers [OF assms(1), of "\<lambda>_. 0"] by (auto simp: succeeds_def channel_ops_change_mask)
  note D = disableAll_deletes [OF assms w1]
  show ?thesis
    using change_mask_registers [OF D(1), of "\<lambda>m. m OR kReadEvent"] D(2-4)
      change_mask_deleted_map [OF _ D(3), of os "\<lambda>m. m OR kReadEvent"]
    by (auto simp: w1 [unfolded channel_ops_change_mask] channel_ops_change_mask EventLoop_hasChannel_def
        hasChannel_def succeeds_def)
qed

theorem reenabled_channel_not_found_witness:
  "succeeds (\<lambda>w'. \<not> EventLoop_hasChannel (m_chLoop (chan w' 4)) 4 w')
     (andThen (enableReading sim_os 4 sample_world) (\<lambda>w. andThen (disableAll sim_os 4 w) (enableReading sim_os 4)))"
proof (rule succeeds_andThen)
  show "succeeds (\<lambda>w. registry_ok sim_os k_interest 4 w \<and> channel_watched k_interest 4 w \<noteq> None)
      (enableReading sim_os 4 sample_world)"
    unfolding channel_ops_change_mask
    by (rule succeeds_mono [OF change_mask_registers [OF sample_world_registry]])
      (auto simp: sample_world_def boot_world_def sample_sys_chan Channel_ctor_def event_masks epoll_bits)
  fix w :: "simk lsys"
  assume "registry_ok sim_os k_interest 4 w \<and> channel_watched k_interest 4 w \<noteq> None"
  then show "succeeds (\<lambda>w'. \<not> EventLoop_hasChannel (m_chLoop (chan w' 4)) 4 w')
      (andThen (disableAll sim_os 4 w) (enableReading sim_os 4))"
    by (intro succeeds_mono [OF reenabled_channel_not_found]) auto
qed

text \<open>
  C30: Dispatch: when the owner of a tied channel is gone no callback runs; otherwise \<open>handleEvent\<close> runs
  exactly the callbacks due for the events reported, in the order close, error, read, write, provided
  the callbacks leave the dispatch fields of the channel alone.
\<close>

theorem handleEvent_dispatches:
  assumes "keeps_dispatch invoke c"
  shows "Channel_handleEvent lock invoke c t w =
     (if m_tied (chan w c) \<and> (case m_tie (chan w c) of None \<Rightarrow> True | Some obj \<Rightarrow> \<not> lock obj w) then Inr w
      else foldE (\<lambda>cb. invoke cb t) (due_callbacks (chan w c)) w)"
  using handleEventWithGuard_eq [OF assms]
  by (auto simp: Channel_handleEvent_def split: option.splits)

definition sample_dispatch :: "simk lsys" where
  "sample_dispatch = boot_world\<lparr>chan := (chan boot_world)(4 := (Channel_ctor 0 5)
     \<lparr>m_revents := EPOLLHUP OR EPOLLERR OR EPOLLOUT, m_readCallback := Some (TcpConnection_handleRead_cb 1),
      m_writeCallback := Some (TcpConnection_handleWrite_cb 1), m_closeCallback := Some (TcpConnection_handleClose_cb 1),
      m_errorCallback := Some (TcpConnection_handleError_cb 1)\<rparr>)\<rparr>"

theorem handleEvent_dispatches_witness:
  "Channel_handleEvent (\<lambda>_ _. True) (\<lambda>cb t w. Inr (upd_loop 0 (\<lambda>e. e\<lparr>m_pollReturnTime := 2 * m_pollReturnTime e + 1\<rparr>) w)) 4 0 sample_dispatch
   = Inr (upd_loop 0 (\<lambda>e. e\<lparr>m_pollReturnTime := 7\<rparr>) sample_dispatch)"
proof -
  let ?invoke = "\<lambda>cb t w. Inr (upd_loop 0 (\<lambda>e. e\<lparr>m_pollReturnTime := 2 * m_pollReturnTime e + 1\<rparr>) w)"
  have keep: "keeps_dispatch ?invoke 4"
    by (auto simp: keeps_dispatch_def upd_loop_def)
  have due: "due_callbacks (chan sample_dispatch 4) = [TcpConnection_handleClose_cb 1, TcpConnection_handleError_cb 1,
      TcpConnection_handleWrite_cb 1]" "\<not> m_tied (chan sample_dispatch 4)"
    by (simp_all add: due_callbacks_def sample_dispatch_def opt_list_def epoll_bits Channel_ctor_def)
  show ?thesis
    unfolding handleEvent_dispatches [OF keep] due(1) using due(2)
    by (simp add: upd_loop_def sample_dispatch_def boot_world_def)
qed


definition quit_world :: "simk lsys" where
  "quit_world = upd_loop 0 (\<lambda>e. e\<lparr>m_pendingFunctors := [User_fn 1]\<rparr>) boot_world"


text \<open>
  One loop per thread: constructing a second \<open>EventLoop\<close> in a thread that has one ends the process.
\<close>

theorem second_loop_is_fatal:
  assumes "t_loopInThisThread w (cur_thread w) = Some l'"
  shows "EventLoop_ctor os l c w = Inl Exit"
  using assms
  by (auto simp: EventLoop_ctor_def newDefaultPoller_def EPollPoller_ctor_def createEventfd_def Let_def
      upd_loop_def upd_chan_def split: prod.splits sum.splits)

theorem second_loop_is_fatal_witness:
  "EventLoop_ctor sim_os 1 2 (boot_world\<lparr>t_loopInThisThread := (\<lambda>_. Some 0)\<rparr>) = Inl Exit"
  by (rule second_loop_is_fatal) simp

text \<open>
  With \<open>MUDUO_USE_POLL\<close> in the environment no loop can be constructed: the factory returns a null
  poller, through which the constructor then registers the wakeup channel.
\<close>

theorem poll_environment_is_fatal:
  assumes "sys_getenv os ''MUDUO_USE_POLL'' (kern w) \<noteq> None"
    and "sys_eventfd os (kern w) = (Inr fd, k1)" and "t_loopInThisThread w (cur_thread w) = None"
  shows "EventLoop_ctor os l c w = Inl Undefined"
  using assms by (simp add: EventLoop_ctor_def newDefaultPoller_def createEventfd_def Let_def upd_loop_def upd_chan_def)

theorem poll_environment_is_fatal_witness:
  "EventLoop_ctor sim_os 0 1 (boot_world\<lparr>kern := boot\<lparr>k_env := (\<lambda>_. Some ''1'')\<rparr>\<rparr>) = Inl Undefined"
  by (rule poll_environment_is_fatal) (simp_all add: sim_fd_def boot_world_def)

text \<open>What construction establishes, whatever the number of loops already in the program.\<close>

lemma EventLoop_ctor_state:
  assumes "epoll_contract os interest" and "fresh_epoll_contract os interest"
    and "sys_getenv os ''MUDUO_USE_POLL'' (kern w) = None"
    and "sys_epoll_create1 os (kern w) = (Inr epfd, k1)" and "sys_eventfd os k1 = (Inr wfd, k2)"
    and "t_loopInThisThread w (cur_thread w) = None" and "\<forall>c'. m_chLoop (chan w c') \<noteq> l"
  shows "succeeds (\<lambda>w'. in_line os interest c w' \<and> channel_watched interest c w' = Some kReadEvent \<and>
       m_fd (chan w' c) = wfd \<and> m_wakeupFd (loop_of w' l) = wfd \<and> m_chLoop (chan w' c) = l \<and>
       m_readCallback (chan w' c) = Some (EventLoop_handleRead_cb l) \<and>
       isInLoopThread l w' \<and> t_loopInThisThread w' (cur_thread w') = Some l \<and>
       m_pendingFunctors (loop_of w' l) = [] \<and> \<not> m_quit (loop_of w' l)) (EventLoop_ctor os l c w)"
proof -
  have fresh: "interest k2 epfd = (\<lambda>_. None)"
    using assms(2,4,5) unfolding fresh_epoll_contract_def by (metis snd_conv)
  let ?p = "\<lparr>m_channels = (\<lambda>_. None), m_epollfd = epfd,
                m_eventList = replicate kInitEventListSize \<lparr>ev_events = 0, ev_ptr = 0\<rparr>\<rparr>"
  obtain w5 where eq: "EventLoop_ctor os l c w = enableReading os c w5"
    and k: "kern w5 = k2" "poller_of w5 l = ?p" "cur_thread w5 = cur_thread w"
    and ch: "chan w5 = (chan w)(c := setReadCallback (EventLoop_handleRead_cb l) (Channel_ctor l wfd))"
    and lo: "loop_of w5 l = \<lparr>m_looping = False, m_quit = False, m_threadId = cur_thread w,
                  m_pollReturnTime = 0, m_wakeupFd = wfd, m_wakeupChannel = c, m_activeChannels = [],
                  m_callingPendingFunctors = False, m_pendingFunctors = []\<rparr>"
    and th: "t_loopInThisThread w5 (cur_thread w) = Some l"
    using assms(3-6)
    by (simp add: EventLoop_ctor_def newDefaultPoller_def EPollPoller_ctor_def createEventfd_def Let_def
        upd_loop_def upd_chan_def upd_poller_def)
  have ok: "registry_ok os interest c w5"
    using assms(1,7) fresh
    by (auto simp: registry_ok_def poller_inv_def fd_free_def k ch setReadCallback_def Channel_ctor_def status_values)
  show ?thesis
  proof (unfold eq channel_ops_change_mask,
      rule succeeds_mono [OF succeeds_with [OF change_mask_registers [OF ok, of "\<lambda>m. m OR kReadEvent"]]], elim conjE)
    fix w' assume w': "change_mask os (\<lambda>m. m OR kReadEvent) c w5 = Inr w'"
      and ok': "registry_ok os interest c w'" and m: "m_events (chan w' c) = m_events (chan w5 c) OR kReadEvent"
      and wd: "channel_watched interest c w' =
          (if channel_watched interest c w5 \<noteq> None \<and> m_events (chan w5 c) OR kReadEvent = 0 then None
           else Some (m_events (chan w5 c) OR kReadEvent))"
    note L = change_mask_loops [OF w'] and T = change_mask_touches [OF w']
    have "m_readCallback (chan w' c) = m_readCallback (chan w5 c)"
      using touches_chan [OF T] by (auto simp: setChannelStatus_def)
    moreover have "m_events (chan w5 c) = 0"
      by (simp add: ch setReadCallback_def Channel_ctor_def)
    ultimately show "in_line os interest c w' \<and> channel_watched interest c w' = Some kReadEvent \<and>
       m_fd (chan w' c) = wfd \<and> m_wakeupFd (loop_of w' l) = wfd \<and> m_chLoop (chan w' c) = l \<and>
       m_readCallback (chan w' c) = Some (EventLoop_handleRead_cb l) \<and>
       isInLoopThread l w' \<and> t_loopInThisThread w' (cur_thread w') = Some l \<and>
       m_pendingFunctors (loop_of w' l) = [] \<and> \<not> m_quit (loop_of w' l)"
      using ok' m wd L touches_fields(1,2) [OF T, of c] lo th k(3)
      by (simp add: in_line_def isInLoopThread_def ch setReadCallback_def Channel_ctor_def)
  qed
qed

text \<open>
  Destruction undoes it: nothing watches the wakeup channel any more, the thread may have another
  loop, and the last two calls to the kernel close the wakeup descriptor and the epoll descriptor.
\<close>

theorem EventLoop_dtor_releases:
  fixes w :: "('k, 'z) lsys_scheme"
  assumes "registry_ok os interest (m_wakeupChannel (loop_of w l)) w"
  shows "succeeds (\<lambda>w'. t_loopInThisThread w' (cur_thread w) = None \<and>
       m_channelStatus (chan w' (m_wakeupChannel (loop_of w l))) \<noteq> kStatusAdded \<and>
       (\<exists>w2 :: ('k, 'z) lsys_scheme. channel_watched interest (m_wakeupChannel (loop_of w l)) w2 = None \<and>
          kern w' = sys_close os (m_epollfd (poller_of w2 l)) (sys_close os (m_wakeupFd (loop_of w l)) (kern w2))))
     (EventLoop_dtor os l w)"
proof -
  let ?c = "m_wakeupChannel (loop_of w l)"
  obtain w1 where w1: "change_mask os (\<lambda>_. 0) ?c w = Inr w1" "registry_ok os interest ?c w1"
    using change_mask_registers [OF assms, of "\<lambda>_. 0"] by (auto simp: succeeds_def)
  obtain w2 where w2: "Channel_remove os ?c w1 = Inr w2" "registry_ok os interest ?c w2"
      "channel_watched interest ?c w2 = None"
    using Channel_remove_unregisters [OF w1(2)] by (auto simp: succeeds_def)
  have "m_channelStatus (chan w2 ?c) \<noteq> kStatusAdded"
    using w2(2,3) watched_iff [of interest "{}" "m_chLoop (chan w2 ?c)" w2 ?c]
    by (auto simp: registry_ok_def channel_watched_def)
  then show ?thesis
    using w1(1) w2(1,3) change_mask_loops [OF w1(1)] Channel_remove_loops [OF w2(1)]
    by (auto simp: EventLoop_dtor_def Let_def channel_ops_change_mask EPollPoller_dtor_def)
qed

theorem EventLoop_dtor_releases_witness:
  "succeeds (\<lambda>w'. t_loopInThisThread w' 7 = None) (EventLoop_dtor sim_os 0 sample_world)"
  using EventLoop_dtor_releases [OF sample_world_registry, of 0]
  by (rule succeeds_mono) (auto simp: sample_world_def boot_world_def)

end
