(* ===== verification/LoopThreads.thy ===== *)
theory LoopThreads
  imports EventLoop
begin

text \<open>
  \<open>EventLoop\<close> under concurrency (EventLoop.cpp): the thread of one loop runs \<open>loop()\<close> while any
  number of other threads call \<open>queueInLoop\<close> and \<open>quit\<close>. EventLoop.thy models the operations as they
  run undisturbed; here every access to shared data (a critical section of \<open>m_mutex\<close>, a load or
  store of an atomic flag, a system call on the wakeup descriptor) is one step, and the steps of the
  threads interleave freely.

  The wakeup descriptor is an eventfd, a kernel object: a parameter \<open>'e eventfd\<close>. The one fact the
  code relies on is that a write makes it readable (\<open>wakes\<close>).
\<close>

section \<open>State\<close>

record 'e eventfd =
  efd_write :: "'e \<Rightarrow> 'e"
  efd_read :: "'e \<Rightarrow> 'e"
  efd_ready :: "'e \<Rightarrow> bool"

definition wakes :: "'e eventfd \<Rightarrow> bool" where
  "wakes E \<longleftrightarrow> (\<forall>e. efd_ready E (efd_write E e))"

text \<open>
  Where the loop thread is: before \<open>loop()\<close>, at the test of the \<open>while\<close>, in \<open>epoll_wait\<close>, calling
  back channels (with the wakeup channel still to be called back, or not), past the store to
  \<open>m_callingPendingFunctors\<close>, running the closures it swapped out, and past the loop. Another thread
  is idle or between the two halves of \<open>queueInLoop\<close> or of \<open>quit\<close>.
\<close>

datatype loop_pc = L_Start | L_While | L_Poll | L_Handle bool | L_Swap | L_Run | L_Done

datatype caller_pc = C_Idle | C_Queued | C_QuitSet

text \<open>
  \<open>t_queued\<close>, \<open>t_ran\<close> and \<open>t_quits\<close> are history: the closures queued and run so far and the number of
  \<open>quit\<close> calls that returned; \<open>t_early\<close> records that the loop's own thread queued a closure before
  it entered \<open>loop()\<close> and that the closure has not been swapped out yet.
\<close>

record 'e threads =
  t_pc :: loop_pc
  t_quit :: bool
  t_calling :: bool
  t_pending :: "closure list"
  t_functors :: "closure list"
  t_wakeupFd :: 'e
  t_ownWakeup :: bool
  t_callers :: "nat \<Rightarrow> caller_pc"
  t_queued :: "closure list"
  t_ran :: "closure list"
  t_quits :: nat
  t_early :: bool

definition threads_init :: "'e threads \<Rightarrow> bool" where
  "threads_init s \<longleftrightarrow> t_pc s = L_Start \<and> \<not> t_quit s \<and> \<not> t_calling s \<and> t_pending s = [] \<and>
     t_functors s = [] \<and> \<not> t_ownWakeup s \<and> t_callers s = (\<lambda>_. C_Idle) \<and> t_queued s = [] \<and>
     t_ran s = [] \<and> t_quits s = 0 \<and> \<not> t_early s"

text \<open>Where the loop thread may run user code, and so call \<open>queueInLoop\<close> and \<open>quit\<close> itself.\<close>

definition in_user_code :: "'e threads \<Rightarrow> bool" where
  "in_user_code s \<longleftrightarrow>
     (t_pc s = L_Start \<or> (\<exists>b. t_pc s = L_Handle b) \<or> t_pc s = L_Run) \<and> \<not> t_ownWakeup s"

section \<open>Steps\<close>

inductive threads_step :: "'e eventfd \<Rightarrow> 'e threads \<Rightarrow> 'e threads \<Rightarrow> bool" for E :: "'e eventfd" where
  loop_enter: "t_pc s = L_Start \<Longrightarrow> \<not> t_ownWakeup s \<Longrightarrow>
    threads_step E s (s\<lparr>t_pc := L_While, t_quit := False\<rparr>)"
| while_exit: "t_pc s = L_While \<Longrightarrow> t_quit s \<Longrightarrow> threads_step E s (s\<lparr>t_pc := L_Done\<rparr>)"
| while_go: "t_pc s = L_While \<Longrightarrow> \<not> t_quit s \<Longrightarrow> threads_step E s (s\<lparr>t_pc := L_Poll\<rparr>)"
| poll_wakeup: "t_pc s = L_Poll \<Longrightarrow> efd_ready E (t_wakeupFd s) \<Longrightarrow>
    threads_step E s (s\<lparr>t_pc := L_Handle True\<rparr>)"
| poll_other: "t_pc s = L_Poll \<Longrightarrow> threads_step E s (s\<lparr>t_pc := L_Handle False\<rparr>)"
| handle_read: "t_pc s = L_Handle True \<Longrightarrow>
    threads_step E s (s\<lparr>t_pc := L_Handle False, t_wakeupFd := efd_read E (t_wakeupFd s)\<rparr>)"
| pending_begin: "t_pc s = L_Handle False \<Longrightarrow>
    threads_step E s (s\<lparr>t_pc := L_Swap, t_calling := True\<rparr>)"
| pending_swap: "t_pc s = L_Swap \<Longrightarrow>
    threads_step E s (s\<lparr>t_pc := L_Run, t_functors := t_pending s, t_pending := [], t_early := False\<rparr>)"
| pending_run: "t_pc s = L_Run \<Longrightarrow> \<not> t_ownWakeup s \<Longrightarrow> t_functors s = f # fs \<Longrightarrow>
    threads_step E s (s\<lparr>t_functors := fs, t_ran := t_ran s @ [f]\<rparr>)"
| pending_end: "t_pc s = L_Run \<Longrightarrow> \<not> t_ownWakeup s \<Longrightarrow> t_functors s = [] \<Longrightarrow>
    threads_step E s (s\<lparr>t_pc := L_While, t_calling := False\<rparr>)"
| own_queue: "in_user_code s \<Longrightarrow>
    threads_step E s (s\<lparr>t_pending := t_pending s @ [f], t_queued := t_queued s @ [f],
      t_ownWakeup := t_calling s, t_early := t_early s \<or> t_pc s = L_Start\<rparr>)"
| own_wakeup: "t_ownWakeup s \<Longrightarrow>
    threads_step E s (s\<lparr>t_ownWakeup := False, t_wakeupFd := efd_write E (t_wakeupFd s)\<rparr>)"
| own_quit: "in_user_code s \<Longrightarrow>
    threads_step E s (s\<lparr>t_quit := True, t_quits := Suc (t_quits s)\<rparr>)"
| queue: "t_callers s t = C_Idle \<Longrightarrow>
    threads_step E s (s\<lparr>t_callers := (t_callers s)(t := C_Queued),
      t_pending := t_pending s @ [f], t_queued := t_queued s @ [f]\<rparr>)"
| queue_wakeup: "t_callers s t = C_Queued \<Longrightarrow>
    threads_step E s (s\<lparr>t_callers := (t_callers s)(t := C_Idle),
      t_wakeupFd := efd_write E (t_wakeupFd s)\<rparr>)"
| quit: "t_callers s t = C_Idle \<Longrightarrow>
    threads_step E s (s\<lparr>t_callers := (t_callers s)(t := C_QuitSet), t_quit := True\<rparr>)"
| quit_wakeup: "t_callers s t = C_QuitSet \<Longrightarrow>
    threads_step E s (s\<lparr>t_callers := (t_callers s)(t := C_Idle),
      t_wakeupFd := efd_write E (t_wakeupFd s), t_quits := Suc (t_quits s)\<rparr>)"

inductive_cases threads_stepE: "threads_step E s t"

text \<open>The loop thread sits in \<open>epoll_wait\<close> with nothing to wake it up, and no other thread is in the
  middle of a call.\<close>

definition blocked :: "'e eventfd \<Rightarrow> 'e threads \<Rightarrow> bool" where
  "blocked E s \<longleftrightarrow> t_pc s = L_Poll \<and> \<not> efd_ready E (t_wakeupFd s) \<and> t_callers s = (\<lambda>_. C_Idle)"

section \<open>Invariants\<close>

text \<open>Every closure queued has run, is about to run, or is pending, in the order of queueing.\<close>

definition fifo_inv :: "'e threads \<Rightarrow> bool" where
  "fifo_inv s \<longleftrightarrow> t_ran s @ t_functors s @ t_pending s = t_queued s \<and>
     (t_functors s \<noteq> [] \<longrightarrow> t_pc s = L_Run) \<and>
     (t_calling s \<longleftrightarrow> t_pc s = L_Swap \<or> t_pc s = L_Run) \<and> (t_ownWakeup s \<longrightarrow> t_pc s = L_Run)"

text \<open>A wakeup for pending closures is on its way: the descriptor is readable, or a thread is about
  to write to it.\<close>

definition some_caller :: "(nat \<Rightarrow> caller_pc) \<Rightarrow> caller_pc \<Rightarrow> bool" where
  "some_caller c x \<longleftrightarrow> (\<exists>t. c t = x)"

definition wakeup_due :: "'e eventfd \<Rightarrow> 'e threads \<Rightarrow> bool" where
  "wakeup_due E s \<longleftrightarrow> efd_ready E (t_wakeupFd s) \<or> t_ownWakeup s \<or> some_caller (t_callers s) C_Queued"

definition quit_due :: "'e eventfd \<Rightarrow> 'e threads \<Rightarrow> bool" where
  "quit_due E s \<longleftrightarrow> efd_ready E (t_wakeupFd s) \<or> some_caller (t_callers s) C_QuitSet"

definition wakeup_inv :: "'e eventfd \<Rightarrow> 'e threads \<Rightarrow> bool" where
  "wakeup_inv E s \<longleftrightarrow> wakes E \<and> fifo_inv s \<and>
     (t_pending s \<noteq> [] \<and> t_pc s \<in> {L_Start, L_While, L_Poll, L_Run} \<longrightarrow> wakeup_due E s \<or> t_early s) \<and>
     (t_early s \<longrightarrow> t_pc s \<noteq> L_Run) \<and>
     (t_pc s = L_Poll \<and> t_quit s \<longrightarrow> quit_due E s)"

lemma fifo_init: "threads_init s \<Longrightarrow> fifo_inv s"
  by (simp add: threads_init_def fifo_inv_def)

lemma fifo_step: "threads_step E s t \<Longrightarrow> fifo_inv s \<Longrightarrow> fifo_inv t"
  by (induction rule: threads_step.induct) (auto simp: fifo_inv_def in_user_code_def)

lemma wakeup_init: "wakes E \<Longrightarrow> threads_init s \<Longrightarrow> wakeup_inv E s"
  by (simp add: wakeup_inv_def fifo_init) (simp add: threads_init_def)

text \<open>How a step of one caller changes what the others are doing.\<close>

lemma some_caller_upd [simp]:
  "c t \<noteq> x \<Longrightarrow> some_caller (c(t := y)) x \<longleftrightarrow> y = x \<or> some_caller c x"
  "some_caller (c(t := x)) x"
  unfolding some_caller_def by (metis fun_upd_apply) (metis fun_upd_same)

lemma some_caller_idle [simp]: "x \<noteq> C_Idle \<Longrightarrow> \<not> some_caller (\<lambda>_. C_Idle) x"
  by (simp add: some_caller_def)

lemma pending_step:
  assumes step: "threads_step E s t" and inv: "wakeup_inv E s"
    and t: "t_pending t \<noteq> []" "t_pc t \<in> {L_Start, L_While, L_Poll, L_Run}"
  shows "wakeup_due E t \<or> t_early t"
proof -
  have E: "\<And>e. efd_ready E (efd_write E e)"
    and due: "t_pending s \<noteq> [] \<Longrightarrow> t_pc s \<in> {L_Start, L_While, L_Poll, L_Run} \<Longrightarrow>
      efd_ready E (t_wakeupFd s) \<or> t_ownWakeup s \<or> some_caller (t_callers s) C_Queued \<or> t_early s"
    and cal: "t_calling s \<longleftrightarrow> t_pc s = L_Swap \<or> t_pc s = L_Run" and own: "t_ownWakeup s \<longrightarrow> t_pc s = L_Run"
    using inv by (auto simp: wakeup_inv_def fifo_inv_def wakes_def wakeup_due_def)
  show ?thesis
    using step t
    by cases (use E due cal own in \<open>auto simp: wakeup_due_def in_user_code_def\<close>)
qed

lemma quit_step:
  assumes step: "threads_step E s t" and inv: "wakeup_inv E s" and t: "t_pc t = L_Poll" "t_quit t"
  shows "quit_due E t"
proof -
  have E: "\<And>e. efd_ready E (efd_write E e)"
    and due: "t_pc s = L_Poll \<Longrightarrow> t_quit s \<Longrightarrow>
      efd_ready E (t_wakeupFd s) \<or> some_caller (t_callers s) C_QuitSet"
    using inv by (auto simp: wakeup_inv_def wakes_def quit_due_def)
  show ?thesis
    using step t
    by cases (use E due in \<open>auto simp: quit_due_def in_user_code_def\<close>)
qed

lemma wakeup_step:
  assumes "wakeup_inv E s" and "threads_step E s t"
  shows "wakeup_inv E t"
proof -
  have "wakes E" "fifo_inv s" and early: "t_early s \<longrightarrow> t_pc s \<noteq> L_Run"
    using assms(1) by (simp_all add: wakeup_inv_def)
  moreover have "t_early t \<longrightarrow> t_pc t \<noteq> L_Run"
    using assms(2) by cases (use early in \<open>auto simp: in_user_code_def\<close>)
  ultimately show ?thesis
    using fifo_step [OF assms(2)] pending_step [OF assms(2,1)] quit_step [OF assms(2,1)]
    by (simp add: wakeup_inv_def)
qed

interpretation fifo: inductive_invariant threads_init "threads_step E" fifo_inv for E
  by unfold_locales (auto intro: fifo_init fifo_step)

interpretation wakeups: inductive_invariant "\<lambda>s. wakes E \<and> threads_init s" "threads_step E" "wakeup_inv E" for E
  by unfold_locales (auto intro: wakeup_init wakeup_step)

section \<open>A pass of the loop runs what was queued\<close>

lemma run_all:
  assumes "t_pc s = L_Run" and "\<not> t_ownWakeup s" and "t_functors s = fs"
  shows "(threads_step E)\<^sup>*\<^sup>* s (s\<lparr>t_functors := [], t_ran := t_ran s @ fs\<rparr>)"
  using assms
proof (induction fs arbitrary: s)
  case Nil
  then have "s\<lparr>t_functors := [], t_ran := t_ran s @ []\<rparr> = s"
    by (cases s) simp
  then show ?case by simp
next
  case (Cons f fs)
  define s1 where "s1 = s\<lparr>t_functors := fs, t_ran := t_ran s @ [f]\<rparr>"
  have "threads_step E s s1"
    unfolding s1_def using Cons.prems by (intro pending_run)
  moreover have "(threads_step E)\<^sup>*\<^sup>* s1 (s1\<lparr>t_functors := [], t_ran := t_ran s1 @ fs\<rparr>)"
    using Cons.IH [of s1] Cons.prems by (simp add: s1_def)
  moreover have "s1\<lparr>t_functors := [], t_ran := t_ran s1 @ fs\<rparr> = s\<lparr>t_functors := [], t_ran := t_ran s @ f # fs\<rparr>"
    by (cases s) (simp add: s1_def)
  ultimately show ?case
    by (metis converse_rtranclp_into_rtranclp)
qed

lemma pass_runs_pending:
  assumes pc: "t_pc s = L_Poll" and own: "\<not> t_ownWakeup s"
  shows "(threads_step E)\<^sup>*\<^sup>* s (s\<lparr>t_pc := L_While, t_calling := False, t_functors := [], t_pending := [],
           t_early := False, t_ran := t_ran s @ t_pending s\<rparr>)"
proof -
  define s1 where "s1 = s\<lparr>t_pc := L_Handle False\<rparr>"
  define s2 where "s2 = s1\<lparr>t_pc := L_Swap, t_calling := True\<rparr>"
  define s3 where "s3 = s2\<lparr>t_pc := L_Run, t_functors := t_pending s2, t_pending := [], t_early := False\<rparr>"
  define s4 where "s4 = s3\<lparr>t_functors := [], t_ran := t_ran s3 @ t_pending s\<rparr>"
  define s5 where "s5 = s4\<lparr>t_pc := L_While, t_calling := False\<rparr>"
  have "(threads_step E)\<^sup>*\<^sup>* s s1"
    unfolding s1_def using pc by (intro r_into_rtranclp poll_other)
  also have "(threads_step E)\<^sup>*\<^sup>* s1 s2"
    unfolding s2_def by (intro r_into_rtranclp pending_begin) (simp add: s1_def)
  also have "(threads_step E)\<^sup>*\<^sup>* s2 s3"
    unfolding s3_def by (intro r_into_rtranclp pending_swap) (simp add: s2_def)
  also have "(threads_step E)\<^sup>*\<^sup>* s3 s4"
    unfolding s4_def by (rule run_all) (use own in \<open>simp_all add: s3_def s2_def s1_def\<close>)
  also have "(threads_step E)\<^sup>*\<^sup>* s4 s5"
    unfolding s5_def by (intro r_into_rtranclp pending_end) (use own in \<open>simp_all add: s4_def s3_def s2_def s1_def\<close>)
  finally have "(threads_step E)\<^sup>*\<^sup>* s s5" .
  moreover have "s5 = s\<lparr>t_pc := L_While, t_calling := False, t_functors := [], t_pending := [],
           t_early := False, t_ran := t_ran s @ t_pending s\<rparr>"
    by (cases s) (simp add: s5_def s4_def s3_def s2_def s1_def)
  ultimately show ?thesis by simp
qed

lemma at_poll:
  assumes "fifo_inv s" and "t_pc s = L_Poll"
  shows "t_functors s = []" "\<not> t_ownWakeup s" "t_ran s @ t_pending s = t_queued s"
  using assms by (auto simp: fifo_inv_def)

section \<open>A concrete eventfd and two runs\<close>

text \<open>The counter of a non-semaphore eventfd: a write adds, a read clears.\<close>

definition counter_efd :: "nat eventfd" where
  "counter_efd = \<lparr>efd_write = Suc, efd_read = (\<lambda>_. 0), efd_ready = (\<lambda>n. 0 < n)\<rparr>"

lemma counter_wakes: "wakes counter_efd"
  by (simp add: wakes_def counter_efd_def)

definition threads_start :: "nat threads" where
  "threads_start = \<lparr>t_pc = L_Start, t_quit = False, t_calling = False, t_pending = [], t_functors = [],
     t_wakeupFd = 0, t_ownWakeup = False, t_callers = (\<lambda>_. C_Idle), t_queued = [], t_ran = [],
     t_quits = 0, t_early = False\<rparr>"

lemma threads_start_reachable: "reachable threads_init (threads_step counter_efd) threads_start"
  by (rule reachable_init) (simp add: threads_init_def threads_start_def)

text \<open>The loop enters \<open>epoll_wait\<close>, and nothing has happened yet.\<close>

definition threads_idle :: "nat threads" where
  "threads_idle = threads_start\<lparr>t_pc := L_Poll\<rparr>"

lemma threads_idle_reachable: "reachable threads_init (threads_step counter_efd) threads_idle"
proof -
  define s1 where "s1 = threads_start\<lparr>t_pc := L_While, t_quit := False\<rparr>"
  have "reachable threads_init (threads_step counter_efd) s1"
    unfolding s1_def
    by (rule reachable_step [OF threads_start_reachable loop_enter]) (simp_all add: threads_start_def)
  moreover have "threads_step counter_efd s1 (s1\<lparr>t_pc := L_Poll\<rparr>)"
    by (rule while_go) (simp_all add: s1_def)
  ultimately have "reachable threads_init (threads_step counter_efd) (s1\<lparr>t_pc := L_Poll\<rparr>)"
    by (rule reachable_step)
  then show ?thesis
    by (simp add: s1_def threads_idle_def threads_start_def)
qed

section \<open>Properties\<close>

text \<open>
  C10: Closures are neither lost, nor duplicated, nor reordered: in every reachable state the closures
  run so far, followed by those swapped out and those pending, are exactly the closures queued, in the
  order in which the critical sections of \<open>queueInLoop\<close> were entered, whatever the interleaving.
\<close>

theorem closures_fifo:
  assumes "reachable threads_init (threads_step E) s"
  shows "t_ran s @ t_functors s @ t_pending s = t_queued s"
  using fifo.inv_reachable [OF assms] by (simp add: fifo_inv_def)

theorem closures_fifo_witness:
  "t_ran threads_idle @ t_functors threads_idle @ t_pending threads_idle = t_queued threads_idle"
  by (rule closures_fifo [OF threads_idle_reachable])



text \<open>
  The exception is real: a closure that the loop's own thread queues before it enters \<open>loop()\<close>
  causes no wakeup, and the loop can block in \<open>epoll_wait\<close> with the closure pending (until the
  10-second timeout or some other event).
\<close>

theorem early_closure_waits:
  "\<exists>s. reachable threads_init (threads_step counter_efd) s \<and> blocked counter_efd s \<and>
     t_pending s = [User_fn 0] \<and> t_ran s = []"
proof -
  define s1 where "s1 = threads_start\<lparr>t_pending := [User_fn 0], t_queued := [User_fn 0], t_early := True\<rparr>"
  define s2 where "s2 = s1\<lparr>t_pc := L_While, t_quit := False\<rparr>"
  define s3 where "s3 = s2\<lparr>t_pc := L_Poll\<rparr>"
  have "threads_step counter_efd threads_start (threads_start\<lparr>t_pending := t_pending threads_start @ [User_fn 0],
      t_queued := t_queued threads_start @ [User_fn 0], t_ownWakeup := t_calling threads_start,
      t_early := t_early threads_start \<or> t_pc threads_start = L_Start\<rparr>)"
    by (rule own_queue) (simp add: in_user_code_def threads_start_def)
  then have "threads_step counter_efd threads_start s1"
    by (simp add: s1_def threads_start_def)
  moreover have "threads_step counter_efd s1 s2"
    unfolding s2_def by (rule loop_enter) (simp_all add: s1_def threads_start_def)
  moreover have "threads_step counter_efd s2 s3"
    unfolding s3_def by (rule while_go) (simp_all add: s2_def)
  ultimately have "reachable threads_init (threads_step counter_efd) s3"
    using threads_start_reachable by (blast intro: reachable_step)
  moreover have "blocked counter_efd s3 \<and> t_pending s3 = [User_fn 0] \<and> t_ran s3 = []"
    by (simp add: blocked_def s3_def s2_def s1_def threads_start_def counter_efd_def)
  ultimately show ?thesis by blast
qed

text \<open>
  A \<open>quit()\<close> that another thread completes before the loop thread has entered \<open>loop()\<close> is lost:
  \<open>loop()\<close> resets \<open>m_quit\<close>, the wakeup is consumed by one pass, and the loop blocks again with
  nothing outstanding. (\<open>EventLoopThread\<close>'s destructor calls \<open>quit()\<close> and then joins the thread.)
\<close>

theorem early_quit_is_lost:
  "\<exists>s. reachable threads_init (threads_step counter_efd) s \<and> blocked counter_efd s \<and>
     t_quits s = 1 \<and> \<not> t_quit s"
proof -
  define s1 where "s1 = threads_start\<lparr>t_callers := (t_callers threads_start)(0 := C_QuitSet), t_quit := True\<rparr>"
  define s2 where "s2 = s1\<lparr>t_callers := (t_callers s1)(0 := C_Idle),
      t_wakeupFd := efd_write counter_efd (t_wakeupFd s1), t_quits := Suc (t_quits s1)\<rparr>"
  define s3 where "s3 = s2\<lparr>t_pc := L_While, t_quit := False\<rparr>"
  define s4 where "s4 = s3\<lparr>t_pc := L_Poll\<rparr>"
  define s5 where "s5 = s4\<lparr>t_pc := L_Handle True\<rparr>"
  define s6 where "s6 = s5\<lparr>t_pc := L_Handle False, t_wakeupFd := efd_read counter_efd (t_wakeupFd s5)\<rparr>"
  define s7 where "s7 = s6\<lparr>t_pc := L_Swap, t_calling := True\<rparr>"
  define s8 where "s8 = s7\<lparr>t_pc := L_Run, t_functors := t_pending s7, t_pending := [], t_early := False\<rparr>"
  define s9 where "s9 = s8\<lparr>t_pc := L_While, t_calling := False\<rparr>"
  define s10 where "s10 = s9\<lparr>t_pc := L_Poll\<rparr>"
  note defs = s1_def s2_def s3_def s4_def s5_def s6_def s7_def s8_def s9_def s10_def
  note base = threads_start_def counter_efd_def
  let ?R = "reachable threads_init (threads_step counter_efd)"
  have "?R s1" unfolding s1_def
    by (rule reachable_step [OF threads_start_reachable quit]) (simp add: base)
  then have "?R s2" unfolding s2_def
    by (rule reachable_step) (rule quit_wakeup, simp add: s1_def base)
  then have "?R s3" unfolding s3_def
    by (rule reachable_step) (rule loop_enter, simp_all add: defs base)
  then have "?R s4" unfolding s4_def
    by (rule reachable_step) (rule while_go, simp_all add: defs base)
  then have "?R s5" unfolding s5_def
    by (rule reachable_step) (rule poll_wakeup, simp_all add: defs base)
  then have "?R s6" unfolding s6_def
    by (rule reachable_step) (rule handle_read, simp add: s5_def)
  then have "?R s7" unfolding s7_def
    by (rule reachable_step) (rule pending_begin, simp add: s6_def)
  then have "?R s8" unfolding s8_def
    by (rule reachable_step) (rule pending_swap, simp add: s7_def)
  then have "?R s9" unfolding s9_def
    by (rule reachable_step) (rule pending_end, simp_all add: defs base)
  then have "?R s10" unfolding s10_def
    by (rule reachable_step) (rule while_go, simp_all add: defs base)
  moreover have "blocked counter_efd s10 \<and> t_quits s10 = 1 \<and> \<not> t_quit s10"
    by (simp add: blocked_def defs base fun_eq_iff)
  ultimately show ?thesis by blast
qed



end
