(* ===== verification/Logging.thy ===== *)
theory Logging
  imports Sim_Kernel Channel
begin

text \<open>
  \<open>Timestamp\<close> (Timestamp.h, Timestamp.cpp) and \<open>Logger\<close> (Logger.h, Logger.cpp). \<open>localtime\<close> depends on
  the time zone of the process: it is a parameter, \<open>None\<close> being the null pointer it returns for a time
  whose year does not fit. What goes to \<open>std::cout\<close> is kept as a string. The operations of the other
  theories leave their calls of the logging macros out; only \<open>LOG_FATAL\<close> shows there, as \<open>Exit\<close>.
\<close>

section \<open>Timestamp\<close>

text \<open>A \<open>Timestamp\<close> is its one field, and \<open>now\<close> fills it with \<open>time(NULL)\<close>.\<close>

definition Timestamp_ctor :: timestamp where
  "Timestamp_ctor = 0"

definition Timestamp_of :: "int \<Rightarrow> timestamp" where
  "Timestamp_of microSecondsSinceEpoch = microSecondsSinceEpoch"

definition Timestamp_now :: "'k os \<Rightarrow> 'k \<Rightarrow> timestamp \<times> 'k" where
  "Timestamp_now os k = (case sys_time os k of (t, k') \<Rightarrow> (Timestamp_of t, k'))"

record tm =
  tm_sec :: int
  tm_min :: int
  tm_hour :: int
  tm_mday :: int
  tm_mon :: int
  tm_year :: int

text \<open>\<open>printf\<close> with a minimal width: \<open>%4d\<close> fills with spaces, \<open>%02d\<close> with zeros after the sign.\<close>

definition fmt_width :: "nat \<Rightarrow> int \<Rightarrow> string" where
  "fmt_width n i = replicate (n - length (to_string_int i)) CHR '' '' @ to_string_int i"

definition fmt_zero :: "nat \<Rightarrow> int \<Rightarrow> string" where
  "fmt_zero n i =
     (let sign = (if i < 0 then ''-'' else ''''); ds = decimal (nat \<bar>i\<bar>)
      in sign @ replicate (n - length sign - length ds) CHR ''0'' @ ds)"

text \<open>\<open>snprintf\<close> into an array of \<open>n\<close> bytes, read back as a C string.\<close>

definition snprintf :: "nat \<Rightarrow> string \<Rightarrow> string" where
  "snprintf n out = takeWhile (\<lambda>c. c \<noteq> CHR 0x00) (take (n - 1) out)"

definition Timestamp_toString :: "(int \<Rightarrow> tm option) \<Rightarrow> timestamp \<Rightarrow> string result" where
  "Timestamp_toString localtime t =
     (case localtime t of
        None \<Rightarrow> Inl Undefined
      | Some tm_time \<Rightarrow>
          if tm_year tm_time + 1900 < 2 ^ 31 then
            Inr (snprintf 128
              (fmt_width 4 (tm_year tm_time + 1900) @ ''/'' @ fmt_zero 2 (tm_mon tm_time + 1) @ ''/'' @
               fmt_zero 2 (tm_mday tm_time) @ '' '' @ fmt_zero 2 (tm_hour tm_time) @ '':'' @
               fmt_zero 2 (tm_min tm_time) @ '':'' @ fmt_zero 2 (tm_sec tm_time)))
          else Inl Undefined)"

section \<open>Logger\<close>

datatype LogLevel = INFO | ERROR | FATAL | DEBUG

fun level_value :: "LogLevel \<Rightarrow> int32" where
  "level_value INFO = 0"
| "level_value ERROR = 1"
| "level_value FATAL = 2"
| "level_value DEBUG = 3"

text \<open>The one \<open>Logger\<close>, with what has gone to \<open>std::cout\<close>; a static object starts as zeros.\<close>

record logger =
  m_logLevel :: int32
  cout :: string

definition Logger_instance :: logger where
  "Logger_instance = \<lparr>m_logLevel = 0, cout = []\<rparr>"

definition Logger_setLogLevel :: "int32 \<Rightarrow> logger \<Rightarrow> logger" where
  "Logger_setLogLevel level lg = lg\<lparr>m_logLevel := level\<rparr>"

definition level_tag :: "int32 \<Rightarrow> string" where
  "level_tag v =
     (if v = level_value INFO then ''[INFO]''
      else if v = level_value ERROR then ''[ERROR]''
      else if v = level_value FATAL then ''[FATAL]''
      else if v = level_value DEBUG then ''[DEBUG]''
      else '''')"

definition Logger_log ::
    "'k os \<Rightarrow> (int \<Rightarrow> tm option) \<Rightarrow> string \<Rightarrow> logger \<times> 'k \<Rightarrow> (logger \<times> 'k) result" where
  "Logger_log os localtime msg = (\<lambda>(lg, k).
     let lg1 = lg\<lparr>cout := cout lg @ level_tag (m_logLevel lg)\<rparr>; (now, k1) = Timestamp_now os k
     in andThen (Timestamp_toString localtime now) (\<lambda>s.
          Inr (lg1\<lparr>cout := cout lg1 @ s @ '' : '' @ msg @ [CHR 0x0A]\<rparr>, k1)))"

text \<open>
  The macros \<open>LOG_INFO\<close> and \<open>LOG_ERROR\<close> (\<open>level\<close> says which): \<open>out\<close> is the text the format and its
  arguments stand for, printed into an array of 1024 bytes. \<open>LOG_FATAL\<close> ends the process after that.
\<close>

definition LOG :: "'k os \<Rightarrow> (int \<Rightarrow> tm option) \<Rightarrow> LogLevel \<Rightarrow> string \<Rightarrow> logger \<times> 'k \<Rightarrow> (logger \<times> 'k) result" where
  "LOG os localtime level out = (\<lambda>(lg, k).
     let lg1 = Logger_setLogLevel (level_value level) lg; buf = snprintf 1024 out
     in Logger_log os localtime buf (lg1, k))"

definition LOG_FATAL :: "'k os \<Rightarrow> (int \<Rightarrow> tm option) \<Rightarrow> string \<Rightarrow> logger \<times> 'k \<Rightarrow> (logger \<times> 'k) result" where
  "LOG_FATAL os localtime out s = andThen (LOG os localtime FATAL out s) (\<lambda>_. Inl Exit)"

text \<open>\<open>LOG_DEBUG\<close> is empty unless \<open>MUDEBUG\<close> is defined.\<close>

definition LOG_DEBUG :: "bool \<Rightarrow> 'k os \<Rightarrow> (int \<Rightarrow> tm option) \<Rightarrow> string \<Rightarrow> logger \<times> 'k \<Rightarrow> (logger \<times> 'k) result" where
  "LOG_DEBUG MUDEBUG os localtime out s = (if MUDEBUG then LOG os localtime DEBUG out s else Inr s)"

section \<open>Lemmas\<close>

lemma snprintf_fits:
  "length out < n \<Longrightarrow> CHR 0x00 \<notin> set out \<Longrightarrow> snprintf n out = out"
  by (auto simp: snprintf_def takeWhile_eq_all_conv)

lemma decimal_no_zero_byte: "CHR 0x00 \<notin> set (decimal n)"
proof (induction n rule: decimal.induct)
  case (1 n)
  have "(char_of (48 + d) :: char) \<noteq> CHR 0x00" if "d < 10" for d :: nat
  proof
    assume "(char_of (48 + d) :: char) = CHR 0x00"
    then have "(of_char (char_of (48 + d) :: char) :: nat) = of_char CHR 0x00" by simp
    then show False using that by simp
  qed
  from this [of n] this [of "n mod 10"] show ?case
    using 1 by (cases "n < 10") (auto simp: decimal.simps [of n])
qed

lemma undecimal_filled:
  "c \<in> {CHR '' '', CHR ''0''} \<Longrightarrow> undecimal (replicate m c @ ds) = undecimal ds"
  by (induction m) (auto simp: undecimal_def)

text \<open>A non-negative number printed with a width it fits in: the width is exact and reading it
  back, the filling included, gives the number.\<close>

lemma fmt_column:
  assumes "0 \<le> i" and "i < 10 ^ Suc n"
  shows "length (fmt_width (Suc n) i) = Suc n" "length (fmt_zero (Suc n) i) = Suc n"
    "undecimal (fmt_width (Suc n) i) = nat i" "undecimal (fmt_zero (Suc n) i) = nat i"
    "CHR 0x00 \<notin> set (fmt_width (Suc n) i)" "CHR 0x00 \<notin> set (fmt_zero (Suc n) i)"
proof -
  have "length (decimal (nat i)) \<le> Suc n"
    using assms by (intro length_decimal) (simp add: nat_less_iff)
  then show "length (fmt_width (Suc n) i) = Suc n" "length (fmt_zero (Suc n) i) = Suc n"
    using assms(1) by (simp_all add: fmt_width_def fmt_zero_def to_string_int_def Let_def)
  show "undecimal (fmt_width (Suc n) i) = nat i" "undecimal (fmt_zero (Suc n) i) = nat i"
    using assms(1) by (simp_all add: fmt_width_def fmt_zero_def to_string_int_def undecimal_filled undecimal_decimal Let_def)
  show "CHR 0x00 \<notin> set (fmt_width (Suc n) i)" "CHR 0x00 \<notin> set (fmt_zero (Suc n) i)"
    using assms(1) decimal_no_zero_byte by (auto simp: fmt_width_def fmt_zero_def to_string_int_def Let_def)
qed

text \<open>localtime(3): the ranges of the fields, for the years that have at most four digits.\<close>

definition tm_in_range :: "tm \<Rightarrow> bool" where
  "tm_in_range tm \<longleftrightarrow> 0 \<le> tm_year tm + 1900 \<and> tm_year tm + 1900 < 10000 \<and> 0 \<le> tm_mon tm \<and> tm_mon tm < 12 \<and>
     0 \<le> tm_mday tm \<and> tm_mday tm < 32 \<and> 0 \<le> tm_hour tm \<and> tm_hour tm < 24 \<and>
     0 \<le> tm_min tm \<and> tm_min tm < 60 \<and> 0 \<le> tm_sec tm \<and> tm_sec tm < 61"

text \<open>Reading the text of a time by its columns.\<close>

definition column :: "nat \<Rightarrow> nat \<Rightarrow> string \<Rightarrow> int" where
  "column i n s = int (undecimal (take n (drop i s)))"

definition read_tm :: "string \<Rightarrow> tm" where
  "read_tm s = \<lparr>tm_sec = column 17 2 s, tm_min = column 14 2 s, tm_hour = column 11 2 s,
     tm_mday = column 8 2 s, tm_mon = column 5 2 s - 1, tm_year = column 0 4 s - 1900\<rparr>"

lemma toString_columns:
  assumes "localtime t = Some tm" and "tm_in_range tm"
  shows "succeeds (\<lambda>s. length s = 19 \<and> CHR 0x00 \<notin> set s \<and> read_tm s = tm) (Timestamp_toString localtime t)"
proof -
  let ?y = "fmt_width 4 (tm_year tm + 1900)" and ?o = "fmt_zero 2 (tm_mon tm + 1)" and ?d = "fmt_zero 2 (tm_mday tm)"
    and ?h = "fmt_zero 2 (tm_hour tm)" and ?m = "fmt_zero 2 (tm_min tm)" and ?s = "fmt_zero 2 (tm_sec tm)"
  let ?out = "?y @ ''/'' @ ?o @ ''/'' @ ?d @ '' '' @ ?h @ '':'' @ ?m @ '':'' @ ?s"
  note r = assms(2) [unfolded tm_in_range_def]
  note Y = fmt_column [of "tm_year tm + 1900" 3, simplified] and O = fmt_column [of "tm_mon tm + 1" 1, simplified]
    and D = fmt_column [of "tm_mday tm" 1, simplified] and H = fmt_column [of "tm_hour tm" 1, simplified]
    and M = fmt_column [of "tm_min tm" 1, simplified] and S = fmt_column [of "tm_sec tm" 1, simplified]
  have len: "length ?y = 4" "length ?o = 2" "length ?d = 2" "length ?h = 2" "length ?m = 2" "length ?s = 2"
    using Y O D H M S r by (simp_all add: numeral_2_eq_2)
  have val: "undecimal ?y = nat (tm_year tm + 1900)" "undecimal ?o = nat (tm_mon tm + 1)" "undecimal ?d = nat (tm_mday tm)"
      "undecimal ?h = nat (tm_hour tm)" "undecimal ?m = nat (tm_min tm)" "undecimal ?s = nat (tm_sec tm)"
    using Y O D H M S r by (simp_all add: numeral_2_eq_2)
  have clean: "CHR 0x00 \<notin> set ?out"
    using Y(5) O(6) D(6) H(6) M(6) S(6) r by (simp add: numeral_2_eq_2)
  have "snprintf 128 ?out = ?out"
    by (rule snprintf_fits [OF _ clean]) (simp add: len)
  then have eq: "Timestamp_toString localtime t = Inr ?out"
    using assms(1) r by (simp add: Timestamp_toString_def)
  have "read_tm ?out = tm"
    using r by (simp add: read_tm_def column_def len val)
  then show ?thesis
    unfolding eq succeeds_Inr using clean by (simp add: len)
qed

section \<open>Properties\<close>

text \<open>
  C38: A log call that is not disturbed appends one line to the output: the tag of its own level, a time
  of nineteen characters whose columns read back as the local time, a separator, and the message, cut
  to the 1023 bytes that fit in the buffer. \<open>LOG_FATAL\<close> ends the process after it.
\<close>

theorem log_line_exact:
  assumes "sys_time os k = (t, k1)" and "localtime t = Some tm" and "tm_in_range tm" and "CHR 0x00 \<notin> set out"
  shows "succeeds (\<lambda>(lg', k'). \<exists>s. length s = 19 \<and> read_tm s = tm \<and> k' = k1 \<and>
       cout lg' = cout lg @ level_tag (level_value level) @ s @ '' : '' @ take 1023 out @ [CHR 0x0A])
     (LOG os localtime level out (lg, k)) \<and> LOG_FATAL os localtime out (lg, k) = Inl Exit"
proof -
  obtain s where s: "Timestamp_toString localtime t = Inr s" "length s = 19" "read_tm s = tm"
    using toString_columns [of localtime t tm, OF assms(2,3)] by (auto simp: succeeds_def)
  have "snprintf 1024 out = take 1023 out"
    using assms(4) by (auto simp: snprintf_def takeWhile_eq_all_conv dest: in_set_takeD)
  then show ?thesis
    using s assms(1)
    by (simp add: LOG_FATAL_def LOG_def Logger_log_def Logger_setLogLevel_def Timestamp_now_def Timestamp_of_def Let_def)
qed

definition sample_tm :: tm where
  "sample_tm = \<lparr>tm_sec = 5, tm_min = 0, tm_hour = 13, tm_mday = 9, tm_mon = 10, tm_year = 126\<rparr>"

theorem log_line_exact_witness:
  "succeeds (\<lambda>(lg', k'). \<exists>s. read_tm s = sample_tm \<and> cout lg' = ''[ERROR]'' @ s @ '' : '' @ ''full'' @ [CHR 0x0A])
     (LOG sim_os (\<lambda>_. Some sample_tm) ERROR ''full'' (Logger_instance, boot))"
proof -
  obtain t k1 where "sys_time sim_os boot = (t, k1)" by fastforce
  then have "succeeds (\<lambda>(lg', k'). \<exists>s. length s = 19 \<and> read_tm s = sample_tm \<and> k' = k1 \<and>
       cout lg' = cout Logger_instance @ level_tag (level_value ERROR) @ s @ '' : '' @ take 1023 ''full'' @ [CHR 0x0A])
     (LOG sim_os (\<lambda>_. Some sample_tm) ERROR ''full'' (Logger_instance, boot))"
    by (intro log_line_exact [THEN conjunct1]) (simp_all add: tm_in_range_def sample_tm_def)
  then show ?thesis
    by (rule succeeds_mono) (auto simp: Logger_instance_def level_tag_def)
qed

text \<open>
  The level is a field of the one logger, set by one call and read by another: when two threads log at
  once, the steps can interleave so that a message gets the tag of the other thread's level.
\<close>

theorem levels_of_two_threads_mix:
  assumes "localtime t = Some tm" and "tm_in_range tm" and "sys_time os k = (t, k1)"
  shows "succeeds (\<lambda>(lg', k'). \<exists>s. cout lg' = cout lg @ ''[ERROR]'' @ s @ '' : '' @ ''hello'' @ [CHR 0x0A])
     (Logger_log os localtime ''hello''
        (Logger_setLogLevel (level_value ERROR) (Logger_setLogLevel (level_value INFO) lg), k))"
  using toString_columns [of localtime t tm, OF assms(1,2)] assms(3)
  by (auto simp: succeeds_def Logger_log_def Logger_setLogLevel_def Timestamp_now_def Timestamp_of_def level_tag_def Let_def)

end
