(* ===== verification/InetAddress.thy ===== *)
theory InetAddress
  imports Kernel
begin

text \<open>
  \<open>InetAddress\<close> (InetAddress.h, InetAddress.cpp), a wrapper of \<open>sockaddr_in\<close>. \<open>inet_addr\<close> of the C
  library is a parameter (it accepts several notations); \<open>inet_ntop\<close> prints the four bytes in
  dotted decimal, and \<open>htons\<close> swaps the bytes of a port on a little-endian machine.
\<close>

section \<open>The class\<close>

record inet_address =
  m_addr :: sockaddr_in

definition htons :: "16 word \<Rightarrow> 16 word" where
  "htons p = push_bit 8 p OR drop_bit 8 p"

definition ntohs :: "16 word \<Rightarrow> 16 word" where
  "ntohs p = htons p"

definition InetAddress_ctor :: "(string \<Rightarrow> 32 word) \<Rightarrow> 16 word \<Rightarrow> string \<Rightarrow> inet_address" where
  "InetAddress_ctor inet_addr inPort inIp =
     \<lparr>m_addr = \<lparr>sin_family = AF_INET, sin_port = htons inPort, sin_addr = inet_addr inIp\<rparr>\<rparr>"

definition InetAddress_of :: "sockaddr_in \<Rightarrow> inet_address" where
  "InetAddress_of inAddr = \<lparr>m_addr = inAddr\<rparr>"

definition getSockAddr :: "inet_address \<Rightarrow> sockaddr_in" where
  "getSockAddr a = m_addr a"

definition setSockAddr :: "sockaddr_in \<Rightarrow> inet_address \<Rightarrow> inet_address" where
  "setSockAddr inAddr a = a\<lparr>m_addr := inAddr\<rparr>"

text \<open>Byte \<open>i\<close> of an address in network order: the lowest byte of the stored word comes first.\<close>

definition addr_byte :: "32 word \<Rightarrow> nat \<Rightarrow> nat" where
  "addr_byte a i = unat a div 256 ^ i mod 256"

definition inet_ntop :: "32 word \<Rightarrow> string" where
  "inet_ntop a = decimal (addr_byte a 0) @ ''.'' @ decimal (addr_byte a 1) @ ''.'' @
     decimal (addr_byte a 2) @ ''.'' @ decimal (addr_byte a 3)"

definition toIp :: "inet_address \<Rightarrow> string" where
  "toIp a = inet_ntop (sin_addr (m_addr a))"

text \<open>\<open>sprintf\<close> into the 64-byte array behind the address: undefined when it does not fit with the
  terminating zero byte.\<close>

definition toIpPort :: "inet_address \<Rightarrow> string result" where
  "toIpPort a =
     (let buf = inet_ntop (sin_addr (m_addr a));
          port = ntohs (sin_port (m_addr a));
          out = buf @ '':'' @ decimal (unat port)
      in if length out < 64 then Inr out else Inl Undefined)"

definition toPort :: "inet_address \<Rightarrow> 16 word" where
  "toPort a = ntohs (sin_port (m_addr a))"

section \<open>Lemmas\<close>

lemma ntohs_htons: "ntohs (htons p) = p"
  by (rule bit_word_eqI) (auto simp: ntohs_def htons_def bit_simps)

lemma addr_byte_less: "addr_byte a i < 256"
  by (simp add: addr_byte_def)

lemma length_inet_ntop: "length (inet_ntop a) \<le> 15"
proof -
  have "length (decimal (addr_byte a i)) \<le> 3" for i
    using length_decimal [of "addr_byte a i" 2] addr_byte_less [of a i] by simp
  from this [of 0] this [of 1] this [of 2] this [of 3] show ?thesis
    by (simp add: inet_ntop_def)
qed

lemma length_port: "length (decimal (unat (p :: 16 word))) \<le> 5"
proof -
  have "unat p < 2 ^ 16"
    using unsigned_less [where ?'a = nat and ?w = p] by simp
  then show ?thesis
    using length_decimal [of "unat p" 4] by simp
qed

section \<open>Properties\<close>

text \<open>
  The textual form of an address always fits: \<open>toIpPort\<close> never writes past its 64-byte array
  (21 characters at most), and the result is the dotted address, a colon and the port in decimal.
\<close>

theorem toIpPort_bounded:
  "\<exists>s. toIpPort a = Inr s \<and> length s \<le> 21 \<and> s = toIp a @ '':'' @ decimal (unat (toPort a))"
  using length_inet_ntop [of "sin_addr (m_addr a)"] length_port [of "ntohs (sin_port (m_addr a))"]
  by (simp add: toIpPort_def toIp_def toPort_def Let_def)

text \<open>
  The port given to the constructor in host order, stored in network order, is the port
  \<open>toPort\<close> returns.
\<close>

theorem port_roundtrip: "toPort (InetAddress_ctor inet_addr p ip) = p"
  by (simp add: toPort_def InetAddress_ctor_def ntohs_htons)

end
