(* ===== verification/Socket.thy ===== *)
theory Socket
  imports InetAddress
begin

text \<open>
  \<open>Socket\<close> (Socket.h, Socket.cpp), the owner of a socket descriptor. The class has one constant field,
  the descriptor, so an object is the descriptor itself; the operations act on the kernel. The
  destructor closes the descriptor.
\<close>

definition kMaxListenQueueSize :: nat where "kMaxListenQueueSize = 1024"

definition setSocketOption :: "'k os \<Rightarrow> int \<Rightarrow> int \<Rightarrow> int \<Rightarrow> bool \<Rightarrow> 'k \<Rightarrow> 'k" where
  "setSocketOption os sockfd level option value k = sys_setsockopt os sockfd level option (if value then 1 else 0) k"

definition Socket_dtor :: "'k os \<Rightarrow> int \<Rightarrow> 'k \<Rightarrow> 'k" where
  "Socket_dtor os sockfd k = sys_close os sockfd k"

definition bindAddress :: "'k os \<Rightarrow> int \<Rightarrow> inet_address \<Rightarrow> 'k \<Rightarrow> 'k result" where
  "bindAddress os sockfd inLocaladdr k =
     (case sys_bind os sockfd (getSockAddr inLocaladdr) k of (Inl e, k') \<Rightarrow> Inl Exit | (Inr _, k') \<Rightarrow> Inr k')"

definition Socket_listen :: "'k os \<Rightarrow> int \<Rightarrow> 'k \<Rightarrow> 'k result" where
  "Socket_listen os sockfd k =
     (case sys_listen os sockfd kMaxListenQueueSize k of (Inl e, k') \<Rightarrow> Inl Exit | (Inr _, k') \<Rightarrow> Inr k')"

text \<open>\<open>accept\<close> stores the peer in its argument only when there is a connection.\<close>

definition Socket_accept :: "'k os \<Rightarrow> int \<Rightarrow> inet_address \<Rightarrow> 'k \<Rightarrow> (errno + int) \<times> inet_address \<times> 'k" where
  "Socket_accept os sockfd inPeeraddr k =
     (case sys_accept4 os sockfd k of
        (Inr (connfd, addr), k') \<Rightarrow> (Inr connfd, setSockAddr addr inPeeraddr, k')
      | (Inl e, k') \<Rightarrow> (Inl e, inPeeraddr, k'))"

definition shutdownWrite :: "'k os \<Rightarrow> int \<Rightarrow> 'k \<Rightarrow> 'k" where
  "shutdownWrite os sockfd k = snd (sys_shutdown_wr os sockfd k)"

definition setTcpNoDelay :: "'k os \<Rightarrow> int \<Rightarrow> bool \<Rightarrow> 'k \<Rightarrow> 'k" where
  "setTcpNoDelay os sockfd inOn k = setSocketOption os sockfd IPPROTO_TCP TCP_NODELAY inOn k"

definition setReuseAddr :: "'k os \<Rightarrow> int \<Rightarrow> bool \<Rightarrow> 'k \<Rightarrow> 'k" where
  "setReuseAddr os sockfd inOn k = setSocketOption os sockfd SOL_SOCKET SO_REUSEADDR inOn k"

definition setReusePort :: "'k os \<Rightarrow> int \<Rightarrow> bool \<Rightarrow> 'k \<Rightarrow> 'k" where
  "setReusePort os sockfd inOn k = setSocketOption os sockfd SOL_SOCKET SO_REUSEPORT inOn k"

definition setKeepAlive :: "'k os \<Rightarrow> int \<Rightarrow> bool \<Rightarrow> 'k \<Rightarrow> 'k" where
  "setKeepAlive os sockfd inOn k = setSocketOption os sockfd SOL_SOCKET SO_KEEPALIVE inOn k"

lemmas socket_ops = setSocketOption_def bindAddress_def Socket_listen_def Socket_accept_def
  setTcpNoDelay_def setReuseAddr_def setReusePort_def setKeepAlive_def

text \<open>The setters pass 1 or 0, and shutting down ignores an error.\<close>

lemma setKeepAlive_on [simp]: "setKeepAlive os fd True k = sys_setsockopt os fd SOL_SOCKET SO_KEEPALIVE 1 k"
  by (simp add: socket_ops)

lemma shutdownWrite_eq [simp]: "shutdownWrite os fd k = snd (sys_shutdown_wr os fd k)"
  by (simp add: shutdownWrite_def)

text \<open>What the calls on the listening side leave alone: the interest lists, and no getenv.\<close>

definition listen_calls_neutral :: "'k os \<Rightarrow> ('k \<Rightarrow> int \<Rightarrow> int \<Rightarrow> epoll_event option) \<Rightarrow> bool" where
  "listen_calls_neutral os interest \<longleftrightarrow>
     (\<forall>k. interest (snd (sys_socket os k)) = interest k) \<and>
     (\<forall>fd a k. interest (snd (sys_bind os fd a k)) = interest k) \<and>
     (\<forall>fd n k. interest (snd (sys_listen os fd n k)) = interest k) \<and>
     (\<forall>fd k. interest (snd (sys_accept4 os fd k)) = interest k) \<and>
     (\<forall>fd k. interest (snd (sys_getsockname os fd k)) = interest k) \<and>
     (\<forall>fd l opt v k. interest (sys_setsockopt os fd l opt v k) = interest k)"

end
