(* ===== verification/Acceptor.thy ===== *)
theory Acceptor
  imports Channel_Types Socket
begin

text \<open>
  \<open>Acceptor\<close> (Acceptor.h, Acceptor.cpp): the listening socket and its channel. The callback for new
  connections is named by a number and run by the argument \<open>newConn\<close>. The channel is destroyed with
  the object, after \<open>disableAll\<close> and \<open>remove\<close>, and the socket after it.
\<close>

section \<open>The class\<close>

record acceptor =
  m_acLoop :: loop_ptr
  m_acceptSocket :: int
  m_acceptChannel :: chan_ptr
  m_newConnectionCallback :: "nat option"
  m_listenning :: bool

definition createNonblocking :: "'k os \<Rightarrow> 'k \<Rightarrow> (int \<times> 'k) result" where
  "createNonblocking os k = (case sys_socket os k of (Inl e, k') \<Rightarrow> Inl Exit | (Inr fd, k') \<Rightarrow> Inr (fd, k'))"

text \<open>The constructor, with the channel at \<open>c\<close>.\<close>

definition Acceptor_ctor ::
    "'k os \<Rightarrow> chan_ptr \<Rightarrow> loop_ptr \<Rightarrow> inet_address \<Rightarrow> bool \<Rightarrow> ('k, 'z) lsys_scheme \<Rightarrow>
       (acceptor \<times> ('k, 'z) lsys_scheme) result" where
  "Acceptor_ctor os c inLoop inListenAddr inReusePort w =
     andThen (createNonblocking os (kern w)) (\<lambda>(fd, k1).
       let w1 = upd_chan c (\<lambda>_. Channel_ctor inLoop fd) (w\<lparr>kern := k1\<rparr>);
           k2 = setReuseAddr os fd True (kern w1);
           k3 = setReusePort os fd inReusePort k2
       in andThen (bindAddress os fd inListenAddr k3) (\<lambda>k4.
            Inr (\<lparr>m_acLoop = inLoop, m_acceptSocket = fd, m_acceptChannel = c,
                   m_newConnectionCallback = None, m_listenning = False\<rparr>,
                 upd_chan c (setReadCallback Acceptor_handleRead_cb) (w1\<lparr>kern := k4\<rparr>))))"

definition setNewConnectionCallback :: "nat option \<Rightarrow> acceptor \<Rightarrow> acceptor" where
  "setNewConnectionCallback inCallback a = a\<lparr>m_newConnectionCallback := inCallback\<rparr>"

definition listenning :: "acceptor \<Rightarrow> bool" where
  "listenning a \<longleftrightarrow> m_listenning a"

definition Acceptor_dtor :: "'k os \<Rightarrow> acceptor \<Rightarrow> ('k, 'z) lsys_scheme \<Rightarrow> ('k, 'z) lsys_scheme result" where
  "Acceptor_dtor os a w =
     andThen (disableAll os (m_acceptChannel a) w) (\<lambda>w1.
     andThen (Channel_remove os (m_acceptChannel a) w1) (\<lambda>w2.
       Inr (w2\<lparr>kern := Socket_dtor os (m_acceptSocket a) (kern w2)\<rparr>)))"

definition Acceptor_listen ::
    "'k os \<Rightarrow> acceptor \<Rightarrow> ('k, 'z) lsys_scheme \<Rightarrow> (acceptor \<times> ('k, 'z) lsys_scheme) result" where
  "Acceptor_listen os a w =
     (let a1 = a\<lparr>m_listenning := True\<rparr> in
      andThen (Socket_listen os (m_acceptSocket a1) (kern w)) (\<lambda>k1.
      andThen (enableReading os (m_acceptChannel a1) (w\<lparr>kern := k1\<rparr>)) (\<lambda>w1. Inr (a1, w1))))"

text \<open>\<open>peerAddr\<close> starts as the default address; it is passed on only when \<open>accept\<close> has set it.\<close>

definition Acceptor_handleRead ::
    "'k os \<Rightarrow> inet_address \<Rightarrow> (nat \<Rightarrow> int \<Rightarrow> inet_address \<Rightarrow> ('k, 'z) lsys_scheme \<Rightarrow> ('k, 'z) lsys_scheme result) \<Rightarrow>
       acceptor \<Rightarrow> ('k, 'z) lsys_scheme \<Rightarrow> ('k, 'z) lsys_scheme result" where
  "Acceptor_handleRead os default_addr newConn a w =
     (case Socket_accept os (m_acceptSocket a) default_addr (kern w) of
        (Inr connectionFd, peerAddr, k1) \<Rightarrow>
          (case m_newConnectionCallback a of
             Some cb \<Rightarrow> newConn cb connectionFd peerAddr (w\<lparr>kern := k1\<rparr>)
           | None \<Rightarrow> Inr (w\<lparr>kern := sys_close os connectionFd k1\<rparr>))
      | (Inl e, peerAddr, k1) \<Rightarrow> Inr (w\<lparr>kern := k1\<rparr>))"

section \<open>A new channel\<close>

text \<open>
  A new channel, at an address no poller knows, for a descriptor the kernel does not watch, can be
  registered; this is the situation of the accept channel and of the channel of a new connection.
\<close>

definition new_place ::
    "('k \<Rightarrow> int \<Rightarrow> int \<Rightarrow> epoll_event option) \<Rightarrow> loop_ptr \<Rightarrow> chan_ptr \<Rightarrow> int \<Rightarrow> ('k, 'z) sys_scheme \<Rightarrow> bool" where
  "new_place interest l c fd w \<longleftrightarrow> poller_inv interest {} l w \<and> m_channelStatus (chan w c) \<noteq> kStatusAdded \<and>
     interest (kern w) (m_epollfd (poller_of w l)) fd = None"

lemma new_channel_registry:
  assumes ct: "epoll_contract os interest" and new: "new_place interest l c fd w"
    and eq: "chan w' = (chan w)(c := ch)" "poller_of w' = poller_of w" "interest (kern w') = interest (kern w)"
    and ch: "m_chLoop ch = l" "m_fd ch = fd" "m_channelStatus ch = kStatusNew"
  shows "registry_ok os interest c w'"
proof -
  have inv: "poller_inv interest {} l w" and st: "m_channelStatus (chan w c) \<noteq> kStatusAdded"
    and free: "interest (kern w) (m_epollfd (poller_of w l)) fd = None"
    using new by (simp_all add: new_place_def)
  note D = poller_invD [OF inv]
  have known: "ev_ptr ev \<noteq> c" if "interest (kern w) (m_epollfd (poller_of w l)) x = Some ev" for x ev
    using D(1) [OF that] st by blast
  have mapped: "x \<noteq> c" if "m_channels (poller_of w l) fd' = Some x" for fd' x
    using D(4) [OF that] st by blast
  have "poller_inv interest {} l w'"
  proof (rule poller_invI)
    fix x ev assume "interest (kern w') (m_epollfd (poller_of w' l)) x = Some ev"
    then have i: "interest (kern w) (m_epollfd (poller_of w l)) x = Some ev" by (simp add: eq)
    then show "m_chLoop (chan w' (ev_ptr ev)) = l \<and> m_fd (chan w' (ev_ptr ev)) = x \<and>
        m_channelStatus (chan w' (ev_ptr ev)) = kStatusAdded"
      using D(1) [OF i] known [OF i] by (simp add: eq)
    show "ev_events ev = m_events (chan w' (ev_ptr ev))"
      using D(2) [OF i] known [OF i] by (simp add: eq)
  next
    fix x assume "m_chLoop (chan w' x) = l" "m_channelStatus (chan w' x) = kStatusAdded"
    then have "x \<noteq> c" "m_chLoop (chan w x) = l" "m_channelStatus (chan w x) = kStatusAdded"
      using ch by (auto simp: eq split: if_splits)
    then show "\<exists>ev. interest (kern w') (m_epollfd (poller_of w' l)) (m_fd (chan w' x)) = Some ev \<and> ev_ptr ev = x"
      using D(3) by (simp add: eq)
  next
    fix fd' x assume "m_channels (poller_of w' l) fd' = Some x"
    then have i: "m_channels (poller_of w l) fd' = Some x" by (simp add: eq)
    show "m_chLoop (chan w' x) = l \<and> m_fd (chan w' x) = fd' \<and> m_channelStatus (chan w' x) = kStatusAdded"
      using D(4) [OF i] mapped [OF i] by (simp add: eq)
  next
    fix x assume "m_chLoop (chan w' x) = l"
    then show "m_channelStatus (chan w' x) \<in> {kStatusNew, kStatusAdded, kStatusDeleted}"
      using D(5) [of x] ch by (auto simp: eq split: if_splits)
  qed
  moreover have "fd_free l c w'"
  proof (unfold fd_free_def, intro allI impI notI)
    fix x assume x: "x \<noteq> c \<and> m_chLoop (chan w' x) = l \<and> m_fd (chan w' x) = m_fd (chan w' c)"
      and "m_channelStatus (chan w' x) = kStatusAdded"
    then show False
      using D(3) [of x] free by (auto simp: eq ch)
  qed
  ultimately show ?thesis
    using ct by (simp add: registry_ok_def eq ch)
qed

lemma Acceptor_ctor_ready:
  assumes ct: "epoll_contract os interest" and nt: "listen_calls_neutral os interest"
    and sock: "sys_socket os (kern w) = (Inr fd, k1)" and new: "new_place interest l c fd (w\<lparr>kern := k1\<rparr>)"
    and bind: "\<And>k. \<exists>k'. sys_bind os fd (getSockAddr addr) k = (Inr (), k')"
  shows "succeeds (\<lambda>(a, w'). registry_ok os interest c w' \<and> a = \<lparr>m_acLoop = l, m_acceptSocket = fd,
       m_acceptChannel = c, m_newConnectionCallback = None, m_listenning = False\<rparr> \<and>
     chan w' = (chan w)(c := setReadCallback Acceptor_handleRead_cb (Channel_ctor l fd)) \<and>
     poller_of w' = poller_of w \<and> loop_of w' = loop_of w \<and> cur_thread w' = cur_thread w)
     (Acceptor_ctor os c l addr reuse w)"
proof -
  let ?k = "setReusePort os fd reuse (setReuseAddr os fd True k1)"
  obtain k4 where k4: "sys_bind os fd (getSockAddr addr) ?k = (Inr (), k4)"
    using bind by blast
  have "interest k4 = interest (snd (sys_bind os fd (getSockAddr addr) ?k))"
    by (simp add: k4)
  also have "\<dots> = interest k1"
    using nt by (simp add: listen_calls_neutral_def socket_ops)
  finally have k: "interest k4 = interest k1" .
  define w' where "w' = upd_chan c (setReadCallback Acceptor_handleRead_cb)
      ((upd_chan c (\<lambda>_. Channel_ctor l fd) (w\<lparr>kern := k1\<rparr>))\<lparr>kern := k4\<rparr>)"
  have ch: "chan w' = (chan w)(c := setReadCallback Acceptor_handleRead_cb (Channel_ctor l fd))"
    and same: "poller_of w' = poller_of w" "kern w' = k4" "loop_of w' = loop_of w" "cur_thread w' = cur_thread w"
    by (simp_all add: w'_def upd_chan_def)
  have "registry_ok os interest c w'"
    by (rule new_channel_registry [OF ct new, of _ "setReadCallback Acceptor_handleRead_cb (Channel_ctor l fd)"])
      (simp_all add: ch same k setReadCallback_def Channel_ctor_def status_values)
  moreover have "Acceptor_ctor os c l addr reuse w = Inr (\<lparr>m_acLoop = l, m_acceptSocket = fd, m_acceptChannel = c,
      m_newConnectionCallback = None, m_listenning = False\<rparr>, w')"
    by (simp add: Acceptor_ctor_def createNonblocking_def sock Let_def bindAddress_def k4 w'_def upd_chan_def)
  ultimately show ?thesis
    using ch same by simp
qed

lemma Acceptor_listen_watches:
  assumes ok: "registry_ok os interest (m_acceptChannel a) w" and nt: "listen_calls_neutral os interest"
    and listen: "sys_listen os (m_acceptSocket a) kMaxListenQueueSize (kern w) = (Inr (), k1)"
  shows "succeeds (\<lambda>(a', w'). a' = a\<lparr>m_listenning := True\<rparr> \<and> registry_ok os interest (m_acceptChannel a) w' \<and>
     channel_watched interest (m_acceptChannel a) w' = Some (m_events (chan w (m_acceptChannel a)) OR kReadEvent))
     (Acceptor_listen os a w)"
proof -
  let ?c = "m_acceptChannel a"
  have k1: "interest k1 = interest (kern w)"
    using nt listen unfolding listen_calls_neutral_def by (metis snd_conv)
  have ok1: "registry_ok os interest ?c (w\<lparr>kern := k1\<rparr>)"
    using ok k1 by (simp add: registry_ok_def poller_inv_def fd_free_def)
  obtain w' where w': "enableReading os ?c (w\<lparr>kern := k1\<rparr>) = Inr w'" "registry_ok os interest ?c w'"
      "channel_watched interest ?c w' = Some (m_events (chan w ?c) OR kReadEvent)"
    using change_mask_registers [OF ok1, of "\<lambda>m. m OR kReadEvent"] read_mask_nonzero
    by (auto simp: succeeds_def channel_ops_change_mask)
  then show ?thesis
    by (simp add: Acceptor_listen_def Let_def Socket_listen_def listen)
qed

lemma Acceptor_dtor_unregisters:
  fixes w :: "('k, 'z) lsys_scheme"
  assumes "registry_ok os interest (m_acceptChannel a) w"
  shows "\<exists>w2 :: ('k, 'z) lsys_scheme. channel_watched interest (m_acceptChannel a) w2 = None \<and>
     \<not> hasChannel (m_chLoop (chan w (m_acceptChannel a))) (m_acceptChannel a) w2 \<and>
     Acceptor_dtor os a w = Inr (w2\<lparr>kern := sys_close os (m_acceptSocket a) (kern w2)\<rparr>)"
proof -
  let ?c = "m_acceptChannel a"
  obtain w1 where w1: "change_mask os (\<lambda>_. 0) ?c w = Inr w1" "registry_ok os interest ?c w1"
    using change_mask_registers [OF assms, of "\<lambda>_. 0"] by (auto simp: succeeds_def)
  have "m_chLoop (chan w1 ?c) = m_chLoop (chan w ?c)"
    using touches_fields(1) [OF change_mask_touches [OF w1(1)]] by simp
  then show ?thesis
    using Channel_remove_unregisters [OF w1(2)] w1(1)
    by (auto simp: succeeds_def Acceptor_dtor_def channel_ops_change_mask Socket_dtor_def)
qed

section \<open>Properties\<close>

text \<open>
  C27: Constructing an acceptor and making it listen, on a kernel that grants the calls, leaves its
  channel registered: the kernel watches the listening socket for input and nothing else, with the
  accept handler as the read callback. Destroying it makes the kernel and the poller forget the
  channel first, and closes the socket last.
\<close>

theorem acceptor_listens:
  fixes w :: "('k, 'z) lsys_scheme"
  assumes "epoll_contract os interest" and "listen_calls_neutral os interest"
    and "sys_socket os (kern w) = (Inr fd, k1)" and "new_place interest l c fd (w\<lparr>kern := k1\<rparr>)"
    and "\<forall>k. \<exists>k'. sys_bind os fd (getSockAddr addr) k = (Inr (), k')"
    and "\<forall>k. \<exists>k'. sys_listen os fd kMaxListenQueueSize k = (Inr (), k')"
  shows "succeeds (\<lambda>(a, w'). m_listenning a \<and> registry_ok os interest c w' \<and>
       channel_watched interest c w' = Some kReadEvent \<and> m_readCallback (chan w' c) = Some Acceptor_handleRead_cb \<and>
       (\<exists>w2 :: ('k, 'z) lsys_scheme. channel_watched interest c w2 = None \<and> \<not> hasChannel l c w2 \<and>
          Acceptor_dtor os a w' = Inr (w2\<lparr>kern := sys_close os fd (kern w2)\<rparr>)))
     (andThen (Acceptor_ctor os c l addr reuse w) (\<lambda>(a, w1). Acceptor_listen os a w1))"
proof -
  obtain a w1 where a: "Acceptor_ctor os c l addr reuse w = Inr (a, w1)" "registry_ok os interest c w1"
      "m_acceptSocket a = fd" "m_acceptChannel a = c"
      "chan w1 = (chan w)(c := setReadCallback Acceptor_handleRead_cb (Channel_ctor l fd))"
    using Acceptor_ctor_ready [OF assms(1-4), of addr reuse] assms(5) by (auto simp: succeeds_def)
  obtain k2 where k2: "sys_listen os (m_acceptSocket a) kMaxListenQueueSize (kern w1) = (Inr (), k2)"
    using assms(6) a(3) by metis
  have "m_events (chan w1 c) = 0"
    by (simp add: a(5) setReadCallback_def Channel_ctor_def)
  then obtain w2 where w2: "Acceptor_listen os a w1 = Inr (a\<lparr>m_listenning := True\<rparr>, w2)"
      "registry_ok os interest c w2" "channel_watched interest c w2 = Some kReadEvent"
    using Acceptor_listen_watches [OF _ assms(2) k2] a(2,4) by (auto simp: succeeds_def)
  have "enableReading os c (w1\<lparr>kern := k2\<rparr>) = Inr w2"
    using w2(1) a(4) by (simp add: Acceptor_listen_def Let_def Socket_listen_def k2 andThen_eq_Inr)
  then have "m_readCallback (chan w2 c) = Some Acceptor_handleRead_cb \<and> m_chLoop (chan w2 c) = l"
    using touches_chan [OF change_mask_touches] a(5)
    by (fastforce simp: channel_ops_change_mask setReadCallback_def setChannelStatus_def Channel_ctor_def)
  then show ?thesis
    using Acceptor_dtor_unregisters [of os interest "a\<lparr>m_listenning := True\<rparr>" w2] a(1,3,4) w2 by simp
qed

lemma sim_listen_neutral: "listen_calls_neutral sim_os k_interest"
  by (auto simp: listen_calls_neutral_def sim_fd_def split: list.split prod.split)

theorem acceptor_listens_witness:
  "succeeds (\<lambda>(a, w'). m_listenning a \<and> channel_watched k_interest 8 w' = Some kReadEvent)
     (andThen (Acceptor_ctor sim_os 8 0 (InetAddress_ctor (\<lambda>_. 0) 80 ''0.0.0.0'') True boot_world)
       (\<lambda>(a, w1). Acceptor_listen sim_os a w1))"
proof -
  obtain fd k1 where k1: "sys_socket sim_os (kern boot_world) = (Inr fd, k1)" "k_interest k1 = k_interest boot"
    by (simp add: sim_fd_def boot_world_def)
  have "new_place k_interest 0 8 fd (boot_world\<lparr>kern := k1\<rparr>)"
    using k1(2) by (simp add: new_place_def poller_inv_def boot_world_def Channel_ctor_def status_values boot_def)
  from acceptor_listens [OF sim_epoll sim_listen_neutral k1(1) this] show ?thesis
    by (rule succeeds_mono) auto
qed

end
