(* ===== verification/EventLoopThread.thy ===== *)
theory EventLoopThread
  imports EventLoop
begin

text \<open>
  \<open>Thread\<close> (Thread.h, Thread.cpp) and \<open>EventLoopThread\<close> (EventLoopThread.h, EventLoopThread.cpp). The
  bookkeeping of \<open>Thread\<close> is sequential. The handshake of \<open>EventLoopThread\<close> (starting the thread,
  publishing the loop, waiting for it, ending it) is a step relation between the owner's thread and
  the new thread; a critical section of \<open>m_mutex\<close> without a wait is one step. What \<open>startLoop\<close> has
  done when it returns is the sequential function \<open>startLoop\<close>, which the pool calls.
\<close>

section \<open>Thread\<close>

text \<open>The \<open>std::thread\<close> object behind \<open>m_threadPtr\<close>.\<close>

datatype std_thread = No_thread | Joinable | Not_joinable

record thread =
  m_started :: bool
  m_joined :: bool
  m_joinOnDestroy :: bool
  m_thName :: string
  m_tid :: int
  m_threadPtr :: std_thread

text \<open>\<open>s_numCreated\<close> is an atomic 32-bit counter: its increment wraps. \<open>setDefaultName\<close> counts every
  thread, and names those without a name.\<close>

definition setDefaultName :: "int32 \<Rightarrow> string \<Rightarrow> string \<times> int32" where
  "setDefaultName numCreated name =
     (let num = numCreated + 1 in
      (if name = [] then ''Thread'' @ to_string_int (sint num) else name, num))"

definition Thread_ctor :: "string \<Rightarrow> bool \<Rightarrow> int32 \<Rightarrow> thread \<times> int32" where
  "Thread_ctor inName inJoinOnDestroy numCreated =
     (let (name, num) = setDefaultName numCreated inName in
      (\<lparr>m_started = False, m_joined = False, m_joinOnDestroy = inJoinOnDestroy, m_thName = name,
        m_tid = 0, m_threadPtr = No_thread\<rparr>, num))"

text \<open>\<open>tid\<close> is what \<open>gettid\<close> returns in the new thread; \<open>start\<close> returns after it has been stored.\<close>

definition Thread_start :: "int \<Rightarrow> thread \<Rightarrow> thread" where
  "Thread_start tid t =
     (if \<not> m_started t then t\<lparr>m_started := True, m_threadPtr := Joinable, m_tid := tid\<rparr> else t)"

text \<open>\<open>std::thread::join\<close> and \<open>detach\<close> throw when the thread is not joinable.\<close>

definition std_release :: "std_thread \<Rightarrow> std_thread result" where
  "std_release s = (case s of Joinable \<Rightarrow> Inr Not_joinable | Not_joinable \<Rightarrow> Inl SystemError | No_thread \<Rightarrow> Inl Undefined)"

definition Thread_join :: "thread \<Rightarrow> thread result" where
  "Thread_join t =
     (if m_started t then andThen (std_release (m_threadPtr t)) (\<lambda>s. Inr (t\<lparr>m_threadPtr := s, m_joined := True\<rparr>))
      else Inr t)"

definition Thread_dtor :: "thread \<Rightarrow> thread result" where
  "Thread_dtor t =
     (if m_started t \<and> \<not> m_joined t then
        (if m_joinOnDestroy t then andThen (std_release (m_threadPtr t)) (\<lambda>s. Inr (t\<lparr>m_threadPtr := s\<rparr>))
         else andThen (std_release (m_threadPtr t)) (\<lambda>s. Inr (t\<lparr>m_threadPtr := s\<rparr>)))
      else Inr t)"

text \<open>The queries; \<open>numCreated\<close> reads the counter.\<close>

definition Thread_started :: "thread \<Rightarrow> bool" where "Thread_started t \<longleftrightarrow> m_started t"
definition Thread_tid :: "thread \<Rightarrow> int" where "Thread_tid t = m_tid t"
definition Thread_name :: "thread \<Rightarrow> string" where "Thread_name t = m_thName t"
definition Thread_numCreated :: "int32 \<Rightarrow> int" where "Thread_numCreated numCreated = sint numCreated"

text \<open>The flags say what the \<open>std::thread\<close> needs.\<close>

definition thread_ok :: "thread \<Rightarrow> bool" where
  "thread_ok t \<longleftrightarrow>
     m_threadPtr t = (if \<not> m_started t then No_thread else if m_joined t then Not_joinable else Joinable) \<and>
     (m_joined t \<longrightarrow> m_started t)"

lemma thread_ok_ctor: "thread_ok (fst (Thread_ctor name j n))"
  by (simp add: thread_ok_def Thread_ctor_def setDefaultName_def Let_def)

lemma thread_ok_start: "thread_ok t \<Longrightarrow> thread_ok (Thread_start tid t)"
  by (auto simp: thread_ok_def Thread_start_def split: if_splits)

lemma thread_ok_join:
  "thread_ok t \<Longrightarrow> (m_joined t \<longrightarrow> Thread_join t = Inl SystemError) \<and>
     (\<not> m_joined t \<longrightarrow> succeeds thread_ok (Thread_join t))"
  by (cases "m_started t"; cases "m_joined t") (simp_all add: thread_ok_def Thread_join_def std_release_def)

text \<open>A run of \<open>start\<close> and \<open>join\<close> calls.\<close>

datatype thread_call = Call_start int | Call_join

fun thread_run :: "thread_call list \<Rightarrow> thread \<Rightarrow> thread result" where
  "thread_run [] t = Inr t"
| "thread_run (Call_start tid # cs) t = thread_run cs (Thread_start tid t)"
| "thread_run (Call_join # cs) t = andThen (Thread_join t) (thread_run cs)"

lemma thread_run_ok: "thread_ok t \<Longrightarrow> holds thread_ok (thread_run cs t)"
proof (induction cs arbitrary: t)
  case (Cons c cs)
  show ?case
  proof (cases c)
    case (Call_start tid)
    then show ?thesis using Cons thread_ok_start by simp
  next
    case Call_join
    have "holds thread_ok (Thread_join t)"
      using thread_ok_join [OF Cons.prems] by (cases "m_joined t") (auto intro: succeeds_holds)
    then show ?thesis
      using Cons.IH by (simp add: Call_join) (rule holds_andThen)
  qed
qed simp

section \<open>EventLoopThread\<close>

text \<open>
  The callback is named by a number and run by the argument \<open>init\<close>. \<open>l\<close>, \<open>c\<close> and \<open>tid\<close> are the addresses
  the new loop and its wakeup channel get and the id of the new thread. \<open>threadFunc_begin\<close> is
  \<open>threadFunc\<close> up to \<open>loop()\<close>, in the new thread; \<open>threadFunc_end\<close> what follows \<open>loop()\<close>, the destruction
  of the loop object included.
\<close>

record loopthread =
  m_elLoop :: "loop_ptr option"
  m_exiting :: bool
  m_thread :: thread
  m_callback :: "nat option"

definition EventLoopThread_ctor :: "nat option \<Rightarrow> string \<Rightarrow> int32 \<Rightarrow> loopthread \<times> int32" where
  "EventLoopThread_ctor inCallback inName numCreated =
     (let (th, num) = Thread_ctor inName True numCreated in
      (\<lparr>m_elLoop = None, m_exiting = False, m_thread = th, m_callback = inCallback\<rparr>, num))"

definition threadFunc_begin ::
    "'k os \<Rightarrow> (nat \<Rightarrow> loop_ptr \<Rightarrow> ('k, 'z) lsys_scheme \<Rightarrow> ('k, 'z) lsys_scheme result) \<Rightarrow> loop_ptr \<Rightarrow> chan_ptr \<Rightarrow>
       loopthread \<Rightarrow> ('k, 'z) lsys_scheme \<Rightarrow> (loopthread \<times> ('k, 'z) lsys_scheme) result" where
  "threadFunc_begin os init l c t w =
     andThen (EventLoop_ctor os l c w) (\<lambda>w1.
     andThen (case m_callback t of None \<Rightarrow> Inr w1 | Some cb \<Rightarrow> init cb l w1) (\<lambda>w2.
       Inr (t\<lparr>m_elLoop := Some l\<rparr>, w2)))"

definition threadFunc_end ::
    "'k os \<Rightarrow> loop_ptr \<Rightarrow> loopthread \<Rightarrow> ('k, 'z) lsys_scheme \<Rightarrow> (loopthread \<times> ('k, 'z) lsys_scheme) result" where
  "threadFunc_end os l t w = andThen (EventLoop_dtor os l w) (\<lambda>w1. Inr (t\<lparr>m_elLoop := None\<rparr>, w1))"

definition startLoop ::
    "'k os \<Rightarrow> (nat \<Rightarrow> loop_ptr \<Rightarrow> ('k, 'z) lsys_scheme \<Rightarrow> ('k, 'z) lsys_scheme result) \<Rightarrow>
       loop_ptr \<times> chan_ptr \<times> int \<Rightarrow> loopthread \<Rightarrow> ('k, 'z) lsys_scheme \<Rightarrow>
       (loop_ptr \<times> loopthread \<times> ('k, 'z) lsys_scheme) result" where
  "startLoop os init place t w =
     (let (l, c, tid) = place in
      andThen
        (if \<not> m_started (m_thread t) then
           andThen (threadFunc_begin os init l c (t\<lparr>m_thread := Thread_start tid (m_thread t)\<rparr>) (w\<lparr>cur_thread := tid\<rparr>))
             (\<lambda>(t1, w1). Inr (t1, w1\<lparr>cur_thread := cur_thread w\<rparr>))
         else Inr (t, w)) (\<lambda>(t1, w1).
      case m_elLoop t1 of None \<Rightarrow> Inl Blocked | Some loop \<Rightarrow> Inr (loop, t1, w1)))"

lemma EventLoop_ctor_frame:
  fixes w :: "('k, 'z) lsys_scheme"
  shows "holds (\<lambda>w'. cur_thread w' = cur_thread w \<and>
       t_loopInThisThread w' = (t_loopInThisThread w)(cur_thread w := Some l) \<and>
       m_threadId (loop_of w' l) = cur_thread w \<and> (\<forall>l'. l' \<noteq> l \<longrightarrow> loop_of w' l' = loop_of w l') \<and>
       m_chLoop (chan w' c) = l \<and> (\<forall>c'. c' \<noteq> c \<longrightarrow> chan w' c' = chan w c')) (EventLoop_ctor os l c w)"
proof (unfold holds_def, intro allI impI)
  fix w' assume "EventLoop_ctor os l c w = Inr w'"
  then obtain w0 where w0: "enableReading os c w0 = Inr w'"
    and f: "cur_thread w0 = cur_thread w" "t_loopInThisThread w0 = (t_loopInThisThread w)(cur_thread w := Some l)"
      "m_threadId (loop_of w0 l) = cur_thread w" "\<And>l'. l' \<noteq> l \<Longrightarrow> loop_of w0 l' = loop_of w l'"
      "m_chLoop (chan w0 c) = l" "\<And>c'. c' \<noteq> c \<Longrightarrow> chan w0 c' = chan w c'"
    by (auto simp: EventLoop_ctor_def andThen_eq_Inr Let_def upd_loop_def upd_chan_def upd_poller_def
        setReadCallback_def Channel_ctor_def split: if_splits option.splits)
  have m: "change_mask os (\<lambda>m. m OR kReadEvent) c w0 = Inr w'"
    using w0 by (simp add: channel_ops_change_mask)
  show "cur_thread w' = cur_thread w \<and>
       t_loopInThisThread w' = (t_loopInThisThread w)(cur_thread w := Some l) \<and>
       m_threadId (loop_of w' l) = cur_thread w \<and> (\<forall>l'. l' \<noteq> l \<longrightarrow> loop_of w' l' = loop_of w l') \<and>
       m_chLoop (chan w' c) = l \<and> (\<forall>c'. c' \<noteq> c \<longrightarrow> chan w' c' = chan w c')"
    using change_mask_loops [OF m] f touches_chan [OF change_mask_touches [OF m]]
    by (auto simp: setChannelStatus_def)
qed

text \<open>What the callers of \<open>startLoop\<close> rely on: a kernel with descriptors to spare and no
  \<open>MUDUO_USE_POLL\<close>; an initialization callback that returns in the thread it was called in and
  gives channels only to the loop it was called with.\<close>

definition working_kernel :: "'k os \<Rightarrow> bool" where
  "working_kernel os \<longleftrightarrow>
     (\<forall>k. (\<exists>fd k'. sys_epoll_create1 os k = (Inr fd, k')) \<and> (\<exists>fd k'. sys_eventfd os k = (Inr fd, k')) \<and>
          sys_getenv os ''MUDUO_USE_POLL'' k = None)"

definition init_keeps :: "loop_ptr \<Rightarrow> ('k, 'z) lsys_scheme \<Rightarrow> ('k, 'z) lsys_scheme \<Rightarrow> bool" where
  "init_keeps l w w' \<longleftrightarrow> cur_thread w' = cur_thread w \<and> t_loopInThisThread w' = t_loopInThisThread w \<and>
     (\<forall>l'. m_threadId (loop_of w' l') = m_threadId (loop_of w l')) \<and>
     (\<forall>c. m_chLoop (chan w' c) = m_chLoop (chan w c) \<or> m_chLoop (chan w' c) = l)"

definition init_ok :: "(nat \<Rightarrow> loop_ptr \<Rightarrow> ('k, 'z) lsys_scheme \<Rightarrow> ('k, 'z) lsys_scheme result) \<Rightarrow> bool" where
  "init_ok init \<longleftrightarrow> (\<forall>cb l w. succeeds (init_keeps l w) (init cb l w))"

text \<open>A new loop in a new thread: what is new, and that the rest of the world keeps its threads.\<close>

definition opened :: "loop_ptr \<Rightarrow> int \<Rightarrow> ('k, 'z) lsys_scheme \<Rightarrow> ('k, 'z) lsys_scheme \<Rightarrow> bool" where
  "opened l tid w w' \<longleftrightarrow> cur_thread w' = cur_thread w \<and>
     t_loopInThisThread w' = (t_loopInThisThread w)(tid := Some l) \<and> m_threadId (loop_of w' l) = tid \<and>
     (\<forall>l'. l' \<noteq> l \<longrightarrow> m_threadId (loop_of w' l') = m_threadId (loop_of w l')) \<and>
     (\<forall>c. m_chLoop (chan w' c) = m_chLoop (chan w c) \<or> m_chLoop (chan w' c) = l)"

lemma startLoop_opens:
  fixes w :: "('k, 'z) lsys_scheme"
  assumes ct: "epoll_contract os interest" "fresh_epoll_contract os interest" "working_kernel os" "init_ok init"
    and new: "\<not> m_started (m_thread t)" "t_loopInThisThread w tid = None" "\<forall>c'. m_chLoop (chan w c') \<noteq> l"
  shows "succeeds (\<lambda>(loop, t', w'). loop = l \<and> t' = t\<lparr>m_thread := Thread_start tid (m_thread t), m_elLoop := Some l\<rparr> \<and>
      opened l tid w w') (startLoop os init (l, c, tid) t w)"
proof -
  let ?w = "w\<lparr>cur_thread := tid\<rparr>"
  let ?F = "\<lambda>w'. cur_thread w' = tid \<and> t_loopInThisThread w' = (t_loopInThisThread w)(tid := Some l) \<and>
       m_threadId (loop_of w' l) = tid \<and> (\<forall>l'. l' \<noteq> l \<longrightarrow> loop_of w' l' = loop_of w l') \<and>
       m_chLoop (chan w' c) = l \<and> (\<forall>c'. c' \<noteq> c \<longrightarrow> chan w' c' = chan w c')"
  obtain epfd k1 where k1: "sys_epoll_create1 os (kern ?w) = (Inr epfd, k1)" "sys_getenv os ''MUDUO_USE_POLL'' (kern ?w) = None"
    using ct(3) unfolding working_kernel_def by blast
  obtain wfd k2 where k2: "sys_eventfd os k1 = (Inr wfd, k2)"
    using ct(3) unfolding working_kernel_def by blast
  have "succeeds (\<lambda>_. True) (EventLoop_ctor os l c ?w)"
    by (rule succeeds_mono [OF EventLoop_ctor_state [OF ct(1,2) k1(2,1) k2]]) (use new in simp_all)
  then obtain w1 where w1: "EventLoop_ctor os l c ?w = Inr w1"
    by (auto simp: succeeds_def)
  have F: "?F w1"
    using holdsD [OF EventLoop_ctor_frame w1] by simp
  let ?cb = "case m_callback t of None \<Rightarrow> Inr w1 | Some cb \<Rightarrow> init cb l w1"
  have "succeeds (init_keeps l w1) ?cb"
    using ct(4) by (cases "m_callback t") (auto simp: init_ok_def init_keeps_def)
  then obtain w2 where w2: "?cb = Inr w2" "init_keeps l w1 w2"
    by (auto simp: succeeds_def)
  have "opened l tid w (w2\<lparr>cur_thread := cur_thread w\<rparr>)"
    using F w2(2) unfolding opened_def init_keeps_def by simp metis
  then show ?thesis
    using w1 w2(1) new(1) by (simp add: startLoop_def threadFunc_begin_def)
qed

section \<open>The handshake of EventLoopThread\<close>

text \<open>
  Where the new thread is: not created; in \<open>Thread::start\<close>'s lambda before it has posted the
  semaphore; constructing the loop; running the initialization callback; about to publish the loop;
  about to enter \<open>loop()\<close>, which resets \<open>m_quit\<close>; in it; past it; past the last critical section (the pointer is null, the loop object still
  exists); ended (the loop object is destroyed).
\<close>

datatype loop_thread_pc =
  T_none | T_begin | T_construct | T_callback | T_publish | T_enter | T_loop | T_left | T_cleared | T_ended

text \<open>Where the owner is: before \<open>startLoop\<close>; waiting for the semaphore in \<open>Thread::start\<close>; before the
  test of \<open>m_loop\<close>; in \<open>m_cond.wait\<close>; returned from \<open>startLoop\<close>; in the destructor before \<open>quit()\<close>,
  before a \<open>join()\<close>, and past it. When the destructor finds \<open>m_loop\<close> null it calls neither \<open>quit()\<close> nor
  \<open>join()\<close>; then the destructor of the member \<open>m_thread\<close> joins, which is the same wait.\<close>

datatype owner_pc = O_start | O_sem | O_test | O_wait | O_running | O_quit | O_join | O_end

text \<open>\<open>h_built\<close>: the \<open>EventLoop\<close> object exists; \<open>h_loop\<close>: \<open>m_loop\<close> is not null; \<open>h_called\<close>: the callback
  has run; \<open>h_stray\<close>: somebody other than the owner has made the loop end; \<open>h_dangling\<close>: the owner has
  called \<open>quit()\<close> on a loop that no longer exists.\<close>

record handshake =
  h_thread :: loop_thread_pc
  h_owner :: owner_pc
  h_sem :: bool
  h_loop :: bool
  h_notified :: bool
  h_built :: bool
  h_called :: bool
  h_quit :: bool
  h_stray :: bool
  h_dangling :: bool

definition handshake_start :: handshake where
  "handshake_start = \<lparr>h_thread = T_none, h_owner = O_start, h_sem = False, h_loop = False,
     h_notified = False, h_built = False, h_called = False, h_quit = False, h_stray = False, h_dangling = False\<rparr>"

definition handshake_init :: "handshake \<Rightarrow> bool" where "handshake_init s \<longleftrightarrow> s = handshake_start"

inductive handshake_step :: "handshake \<Rightarrow> handshake \<Rightarrow> bool" where
  owner_create: "h_owner s = O_start \<Longrightarrow> handshake_step s (s\<lparr>h_owner := O_sem, h_thread := T_begin\<rparr>)"
| thread_post: "h_thread s = T_begin \<Longrightarrow> handshake_step s (s\<lparr>h_thread := T_construct, h_sem := True\<rparr>)"
| owner_sem: "h_owner s = O_sem \<Longrightarrow> h_sem s \<Longrightarrow> handshake_step s (s\<lparr>h_owner := O_test, h_sem := False\<rparr>)"
| thread_construct: "h_thread s = T_construct \<Longrightarrow> handshake_step s (s\<lparr>h_thread := T_callback, h_built := True\<rparr>)"
| thread_callback: "h_thread s = T_callback \<Longrightarrow> handshake_step s (s\<lparr>h_thread := T_publish, h_called := True\<rparr>)"
| thread_publish: "h_thread s = T_publish \<Longrightarrow>
    handshake_step s (s\<lparr>h_thread := T_enter, h_loop := True, h_notified := h_notified s \<or> h_owner s = O_wait\<rparr>)"
| owner_wait: "h_owner s = O_test \<Longrightarrow> \<not> h_loop s \<Longrightarrow>
    handshake_step s (s\<lparr>h_owner := O_wait, h_notified := False\<rparr>)"
| owner_wake: "h_owner s = O_wait \<Longrightarrow> h_notified s \<Longrightarrow> handshake_step s (s\<lparr>h_owner := O_test\<rparr>)"
| owner_spurious: "h_owner s = O_wait \<Longrightarrow> handshake_step s (s\<lparr>h_owner := O_test\<rparr>)"
| owner_got: "h_owner s = O_test \<Longrightarrow> h_loop s \<Longrightarrow> handshake_step s (s\<lparr>h_owner := O_running\<rparr>)"
| loop_enter: "h_thread s = T_enter \<Longrightarrow> handshake_step s (s\<lparr>h_thread := T_loop, h_quit := False\<rparr>)"
| stray_quit: "h_thread s \<in> {T_enter, T_loop} \<Longrightarrow> handshake_step s (s\<lparr>h_quit := True, h_stray := True\<rparr>)"
| loop_returns: "h_thread s = T_loop \<Longrightarrow> h_quit s \<Longrightarrow> handshake_step s (s\<lparr>h_thread := T_left\<rparr>)"
| thread_clear: "h_thread s = T_left \<Longrightarrow> handshake_step s (s\<lparr>h_thread := T_cleared, h_loop := False\<rparr>)"
| thread_end: "h_thread s = T_cleared \<Longrightarrow> handshake_step s (s\<lparr>h_thread := T_ended, h_built := False\<rparr>)"
| dtor_test: "h_owner s = O_running \<Longrightarrow> h_loop s \<Longrightarrow> handshake_step s (s\<lparr>h_owner := O_quit\<rparr>)"
| dtor_null: "h_owner s = O_running \<Longrightarrow> \<not> h_loop s \<Longrightarrow> handshake_step s (s\<lparr>h_owner := O_join\<rparr>)"
| dtor_quit: "h_owner s = O_quit \<Longrightarrow>
    handshake_step s (s\<lparr>h_owner := O_join, h_quit := True, h_dangling := h_dangling s \<or> \<not> h_built s\<rparr>)"
| dtor_join: "h_owner s = O_join \<Longrightarrow> h_thread s = T_ended \<Longrightarrow> handshake_step s (s\<lparr>h_owner := O_end\<rparr>)"

text \<open>
  The invariant: the thread exists once it was created; the loop object exists from its construction
  to the end of the thread; the pointer is set between the two critical sections; the callback ran
  before the pointer was set; only a quit makes the thread leave the loop; an owner that waits while
  the pointer is set has been notified.
\<close>

definition created_inv :: "handshake \<Rightarrow> bool" where
  "created_inv s \<longleftrightarrow> (h_thread s = T_none \<longleftrightarrow> h_owner s = O_start)"

definition thread_inv :: "handshake \<Rightarrow> bool" where
  "thread_inv s \<longleftrightarrow>
     (h_built s \<longleftrightarrow> h_thread s \<in> {T_callback, T_publish, T_enter, T_loop, T_left, T_cleared}) \<and>
     (h_loop s \<longleftrightarrow> h_thread s \<in> {T_enter, T_loop, T_left}) \<and>
     (h_called s \<longleftrightarrow> h_thread s \<in> {T_publish, T_enter, T_loop, T_left, T_cleared, T_ended}) \<and>
     (h_thread s \<in> {T_left, T_cleared, T_ended} \<longrightarrow> h_quit s)"

text \<open>A waiting owner is notified once there is a loop; the semaphore; where a running owner leaves the
  thread.\<close>

definition wait_inv :: "handshake \<Rightarrow> bool" where
  "wait_inv s \<longleftrightarrow> (h_owner s = O_wait \<and> h_loop s \<longrightarrow> h_notified s)"

definition sem_inv :: "handshake \<Rightarrow> bool" where
  "sem_inv s \<longleftrightarrow>
     (h_owner s = O_sem \<and> h_thread s \<noteq> T_begin \<longrightarrow> h_sem s) \<and>
     (h_sem s \<longrightarrow> h_thread s \<noteq> T_none \<and> h_thread s \<noteq> T_begin) \<and>
     (h_thread s = T_begin \<longrightarrow> h_owner s = O_sem)"

definition run_inv :: "handshake \<Rightarrow> bool" where
  "run_inv s \<longleftrightarrow> (h_owner s \<in> {O_running, O_quit, O_join, O_end} \<longrightarrow>
     h_thread s \<in> {T_enter, T_loop, T_left, T_cleared, T_ended})"

definition quit_inv :: "handshake \<Rightarrow> bool" where
  "quit_inv s \<longleftrightarrow>
     (h_quit s \<longrightarrow> h_stray s \<or> h_owner s \<in> {O_join, O_end}) \<and>
     (h_owner s = O_end \<longrightarrow> h_thread s = T_ended) \<and>
     (h_dangling s \<longrightarrow> h_stray s)"

definition handshake_inv :: "handshake \<Rightarrow> bool" where
  "handshake_inv s \<longleftrightarrow> created_inv s \<and> thread_inv s \<and> wait_inv s \<and> sem_inv s \<and> run_inv s \<and> quit_inv s"

lemma handshake_inv_init: "handshake_init s \<Longrightarrow> handshake_inv s"
  by (simp add: handshake_init_def handshake_start_def handshake_inv_def created_inv_def thread_inv_def wait_inv_def sem_inv_def run_inv_def quit_inv_def)

lemma created_inv_step: "handshake_step s t \<Longrightarrow> created_inv s \<Longrightarrow> created_inv t"
  by (induction rule: handshake_step.induct) (auto simp: created_inv_def)

lemma thread_inv_step: "handshake_step s t \<Longrightarrow> created_inv s \<Longrightarrow> thread_inv s \<Longrightarrow> thread_inv t"
  by (induction rule: handshake_step.induct) (simp_all add: created_inv_def thread_inv_def)

lemma wait_inv_step: "handshake_step s t \<Longrightarrow> wait_inv s \<Longrightarrow> wait_inv t"
  by (induction rule: handshake_step.induct) (simp_all add: wait_inv_def)

lemma sem_inv_step:
  assumes "handshake_step s t" and "created_inv s" and "sem_inv s"
  shows "sem_inv t"
proof -
  have begin1: "h_thread s = T_begin \<Longrightarrow> h_owner s = O_sem"
    and posted: "h_sem s \<Longrightarrow> h_thread s \<noteq> T_none" "h_sem s \<Longrightarrow> h_thread s \<noteq> T_begin"
    and post: "h_owner s = O_sem \<Longrightarrow> h_thread s \<noteq> T_begin \<Longrightarrow> h_sem s"
    and start: "h_owner s = O_start \<Longrightarrow> h_thread s = T_none"
    using assms(2,3) unfolding created_inv_def sem_inv_def by blast+
  have "h_thread t = T_begin \<Longrightarrow> h_owner t = O_sem"
    using assms(1) begin1 posted by cases auto
  moreover have "h_sem t \<Longrightarrow> h_thread t \<noteq> T_none \<and> h_thread t \<noteq> T_begin"
    using assms(1) posted start by cases auto
  moreover have "h_owner t = O_sem \<Longrightarrow> h_thread t \<noteq> T_begin \<Longrightarrow> h_sem t"
    using assms(1) post by cases auto
  ultimately show ?thesis
    unfolding sem_inv_def by blast
qed

lemma run_inv_step:
  assumes "handshake_step s t" and "created_inv s" and "thread_inv s" and "run_inv s"
  shows "run_inv t"
proof -
  have "h_loop s \<Longrightarrow> h_thread s \<in> {T_enter, T_loop, T_left}"
    using assms(3) by (simp add: thread_inv_def)
  with assms(1,2,4) show ?thesis
    by (induction rule: handshake_step.induct) (auto simp: created_inv_def run_inv_def)
qed

lemma quit_inv_step:
  assumes "handshake_step s t" and "thread_inv s" and "run_inv s" and "quit_inv s"
  shows "quit_inv t"
  using assms(1)
proof cases
  case dtor_null
  then have "h_quit s"
    using assms(2,3) by (auto simp: thread_inv_def run_inv_def)
  then show ?thesis
    using assms(4) dtor_null by (auto simp: quit_inv_def)
next
  case dtor_quit
  then have "h_built s \<or> h_quit s"
    using assms(2,3) by (auto simp: thread_inv_def run_inv_def)
  then show ?thesis
    using assms(4) dtor_quit by (auto simp: quit_inv_def)
qed (use assms(4) in \<open>auto simp: quit_inv_def\<close>)

lemma handshake_inv_step: "handshake_inv s \<Longrightarrow> handshake_step s t \<Longrightarrow> handshake_inv t"
  unfolding handshake_inv_def
  using created_inv_step thread_inv_step wait_inv_step sem_inv_step run_inv_step quit_inv_step by blast

interpretation handshakes: inductive_invariant handshake_init handshake_step handshake_inv
  by unfold_locales (auto intro: handshake_inv_init handshake_inv_step)

lemma handshake_invD:
  assumes "reachable handshake_init handshake_step s"
  shows "created_inv s" "thread_inv s" "wait_inv s" "sem_inv s" "run_inv s" "quit_inv s"
  using handshakes.inv_reachable [OF assms] by (simp_all add: handshake_inv_def)

section \<open>The handshake completes\<close>

text \<open>A step that is not a spurious wakeup: the owner leaves \<open>m_cond.wait\<close> only when notified.\<close>

definition strict_step :: "handshake \<Rightarrow> handshake \<Rightarrow> bool" where
  "strict_step s t \<longleftrightarrow> handshake_step s t \<and> (h_owner s = O_wait \<and> h_owner t = O_test \<longrightarrow> h_notified s)"

lemma strict_path: "strict_step\<^sup>*\<^sup>* s t \<Longrightarrow> handshake_step\<^sup>*\<^sup>* s t"
  by (induction rule: rtranclp_induct) (auto simp: strict_step_def intro: rtranclp.rtrancl_into_rtrancl)

lemma strict_thread: "handshake_step s t \<Longrightarrow> h_owner t = h_owner s \<Longrightarrow> strict_step s t"
  by (auto simp: strict_step_def)

text \<open>Left alone, the new thread gets to \<open>loop()\<close>, and then the owner gets the loop.\<close>

lemma thread_gets_to_loop:
  assumes "h_thread s \<in> {T_begin, T_construct, T_callback, T_publish, T_enter}"
  shows "\<exists>t. strict_step\<^sup>*\<^sup>* s t \<and> h_thread t = T_loop \<and> h_owner t = h_owner s"
proof -
  have publish: "\<exists>t. strict_step\<^sup>*\<^sup>* s t \<and> h_thread t = T_loop \<and> h_owner t = h_owner s"
    if "h_thread s = T_enter" for s
    using strict_thread [OF loop_enter [OF that]]
    by (intro exI [of _ "s\<lparr>h_thread := T_loop, h_quit := False\<rparr>"]) auto
  have chain: "\<exists>t. strict_step\<^sup>*\<^sup>* s t \<and> h_thread t = T_loop \<and> h_owner t = h_owner s"
    if "handshake_step s s'" "h_owner s' = h_owner s"
      "\<exists>t. strict_step\<^sup>*\<^sup>* s' t \<and> h_thread t = T_loop \<and> h_owner t = h_owner s'" for s s'
    using that strict_thread by (metis converse_rtranclp_into_rtranclp)
  have callback: "\<exists>t. strict_step\<^sup>*\<^sup>* s t \<and> h_thread t = T_loop \<and> h_owner t = h_owner s"
    if "h_thread s = T_publish" for s
    by (rule chain [OF thread_publish [OF that] _ publish]) simp_all
  have construct: "\<exists>t. strict_step\<^sup>*\<^sup>* s t \<and> h_thread t = T_loop \<and> h_owner t = h_owner s"
    if "h_thread s = T_callback" for s
    by (rule chain [OF thread_callback [OF that] _ callback]) simp_all
  have begin1: "\<exists>t. strict_step\<^sup>*\<^sup>* s t \<and> h_thread t = T_loop \<and> h_owner t = h_owner s"
    if "h_thread s = T_construct" for s
    by (rule chain [OF thread_construct [OF that] _ construct]) simp_all
  have "\<exists>t. strict_step\<^sup>*\<^sup>* s t \<and> h_thread t = T_loop \<and> h_owner t = h_owner s"
    if "h_thread s = T_begin" for s
    by (rule chain [OF thread_post [OF that] _ begin1]) simp_all
  then show ?thesis
    using assms publish callback construct begin1 by blast
qed

lemma owner_gets_loop:
  assumes inv: "wait_inv s" "sem_inv s" and loop: "h_loop s" and o: "h_owner s \<in> {O_sem, O_test, O_wait}" "h_thread s = T_loop"
  shows "\<exists>t. strict_step\<^sup>*\<^sup>* s t \<and> h_owner t = O_running"
proof -
  have test: "\<exists>t. strict_step\<^sup>*\<^sup>* s t \<and> h_owner t = O_running" if "h_owner s = O_test" "h_loop s" for s
    using owner_got [OF that] that by (intro exI [of _ "s\<lparr>h_owner := O_running\<rparr>"]) (auto simp: strict_step_def)
  have chain: "\<exists>t. strict_step\<^sup>*\<^sup>* s t \<and> h_owner t = O_running"
    if "strict_step s s'" "h_owner s' = O_test" "h_loop s'" for s'
    using that test [OF that(2,3)] by (metis converse_rtranclp_into_rtranclp)
  consider "h_owner s = O_sem" "h_sem s" | "h_owner s = O_test" | "h_owner s = O_wait" "h_notified s"
    using inv loop o by (auto simp: wait_inv_def sem_inv_def)
  then show ?thesis
  proof cases
    case 1
    show ?thesis
      by (rule chain [of "s\<lparr>h_owner := O_test, h_sem := False\<rparr>"])
        (use owner_sem [OF 1] 1 in \<open>simp_all add: strict_step_def loop\<close>)
  next
    case 2
    then show ?thesis using test loop by blast
  next
    case 3
    show ?thesis
      by (rule chain [of "s\<lparr>h_owner := O_test\<rparr>"])
        (use owner_wake [OF 3] 3 in \<open>simp_all add: strict_step_def loop\<close>)
  qed
qed

text \<open>Being before the return of \<open>startLoop\<close>.\<close>

definition starting :: "handshake \<Rightarrow> bool" where
  "starting s \<longleftrightarrow> h_owner s \<in> {O_start, O_sem, O_test, O_wait}"

lemma starting_no_quit:
  assumes "created_inv s" "thread_inv s" "quit_inv s" "\<not> h_stray s" "starting s"
  shows "h_thread s \<in> {T_none, T_begin, T_construct, T_callback, T_publish, T_enter, T_loop}"
proof -
  have "\<not> h_quit s"
    using assms by (auto simp: quit_inv_def starting_def)
  then have "h_thread s \<notin> {T_left, T_cleared, T_ended}"
    using assms(2) by (auto simp: thread_inv_def)
  then show ?thesis by (cases "h_thread s") auto
qed

lemma startLoop_completes:
  assumes reach: "reachable handshake_init handshake_step s" and stray: "\<not> h_stray s" and st: "starting s"
  shows "\<exists>t. strict_step\<^sup>*\<^sup>* s t \<and> h_owner t = O_running"
proof -
  have finish: "\<exists>t. strict_step\<^sup>*\<^sup>* u t \<and> h_owner t = O_running"
    if u: "reachable handshake_init handshake_step u" "h_thread u = T_loop"
      "h_owner u \<in> {O_sem, O_test, O_wait}" for u
    using owner_gets_loop [of u] handshake_invD(2-4) [OF u(1)] u(2,3) by (auto simp: thread_inv_def)
  have started: "\<exists>t. strict_step\<^sup>*\<^sup>* u t \<and> h_owner t = O_running"
    if u: "reachable handshake_init handshake_step u" "h_owner u \<in> {O_sem, O_test, O_wait}"
      "h_thread u \<in> {T_begin, T_construct, T_callback, T_publish, T_enter}" for u
  proof -
    obtain v where v: "strict_step\<^sup>*\<^sup>* u v" "h_thread v = T_loop" "h_owner v = h_owner u"
      using thread_gets_to_loop [OF u(3)] by blast
    obtain t where "strict_step\<^sup>*\<^sup>* v t" "h_owner t = O_running"
      using finish [OF reachable_path [OF strict_path [OF v(1)] u(1)] v(2)] v(3) u(2) by auto
    then show ?thesis using v(1) by (meson rtranclp_trans)
  qed
  show ?thesis
  proof (cases "h_owner s = O_start")
    case True
    let ?u = "s\<lparr>h_owner := O_sem, h_thread := T_begin\<rparr>"
    have step: "handshake_step s ?u" using True by (rule owner_create)
    have "\<exists>t. strict_step\<^sup>*\<^sup>* ?u t \<and> h_owner t = O_running"
      using reach step by (intro started) (auto intro: reachable.intros)
    moreover have "strict_step s ?u" using step True by (simp add: strict_step_def)
    ultimately show ?thesis by (meson converse_rtranclp_into_rtranclp)
  next
    case False
    then have "h_owner s \<in> {O_sem, O_test, O_wait}" "h_thread s \<noteq> T_none"
      using st handshake_invD(1) [OF reach] by (auto simp: starting_def created_inv_def)
    then show ?thesis
      using starting_no_quit [OF handshake_invD(1,2,6) [OF reach] stray st] finish [OF reach] started [OF reach]
      by auto
  qed
qed

section \<open>Sample runs\<close>

text \<open>The states of a run up to the return of \<open>startLoop\<close>, with the new thread about to enter \<open>loop()\<close>.\<close>

definition handshake_up :: handshake where
  "handshake_up = handshake_start\<lparr>h_thread := T_enter, h_owner := O_running, h_loop := True,
     h_built := True, h_called := True\<rparr>"

lemma handshake_start_reachable: "reachable handshake_init handshake_step handshake_start"
  by (rule reachable_init) (simp add: handshake_init_def)

lemma handshake_up_reachable: "reachable handshake_init handshake_step handshake_up"
proof -
  define s1 where "s1 = handshake_start\<lparr>h_owner := O_sem, h_thread := T_begin\<rparr>"
  define s2 where "s2 = s1\<lparr>h_thread := T_construct, h_sem := True\<rparr>"
  define s3 where "s3 = s2\<lparr>h_owner := O_test, h_sem := False\<rparr>"
  define s4 where "s4 = s3\<lparr>h_thread := T_callback, h_built := True\<rparr>"
  define s5 where "s5 = s4\<lparr>h_thread := T_publish, h_called := True\<rparr>"
  define s6 where "s6 = s5\<lparr>h_thread := T_enter, h_loop := True, h_notified := h_notified s5 \<or> h_owner s5 = O_wait\<rparr>"
  note defs = s1_def s2_def s3_def s4_def s5_def s6_def handshake_start_def
  let ?R = "reachable handshake_init handshake_step"
  have "?R s1" unfolding s1_def
    by (rule reachable_step [OF handshake_start_reachable owner_create]) (simp add: handshake_start_def)
  then have "?R s2" unfolding s2_def by (rule reachable_step) (rule thread_post, simp add: defs)
  then have "?R s3" unfolding s3_def by (rule reachable_step) (rule owner_sem, simp_all add: defs)
  then have "?R s4" unfolding s4_def by (rule reachable_step) (rule thread_construct, simp add: defs)
  then have "?R s5" unfolding s5_def by (rule reachable_step) (rule thread_callback, simp add: defs)
  then have "?R s6" unfolding s6_def by (rule reachable_step) (rule thread_publish, simp add: defs)
  then have "?R (s6\<lparr>h_owner := O_running\<rparr>)" by (rule reachable_step) (rule owner_got, simp_all add: defs)
  then show ?thesis by (simp add: defs handshake_up_def)
qed

text \<open>A complete run: the owner destroys the object while the loop runs.\<close>

definition handshake_done :: handshake where
  "handshake_done = handshake_up\<lparr>h_thread := T_ended, h_owner := O_end, h_loop := False,
     h_built := False, h_quit := True\<rparr>"

lemma handshake_done_reachable: "reachable handshake_init handshake_step handshake_done"
proof -
  define s1 where "s1 = handshake_up\<lparr>h_thread := T_loop, h_quit := False\<rparr>"
  define s2 where "s2 = s1\<lparr>h_owner := O_quit\<rparr>"
  define s3 where "s3 = s2\<lparr>h_owner := O_join, h_quit := True, h_dangling := h_dangling s2 \<or> \<not> h_built s2\<rparr>"
  define s4 where "s4 = s3\<lparr>h_thread := T_left\<rparr>"
  define s5 where "s5 = s4\<lparr>h_thread := T_cleared, h_loop := False\<rparr>"
  define s6 where "s6 = s5\<lparr>h_thread := T_ended, h_built := False\<rparr>"
  note defs = s1_def s2_def s3_def s4_def s5_def s6_def handshake_start_def handshake_up_def
  let ?R = "reachable handshake_init handshake_step"
  have "?R s1" unfolding s1_def
    by (rule reachable_step [OF handshake_up_reachable loop_enter]) (simp add: handshake_up_def)
  then have "?R s2" unfolding s2_def by (rule reachable_step) (rule dtor_test, simp_all add: defs)
  then have "?R s3" unfolding s3_def by (rule reachable_step) (rule dtor_quit, simp add: defs)
  then have "?R s4" unfolding s4_def by (rule reachable_step) (rule loop_returns, simp_all add: defs)
  then have "?R s5" unfolding s5_def by (rule reachable_step) (rule thread_clear, simp add: defs)
  then have "?R s6" unfolding s6_def by (rule reachable_step) (rule thread_end, simp add: defs)
  then have "?R (s6\<lparr>h_owner := O_end\<rparr>)" by (rule reachable_step) (rule dtor_join, simp_all add: defs)
  then show ?thesis by (simp add: defs handshake_done_def)
qed

section \<open>Properties\<close>



text \<open>
  C21: The destructor is safe when only it makes the loop quit: it never calls \<open>quit()\<close> on a loop that
  is gone, and when it has returned the thread has ended and its loop has been destroyed.
\<close>

theorem dtor_joins_ended_thread:
  assumes "reachable handshake_init handshake_step s" and "\<not> h_stray s"
  shows "\<not> h_dangling s \<and> (h_owner s = O_end \<longrightarrow> h_thread s = T_ended \<and> \<not> h_built s \<and> \<not> h_loop s)"
  using handshake_invD(2,6) [OF assms(1)] assms(2) by (auto simp: thread_inv_def quit_inv_def)

theorem dtor_joins_ended_thread_witness: "h_owner handshake_done = O_end \<and> \<not> h_dangling handshake_done"
  using dtor_joins_ended_thread [OF handshake_done_reachable]
  by (simp add: handshake_done_def handshake_up_def handshake_start_def)

text \<open>
  C39: The destructor can hang: when it calls \<open>quit()\<close> right after \<open>startLoop\<close>, \<open>loop()\<close> resets \<open>m_quit\<close>
  and the owner waits in \<open>join()\<close> for a loop nobody has told to end; only a quit from elsewhere helps.
\<close>

theorem quick_destructor_hangs:
  "\<exists>s. reachable handshake_init handshake_step s \<and> \<not> h_stray s \<and> h_owner s = O_join \<and> h_thread s = T_loop \<and>
     \<not> h_quit s \<and> (\<forall>t. handshake_step s t \<longrightarrow> h_stray t)"
proof -
  define s1 where "s1 = handshake_up\<lparr>h_owner := O_quit\<rparr>"
  define s2 where "s2 = s1\<lparr>h_owner := O_join, h_quit := True, h_dangling := h_dangling s1 \<or> \<not> h_built s1\<rparr>"
  define s3 where "s3 = s2\<lparr>h_thread := T_loop, h_quit := False\<rparr>"
  note defs = s1_def s2_def s3_def handshake_start_def handshake_up_def
  let ?R = "reachable handshake_init handshake_step"
  have "?R s1" unfolding s1_def
    by (rule reachable_step [OF handshake_up_reachable dtor_test]) (simp_all add: handshake_up_def)
  then have "?R s2" unfolding s2_def by (rule reachable_step) (rule dtor_quit, simp add: defs)
  then have "?R s3" unfolding s3_def by (rule reachable_step) (rule loop_enter, simp add: defs)
  moreover have "\<forall>t. handshake_step s3 t \<longrightarrow> h_stray t"
    by (auto elim!: handshake_step.cases simp: defs)
  ultimately show ?thesis
    by (intro exI [of _ s3]) (simp add: defs)
qed

theorem quick_destructor_hangs_witness:
  "\<exists>s. reachable handshake_init handshake_step s \<and> h_owner s = O_join \<and> h_thread s = T_loop \<and> \<not> h_quit s"
  using quick_destructor_hangs by blast

text \<open>With a quit from elsewhere the destructor can call \<open>quit()\<close> on a destroyed loop.\<close>

theorem stray_quit_dangles: "\<exists>s. reachable handshake_init handshake_step s \<and> h_dangling s"
proof -
  define s1 where "s1 = handshake_up\<lparr>h_thread := T_loop, h_quit := False\<rparr>"
  define s2 where "s2 = s1\<lparr>h_quit := True, h_stray := True\<rparr>"
  define s3 where "s3 = s2\<lparr>h_owner := O_quit\<rparr>"
  define s4 where "s4 = s3\<lparr>h_thread := T_left\<rparr>"
  define s5 where "s5 = s4\<lparr>h_thread := T_cleared, h_loop := False\<rparr>"
  define s6 where "s6 = s5\<lparr>h_thread := T_ended, h_built := False\<rparr>"
  note defs = s1_def s2_def s3_def s4_def s5_def s6_def handshake_start_def handshake_up_def
  let ?R = "reachable handshake_init handshake_step"
  have "?R s1" unfolding s1_def
    by (rule reachable_step [OF handshake_up_reachable loop_enter]) (simp add: handshake_up_def)
  then have "?R s2" unfolding s2_def by (rule reachable_step) (rule stray_quit, simp add: defs)
  then have "?R s3" unfolding s3_def by (rule reachable_step) (rule dtor_test, simp_all add: defs)
  then have "?R s4" unfolding s4_def by (rule reachable_step) (rule loop_returns, simp_all add: defs)
  then have "?R s5" unfolding s5_def by (rule reachable_step) (rule thread_clear, simp add: defs)
  then have "?R s6" unfolding s6_def by (rule reachable_step) (rule thread_end, simp add: defs)
  then have "?R (s6\<lparr>h_owner := O_join, h_quit := True, h_dangling := h_dangling s6 \<or> \<not> h_built s6\<rparr>)"
    by (rule reachable_step) (rule dtor_quit, simp add: defs)
  then show ?thesis by (intro exI conjI) (assumption, simp add: defs)
qed

end
