(* ===== verification/EventLoopThreadPool.thy ===== *)
theory EventLoopThreadPool
  imports EventLoopThread "HOL-Library.Multiset"
begin

text \<open>
  \<open>EventLoopThreadPool\<close> (EventLoopThreadPool.h, EventLoopThreadPool.cpp): starting the loops and
  handing them out in turn. Handing out is the interface \<open>round_robin\<close>, whose client lemmas say which
  loop the \<open>k\<close>-th call returns; the pool provides it.
\<close>

section \<open>The class\<close>

record pool =
  m_baseLoop :: loop_ptr
  m_poolName :: string
  m_poolStarted :: bool
  m_numThreads :: int
  m_next :: size_t
  m_threads :: "loopthread list"
  m_loops :: "loop_ptr list"

definition EventLoopThreadPool_ctor :: "loop_ptr \<Rightarrow> string \<Rightarrow> pool" where
  "EventLoopThreadPool_ctor inBaseLoop inNameArg =
     \<lparr>m_baseLoop = inBaseLoop, m_poolName = inNameArg, m_poolStarted = False, m_numThreads = 0, m_next = 0,
      m_threads = [], m_loops = []\<rparr>"

definition setThreadNum :: "int \<Rightarrow> pool \<Rightarrow> pool" where
  "setThreadNum inNumThreads p = p\<lparr>m_numThreads := inNumThreads\<rparr>"

text \<open>\<open>place i\<close>: the addresses and the thread id of the \<open>i\<close>-th thread. The array \<open>buf\<close> has room for the
  name and 32 more characters, so the name is not cut.\<close>

definition start_thread ::
    "'k os \<Rightarrow> (nat \<Rightarrow> loop_ptr \<Rightarrow> ('k, 'z) lsys_scheme \<Rightarrow> ('k, 'z) lsys_scheme result) \<Rightarrow>
       (nat \<Rightarrow> loop_ptr \<times> chan_ptr \<times> int) \<Rightarrow> nat option \<Rightarrow> nat \<Rightarrow>
       pool \<times> int32 \<times> ('k, 'z) lsys_scheme \<Rightarrow> (pool \<times> int32 \<times> ('k, 'z) lsys_scheme) result" where
  "start_thread os init place inCallback i = (\<lambda>(p, numCreated, w).
     let (thread, num) = EventLoopThread_ctor inCallback (m_poolName p @ to_string_int (int i)) numCreated in
     andThen (startLoop os init (place i) thread w) (\<lambda>(loop, thread1, w1).
       Inr (p\<lparr>m_threads := m_threads p @ [thread1], m_loops := m_loops p @ [loop]\<rparr>, num, w1)))"

definition EventLoopThreadPool_start ::
    "'k os \<Rightarrow> (nat \<Rightarrow> loop_ptr \<Rightarrow> ('k, 'z) lsys_scheme \<Rightarrow> ('k, 'z) lsys_scheme result) \<Rightarrow>
       (nat \<Rightarrow> loop_ptr \<times> chan_ptr \<times> int) \<Rightarrow> nat option \<Rightarrow> pool \<Rightarrow> int32 \<Rightarrow> ('k, 'z) lsys_scheme \<Rightarrow>
       (pool \<times> int32 \<times> ('k, 'z) lsys_scheme) result" where
  "EventLoopThreadPool_start os init place inCallback p numCreated w =
     (let p1 = p\<lparr>m_poolStarted := True\<rparr> in
      case inCallback of
        Some cb \<Rightarrow>
          if m_numThreads p1 = 0 then andThen (init cb (m_baseLoop p1) w) (\<lambda>w1. Inr (p1, numCreated, w1))
          else foldE (start_thread os init place inCallback) [0..<nat (m_numThreads p1)] (p1, numCreated, w)
      | None \<Rightarrow> foldE (start_thread os init place inCallback) [0..<nat (m_numThreads p1)] (p1, numCreated, w))"

definition getNextLoop :: "pool \<Rightarrow> (loop_ptr \<times> pool) result" where
  "getNextLoop p =
     (if m_loops p \<noteq> [] then
        if unat (m_next p) < length (m_loops p) then
          let loop = m_loops p ! unat (m_next p);
              next = m_next p + 1;
              next1 = (if of_nat (length (m_loops p)) \<le> next then 0 else next)
          in Inr (loop, p\<lparr>m_next := next1\<rparr>)
        else Inl Undefined
      else Inr (m_baseLoop p, p))"

definition getAllLoops :: "pool \<Rightarrow> loop_ptr list" where
  "getAllLoops p = (if m_loops p = [] then [m_baseLoop p] else m_loops p)"

definition pool_started :: "pool \<Rightarrow> bool" where "pool_started p \<longleftrightarrow> m_poolStarted p"
definition pool_getName :: "pool \<Rightarrow> string" where "pool_getName p = m_poolName p"

section \<open>Taking turns\<close>

lemma mset_rotate: "mset (rotate n xs) = mset xs"
proof (induction n)
  case (Suc n)
  have "mset (rotate1 ys) = mset ys" for ys :: "'a list" by (cases ys) simp_all
  then show ?case using Suc by simp
qed simp

text \<open>The answers of a number of calls in a row.\<close>

fun calls :: "('s \<Rightarrow> ('a \<times> 's) result) \<Rightarrow> nat \<Rightarrow> 's \<Rightarrow> ('a list \<times> 's) result" where
  "calls call 0 s = Inr ([], s)"
| "calls call (Suc k) s = andThen (call s) (\<lambda>(x, s1). andThen (calls call k s1) (\<lambda>(xs, s2). Inr (x # xs, s2)))"

lemma calls_add:
  "calls call (j + k) s = andThen (calls call j s) (\<lambda>(xs, s1). andThen (calls call k s1) (\<lambda>(ys, s2). Inr (xs @ ys, s2)))"
proof (induction j arbitrary: s)
  case 0
  show ?case by (cases "calls call k s") auto
next
  case (Suc j)
  then show ?case
    by (auto simp: andThen_def split: sum.splits)
qed

text \<open>
  The contract of handing out \<open>items\<close> in turn from a cursor \<open>pos\<close>: a call returns the item at the
  cursor and moves the cursor on by one, cyclically.
\<close>

locale round_robin =
  fixes ok :: "'s \<Rightarrow> bool"
    and items :: "'s \<Rightarrow> 'a list"
    and pos :: "'s \<Rightarrow> nat"
    and call :: "'s \<Rightarrow> ('a \<times> 's) result"
  assumes pos_less: "ok s \<Longrightarrow> pos s < length (items s)"
    and call_turn: "ok s \<Longrightarrow> \<exists>s'. call s = Inr (items s ! pos s, s') \<and> ok s' \<and> items s' = items s \<and>
          pos s' = Suc (pos s) mod length (items s)"
begin

lemma calls_cycle:
  "ok s \<Longrightarrow> \<exists>s'. calls call k s = Inr (map (\<lambda>i. items s ! ((pos s + i) mod length (items s))) [0..<k], s') \<and>
     ok s' \<and> items s' = items s \<and> pos s' = (pos s + k) mod length (items s)"
proof (induction k arbitrary: s)
  case 0
  then show ?case using pos_less by simp
next
  case (Suc k)
  let ?n = "length (items s)"
  obtain s1 where s1: "call s = Inr (items s ! pos s, s1)" "ok s1" "items s1 = items s" "pos s1 = Suc (pos s) mod ?n"
    using call_turn [OF Suc.prems] by blast
  obtain s2 where s2: "calls call k s1 = Inr (map (\<lambda>i. items s ! ((pos s1 + i) mod ?n)) [0..<k], s2)"
      "ok s2" "items s2 = items s" "pos s2 = (pos s1 + k) mod ?n"
    using Suc.IH [OF s1(2)] s1(3) by auto
  have "items s ! pos s # map (\<lambda>i. items s ! ((pos s1 + i) mod ?n)) [0..<k]
      = map (\<lambda>i. items s ! ((pos s + i) mod ?n)) [0..<Suc k]"
    unfolding upt_conv_Cons [OF zero_less_Suc] map_Suc_upt [symmetric]
    using pos_less [OF Suc.prems] by (simp add: s1(4) mod_simps)
  moreover have "pos s2 = (pos s + Suc k) mod ?n"
    by (simp add: s1(4) s2(4) mod_simps)
  ultimately show ?case
    using s1(1) s2 by simp
qed

text \<open>A round of as many calls as there are items is a rotation of them, and ends where it began.\<close>

lemma round_rotates:
  assumes "ok s"
  shows "\<exists>s'. calls call (length (items s)) s = Inr (rotate (pos s) (items s), s') \<and> ok s' \<and> items s' = items s \<and>
     pos s' = pos s"
proof -
  have "map (\<lambda>i. items s ! ((pos s + i) mod length (items s))) [0..<length (items s)] = rotate (pos s) (items s)"
    by (rule nth_equalityI) (simp_all add: nth_rotate add.commute)
  then show ?thesis
    using calls_cycle [OF assms, of "length (items s)"] pos_less [OF assms] by auto
qed

lemma rounds_fair:
  "ok s \<Longrightarrow> \<exists>xs s'. calls call (m * length (items s)) s = Inr (xs, s') \<and> ok s' \<and> items s' = items s \<and>
     pos s' = pos s \<and> mset xs = repeat_mset m (mset (items s))"
proof (induction m arbitrary: s)
  case (Suc m)
  obtain s1 where s1: "calls call (length (items s)) s = Inr (rotate (pos s) (items s), s1)" "ok s1"
      "items s1 = items s" "pos s1 = pos s"
    using round_rotates [OF Suc.prems] by blast
  obtain xs s2 where s2: "calls call (m * length (items s)) s1 = Inr (xs, s2)" "ok s2" "items s2 = items s"
      "pos s2 = pos s" "mset xs = repeat_mset m (mset (items s))"
    using Suc.IH [OF s1(2)] s1(3,4) by auto
  have "calls call (Suc m * length (items s)) s = Inr (rotate (pos s) (items s) @ xs, s2)"
    by (simp add: calls_add s1(1) s2(1))
  then show ?case
    using s2 by (simp add: mset_rotate)
qed simp

end

text \<open>The cursor is within the loops; their number fits \<open>size_t\<close>.\<close>

definition pool_ok :: "pool \<Rightarrow> bool" where
  "pool_ok p \<longleftrightarrow> length (m_loops p) < 2 ^ 63 \<and> (if m_loops p = [] then m_next p = 0 else unat (m_next p) < length (m_loops p))"

lemma next_turn:
  fixes k :: size_t
  assumes "unat k < n" and "n < 2 ^ 63"
  shows "unat (if of_nat n \<le> k + 1 then 0 else k + 1) = Suc (unat k) mod n"
proof -
  have n: "unat (of_nat n :: size_t) = n" and k: "unat (k + 1) = Suc (unat k)"
    using assms by (simp_all add: unat_of_nat unat_word_ariths)
  show ?thesis
    using assms(1) by (cases "Suc (unat k) = n") (auto simp: word_le_nat_alt n k)
qed

lemma getNextLoop_turn:
  assumes "pool_ok p" and "m_loops p \<noteq> []"
  shows "\<exists>p'. getNextLoop p = Inr (m_loops p ! unat (m_next p), p') \<and> pool_ok p' \<and> m_loops p' = m_loops p \<and>
     unat (m_next p') = Suc (unat (m_next p)) mod length (m_loops p) \<and> p' = p\<lparr>m_next := m_next p'\<rparr>"
  using assms next_turn [of "m_next p" "length (m_loops p)"]
  by (auto simp: pool_ok_def getNextLoop_def Let_def simp del: of_nat_le_iff)

interpretation turns: round_robin "\<lambda>p. pool_ok p \<and> m_loops p \<noteq> []" m_loops "\<lambda>p. unat (m_next p)" getNextLoop
proof
  fix p assume p: "pool_ok p \<and> m_loops p \<noteq> []"
  then show "unat (m_next p) < length (m_loops p)"
    by (simp add: pool_ok_def)
  show "\<exists>p'. getNextLoop p = Inr (m_loops p ! unat (m_next p), p') \<and> (pool_ok p' \<and> m_loops p' \<noteq> []) \<and>
      m_loops p' = m_loops p \<and> unat (m_next p') = Suc (unat (m_next p)) mod length (m_loops p)"
    using getNextLoop_turn [of p] p by auto
qed

text \<open>What the callers of the pool rely on.\<close>

lemma getNextLoop_member:
  assumes "pool_ok p"
  shows "succeeds (\<lambda>(l, p'). l \<in> set (getAllLoops p) \<and> pool_ok p' \<and> getAllLoops p' = getAllLoops p \<and>
     m_baseLoop p' = m_baseLoop p \<and> (m_loops p = [] \<longrightarrow> l = m_baseLoop p \<and> p' = p)) (getNextLoop p)"
proof (cases "m_loops p = []")
  case True
  then show ?thesis using assms by (simp add: getNextLoop_def getAllLoops_def)
next
  case False
  then obtain p' where p': "getNextLoop p = Inr (m_loops p ! unat (m_next p), p')" "pool_ok p'"
      "m_loops p' = m_loops p" "p' = p\<lparr>m_next := m_next p'\<rparr>"
    using getNextLoop_turn [OF assms] by blast
  have "unat (m_next p) < length (m_loops p)"
    using assms False by (simp add: pool_ok_def)
  moreover have "m_baseLoop p' = m_baseLoop p"
    using arg_cong [OF p'(4), of m_baseLoop] by simp
  ultimately show ?thesis
    using p'(1-3) False by (simp add: getAllLoops_def)
qed

section \<open>Starting the pool\<close>

text \<open>The places of the first \<open>n\<close> threads: new loops in new threads.\<close>

definition fresh_places :: "(nat \<Rightarrow> loop_ptr \<times> chan_ptr \<times> int) \<Rightarrow> nat \<Rightarrow> ('k, 'z) lsys_scheme \<Rightarrow> bool" where
  "fresh_places place n w \<longleftrightarrow> inj_on (\<lambda>i. fst (place i)) {..<n} \<and> inj_on (\<lambda>i. snd (snd (place i))) {..<n} \<and>
     (\<forall>i<n. t_loopInThisThread w (snd (snd (place i))) = None \<and> (\<forall>c. m_chLoop (chan w c) \<noteq> fst (place i)))"

text \<open>After the first \<open>m\<close> threads.\<close>

definition started_upto ::
    "(nat \<Rightarrow> loop_ptr \<times> chan_ptr \<times> int) \<Rightarrow> nat \<Rightarrow> nat \<Rightarrow> pool \<Rightarrow> int32 \<Rightarrow> ('k, 'z) lsys_scheme \<Rightarrow>
       pool \<times> int32 \<times> ('k, 'z) lsys_scheme \<Rightarrow> bool" where
  "started_upto place n m p num w = (\<lambda>(p', num', w').
     m_baseLoop p' = m_baseLoop p \<and> m_poolName p' = m_poolName p \<and> m_poolStarted p' = m_poolStarted p \<and>
     m_numThreads p' = m_numThreads p \<and> m_next p' = m_next p \<and>
     m_loops p' = m_loops p @ map (\<lambda>i. fst (place i)) [0..<m] \<and>
     map (\<lambda>t. m_thName (m_thread t)) (m_threads p') =
       map (\<lambda>t. m_thName (m_thread t)) (m_threads p) @ map (\<lambda>i. m_poolName p @ to_string_int (int i)) [0..<m] \<and>
     num' = num + of_nat m \<and> cur_thread w' = cur_thread w \<and>
     (\<forall>i<m. m_threadId (loop_of w' (fst (place i))) = snd (snd (place i)) \<and>
            t_loopInThisThread w' (snd (snd (place i))) = Some (fst (place i))) \<and>
     (\<forall>i<n. m \<le> i \<longrightarrow> t_loopInThisThread w' (snd (snd (place i))) = None \<and> (\<forall>c. m_chLoop (chan w' c) \<noteq> fst (place i))))"

lemma to_string_int_nonempty [simp]: "to_string_int i \<noteq> []"
  by (simp add: to_string_int_def decimal.simps [of "nat i"])

lemma start_thread_upto:
  assumes ct: "epoll_contract os interest" "fresh_epoll_contract os interest" "working_kernel os" "init_ok init"
    and fresh: "fresh_places place n w" and m: "m < n" and upto: "started_upto place n m p num w s"
  shows "succeeds (started_upto place n (Suc m) p num w) (start_thread os init place cb m s)"
proof -
  obtain p1 num1 w1 where s: "s = (p1, num1, w1)" by (cases s) auto
  obtain l c tid where pl: "place m = (l, c, tid)" by (cases "place m") auto
  have inj: "\<And>i j. i < n \<Longrightarrow> j < n \<Longrightarrow> fst (place i) = fst (place j) \<Longrightarrow> i = j"
      "\<And>i j. i < n \<Longrightarrow> j < n \<Longrightarrow> snd (snd (place i)) = snd (snd (place j)) \<Longrightarrow> i = j"
    using fresh unfolding fresh_places_def inj_on_def by blast+
  obtain thr num2 where thr: "EventLoopThread_ctor cb (m_poolName p1 @ to_string_int (int m)) num1 = (thr, num2)"
      "m_thName (m_thread thr) = m_poolName p1 @ to_string_int (int m)" "\<not> m_started (m_thread thr)" "num2 = num1 + 1"
    by (simp add: EventLoopThread_ctor_def Thread_ctor_def setDefaultName_def Let_def)
  have new: "t_loopInThisThread w1 tid = None" "\<forall>c'. m_chLoop (chan w1 c') \<noteq> l"
    using upto m unfolding started_upto_def s prod.case by (metis fst_conv snd_conv pl order_refl)+
  obtain w2 where w2: "startLoop os init (place m) thr w1
      = Inr (l, thr\<lparr>m_thread := Thread_start tid (m_thread thr), m_elLoop := Some l\<rparr>, w2)" "opened l tid w1 w2"
    using startLoop_opens [OF ct thr(3) new, of c] by (auto simp: succeeds_def pl)
  have nm: "m_thName (Thread_start tid (m_thread thr)) = m_thName (m_thread thr)"
    by (simp add: Thread_start_def)
  have other: "fst (place i) \<noteq> l \<and> snd (snd (place i)) \<noteq> tid" if "i < n" "i \<noteq> m" for i
    using inj(1) [of i m] inj(2) [of i m] that m pl by auto
  have pn: "m_poolName p1 = m_poolName p" "m_loops p1 = m_loops p @ map (\<lambda>i. fst (place i)) [0..<m]"
    using upto by (simp_all add: started_upto_def s)
  have later: "t_loopInThisThread w2 (snd (snd (place i))) = None \<and> (\<forall>c. m_chLoop (chan w2 c) \<noteq> fst (place i))"
    if "i < n" "Suc m \<le> i" for i
  proof -
    have "t_loopInThisThread w1 (snd (snd (place i))) = None" "\<forall>c. m_chLoop (chan w1 c) \<noteq> fst (place i)"
      using upto that unfolding started_upto_def s prod.case by (meson Suc_leD)+
    then show ?thesis
      using w2(2) other [of i] that unfolding opened_def by (metis Suc_n_not_le_n fun_upd_other)
  qed
  have earlier: "m_threadId (loop_of w2 (fst (place i))) = snd (snd (place i)) \<and>
      t_loopInThisThread w2 (snd (snd (place i))) = Some (fst (place i))" if "i < Suc m" for i
  proof (cases "i = m")
    case True
    then show ?thesis using w2(2) pl by (simp add: opened_def)
  next
    case False
    then show ?thesis
      using upto w2(2) other [of i] that m by (simp add: started_upto_def s opened_def)
  qed
  have "cur_thread w2 = cur_thread w"
    using upto w2(2) by (simp add: started_upto_def s opened_def)
  then have "started_upto place n (Suc m) p num w (p1\<lparr>m_threads := m_threads p1 @
        [thr\<lparr>m_thread := Thread_start tid (m_thread thr), m_elLoop := Some l\<rparr>], m_loops := m_loops p1 @ [l]\<rparr>, num2, w2)"
    using upto later earlier pl thr(2,4) nm pn
    by (simp add: started_upto_def s)
  then show ?thesis
    using w2(1) thr(1) by (simp add: start_thread_def s)
qed

lemma start_threads_upto:
  assumes ct: "epoll_contract os interest" "fresh_epoll_contract os interest" "working_kernel os" "init_ok init"
    and fresh: "fresh_places place n w" and "m \<le> n"
  shows "succeeds (started_upto place n m p num w) (foldE (start_thread os init place cb) [0..<m] (p, num, w))"
  using assms(6)
proof (induction m)
  case 0
  then show ?case using fresh by (auto simp: started_upto_def fresh_places_def)
next
  case (Suc m)
  then have "succeeds (started_upto place n m p num w) (foldE (start_thread os init place cb) [0..<m] (p, num, w))"
    by simp
  then show ?case
    unfolding upt_Suc_append [OF le0] foldE_snoc
    by (rule succeeds_andThen) (use Suc.prems in \<open>simp add: start_thread_upto [OF ct fresh]\<close>)
qed

text \<open>The sample kernel without the environment variable.\<close>

definition plain_os :: "simk os" where "plain_os = sim_os\<lparr>sys_getenv := (\<lambda>_ _. None)\<rparr>"

lemma plain_contracts: "epoll_contract plain_os k_interest" "fresh_epoll_contract plain_os k_interest" "working_kernel plain_os"
  using sim_epoll sim_fresh
  by (simp_all add: plain_os_def epoll_contract_def fresh_epoll_contract_def working_kernel_def sim_epoll_create_def sim_fd_def)

section \<open>Properties\<close>

text \<open>
  C20: \<open>getNextLoop\<close> is the cyclic reference: from a started pool the \<open>k\<close> next calls return the loops
  from the cursor on, cyclically; in every series of whole rounds each loop is handed out equally
  often, and the cursor is back where it was. The index stays within the vector.
\<close>

theorem getNextLoop_cyclic:
  assumes "pool_ok p" and "m_loops p \<noteq> []"
  shows "(\<exists>p'. calls getNextLoop k p
        = Inr (map (\<lambda>i. m_loops p ! ((unat (m_next p) + i) mod length (m_loops p))) [0..<k], p') \<and> pool_ok p') \<and>
     (\<exists>xs p'. calls getNextLoop (m * length (m_loops p)) p = Inr (xs, p') \<and>
        mset xs = repeat_mset m (mset (m_loops p)) \<and> m_next p' = m_next p)"
proof
  obtain p' where "calls getNextLoop k p
      = Inr (map (\<lambda>i. m_loops p ! ((unat (m_next p) + i) mod length (m_loops p))) [0..<k], p')" "pool_ok p'"
    using turns.calls_cycle [of p k] assms by auto
  then show "\<exists>p'. calls getNextLoop k p
      = Inr (map (\<lambda>i. m_loops p ! ((unat (m_next p) + i) mod length (m_loops p))) [0..<k], p') \<and> pool_ok p'"
    by blast
  obtain xs p' where "calls getNextLoop (m * length (m_loops p)) p = Inr (xs, p')"
      "mset xs = repeat_mset m (mset (m_loops p))" "unat (m_next p') = unat (m_next p)"
    using turns.rounds_fair [of p m] assms by blast
  then show "\<exists>xs p'. calls getNextLoop (m * length (m_loops p)) p = Inr (xs, p') \<and>
      mset xs = repeat_mset m (mset (m_loops p)) \<and> m_next p' = m_next p"
    using word_unat_eq_iff by blast
qed

theorem getNextLoop_cyclic_witness:
  "\<exists>p'. calls getNextLoop 5 \<lparr>m_baseLoop = 0, m_poolName = [], m_poolStarted = True, m_numThreads = 3, m_next = 2,
       m_threads = [], m_loops = [10, 11, 12]\<rparr> = Inr ([12, 10, 11, 12, 10], p')"
  using getNextLoop_cyclic(1) [where k = 5 and p = "\<lparr>m_baseLoop = 0, m_poolName = [], m_poolStarted = True,
      m_numThreads = 3, m_next = 2, m_threads = [], m_loops = [10, 11, 12]\<rparr>", THEN conjunct1]
  by (auto simp: pool_ok_def upt_rec)

text \<open>
  C26: Starting a fresh pool with \<open>n\<close> threads returns with \<open>n\<close> loops, in the order of their names
  \<open><pool>0\<close>, \<open><pool>1\<close>, \<dots> (all different); the \<open>i\<close>-th loop belongs to the \<open>i\<close>-th new thread, and the caller is
  back in its own thread. With no threads, or a negative number of them, the pool hands out the base loop.
\<close>

theorem pool_start_opens_loops:
  assumes "epoll_contract os interest" and "fresh_epoll_contract os interest" and "working_kernel os" and "init_ok init"
    and "fresh_places place (nat (m_numThreads p)) w" and "m_loops p = []" and "m_threads p = []" and "m_next p = 0"
    and "m_numThreads p < 2 ^ 31" and "m_numThreads p \<noteq> 0 \<or> cb = None"
  shows "succeeds (\<lambda>(p', num', w').
       getAllLoops p' = (if 0 < m_numThreads p then map (\<lambda>i. fst (place i)) [0..<nat (m_numThreads p)] else [m_baseLoop p]) \<and>
       map (\<lambda>t. m_thName (m_thread t)) (m_threads p') =
         map (\<lambda>i. m_poolName p @ to_string_int (int i)) [0..<nat (m_numThreads p)] \<and>
       distinct (map (\<lambda>t. m_thName (m_thread t)) (m_threads p')) \<and>
       (\<forall>i<nat (m_numThreads p). m_threadId (loop_of w' (fst (place i))) = snd (snd (place i)) \<and>
          t_loopInThisThread w' (snd (snd (place i))) = Some (fst (place i))) \<and>
       cur_thread w' = cur_thread w \<and> m_poolStarted p' \<and> pool_ok p')
     (EventLoopThreadPool_start os init place cb p num w)"
proof -
  let ?n = "nat (m_numThreads p)"
  have eq: "EventLoopThreadPool_start os init place cb p num w
      = foldE (start_thread os init place cb) [0..<?n] (p\<lparr>m_poolStarted := True\<rparr>, num, w)"
    using assms(10) by (auto simp: EventLoopThreadPool_start_def Let_def split: option.splits)
  have names: "distinct (map (\<lambda>i. m_poolName p @ to_string_int (int i)) [0..<?n])"
    by (simp add: distinct_map inj_on_def)
  show ?thesis
    unfolding eq
    by (rule succeeds_mono [OF start_threads_upto [OF assms(1-5) order_refl]])
      (use assms(6-9) names in \<open>auto simp: started_upto_def pool_ok_def getAllLoops_def\<close>)
qed

theorem pool_start_opens_loops_witness:
  "succeeds (\<lambda>(p', num', w'). getAllLoops p' = [10, 11] \<and> t_loopInThisThread w' 101 = Some 11)
     (EventLoopThreadPool_start plain_os (\<lambda>_ _. Inr) (\<lambda>i. (10 + i, 20 + i, 100 + int i)) None
        (setThreadNum 2 (EventLoopThreadPool_ctor 0 ''srv'')) 0 boot_world)"
  by (rule succeeds_mono [OF pool_start_opens_loops [OF plain_contracts]])
    (auto simp: init_ok_def init_keeps_def setThreadNum_def EventLoopThreadPool_ctor_def fresh_places_def inj_on_def
      boot_world_def Channel_ctor_def upt_rec numeral_2_eq_2 All_less_Suc)

end
