(* ===== verification/Buffer.thy ===== *)
theory Buffer
  imports Sim_Kernel
begin

text \<open>
  \<open>Buffer\<close> (Buffer.h, Buffer.cpp): a \<open>std::vector<char>\<close> with a reader and a writer index of type
  \<open>size_t\<close>, kept here as 64-bit words so that the sums the code forms wrap as they do in C++.
  The abstraction is the byte sequence between the indices (\<open>contents\<close>); the theory shows that
  the operations implement a byte queue, and states that queue as the locale \<open>byte_queue\<close>.
\<close>

section \<open>The class\<close>

record buffer =
  m_buffer :: "byte list"
  m_readerIndex :: size_t
  m_writerIndex :: size_t

definition kCheapPrepend :: size_t where "kCheapPrepend = 8"
definition kInitialSize :: size_t where "kInitialSize = 1024"
definition kExtraBufSize :: size_t where "kExtraBufSize = 65536"

text \<open>\<open>std::vector<char>::max_size()\<close>: no object is larger than the largest pointer difference.\<close>

definition max_vector :: nat where "max_vector = 2 ^ 63 - 1"

definition vector_size :: "byte list \<Rightarrow> size_t" where
  "vector_size v = of_nat (length v)"

text \<open>\<open>std::vector::resize\<close> keeps the elements, appends zero bytes, and throws beyond \<open>max_size()\<close>.\<close>

definition vector_resize :: "byte list \<Rightarrow> size_t \<Rightarrow> byte list result" where
  "vector_resize v n =
     (if max_vector < unat n then Inl LengthError
      else Inr (take (unat n) v @ replicate (unat n - length v) 0))"

definition Buffer_ctor :: "size_t \<Rightarrow> buffer result" where
  "Buffer_ctor inInitialSize =
     andThen (vector_resize [] (kCheapPrepend + inInitialSize)) (\<lambda>v.
       Inr \<lparr>m_buffer = v, m_readerIndex = kCheapPrepend, m_writerIndex = kCheapPrepend\<rparr>)"

definition readableBytes :: "buffer \<Rightarrow> size_t" where
  "readableBytes b = m_writerIndex b - m_readerIndex b"

definition writableBytes :: "buffer \<Rightarrow> size_t" where
  "writableBytes b = vector_size (m_buffer b) - m_writerIndex b"

definition prependableBytes :: "buffer \<Rightarrow> size_t" where
  "prependableBytes b = m_readerIndex b"

text \<open>\<open>peek()\<close> with a length: the bytes a caller reads from the first readable one on.\<close>

definition peek :: "buffer \<Rightarrow> size_t \<Rightarrow> byte list result" where
  "peek b inLen = slice (m_buffer b) (unat (m_readerIndex b)) (unat inLen)"

definition retrieveAll :: "buffer \<Rightarrow> buffer" where
  "retrieveAll b = b\<lparr>m_readerIndex := kCheapPrepend, m_writerIndex := kCheapPrepend\<rparr>"

definition retrieve :: "size_t \<Rightarrow> buffer \<Rightarrow> buffer" where
  "retrieve inLen b =
     (if inLen < readableBytes b then b\<lparr>m_readerIndex := m_readerIndex b + inLen\<rparr>
      else retrieveAll b)"

definition retrieveAsString :: "size_t \<Rightarrow> buffer \<Rightarrow> (byte list \<times> buffer) result" where
  "retrieveAsString inLen b = andThen (peek b inLen) (\<lambda>s. Inr (s, retrieve inLen b))"

definition retrieveAllAsString :: "buffer \<Rightarrow> (byte list \<times> buffer) result" where
  "retrieveAllAsString b = retrieveAsString (readableBytes b) b"

definition makeSpace :: "size_t \<Rightarrow> buffer \<Rightarrow> buffer result" where
  "makeSpace inLen b =
     (if writableBytes b + prependableBytes b < inLen + kCheapPrepend
      then andThen (vector_resize (m_buffer b) (m_writerIndex b + inLen)) (\<lambda>v.
             Inr (b\<lparr>m_buffer := v\<rparr>))
      else let readable = readableBytes b in
        andThen (std_copy (m_buffer b) (unat (m_readerIndex b)) (unat (m_writerIndex b))
                   (unat kCheapPrepend)) (\<lambda>v.
          Inr (b\<lparr>m_buffer := v, m_readerIndex := kCheapPrepend,
                 m_writerIndex := kCheapPrepend + readable\<rparr>)))"

definition ensureWriteableBytes :: "size_t \<Rightarrow> buffer \<Rightarrow> buffer result" where
  "ensureWriteableBytes inLen b = (if writableBytes b < inLen then makeSpace inLen b else Inr b)"

definition Buffer_append :: "byte list \<Rightarrow> buffer \<Rightarrow> buffer result" where
  "Buffer_append inData b = (let inLen = vector_size inData in
     andThen (ensureWriteableBytes inLen b) (\<lambda>b.
     andThen (poke (m_buffer b) (unat (m_writerIndex b)) inData) (\<lambda>v.
       Inr (b\<lparr>m_buffer := v, m_writerIndex := m_writerIndex b + inLen\<rparr>))))"

text \<open>
  \<open>readFd\<close>: one \<open>readv\<close> into the free space of the vector and, when that is smaller than it, a
  64 KiB array on the stack; \<open>Inl e\<close> is the return value \<open>-1\<close> with \<open>*inSaveErrno = e\<close>.
\<close>

definition Buffer_readFd ::
    "'k os \<Rightarrow> int \<Rightarrow> buffer \<Rightarrow> 'k \<Rightarrow> ((errno + nat) \<times> buffer \<times> 'k) result" where
  "Buffer_readFd os inFd b k =
     (let writable = writableBytes b;
          caps = (if writable < kExtraBufSize then [unat writable, unat kExtraBufSize]
                  else [unat writable])
      in case sys_readv os inFd caps k of
           (Inl e, k') \<Rightarrow> Inr (Inl e, b, k')
         | (Inr bs, k') \<Rightarrow>
             andThen (poke (m_buffer b) (unat (m_writerIndex b)) (take (unat writable) bs)) (\<lambda>v.
               let n = length bs; b1 = b\<lparr>m_buffer := v\<rparr> in
               if int n \<le> sint writable
               then Inr (Inr n, b1\<lparr>m_writerIndex := m_writerIndex b + of_nat n\<rparr>, k')
               else andThen (Buffer_append (drop (unat writable) bs)
                               (b1\<lparr>m_writerIndex := vector_size v\<rparr>)) (\<lambda>b2.
                      Inr (Inr n, b2, k'))))"

definition Buffer_writeFd ::
    "'k os \<Rightarrow> int \<Rightarrow> buffer \<Rightarrow> 'k \<Rightarrow> ((errno + nat) \<times> 'k) result" where
  "Buffer_writeFd os inFd b k =
     (let readable = readableBytes b in
      if readable = 0 then Inr (Inr 0, k)
      else andThen (peek b readable) (\<lambda>bs. Inr (sys_write os inFd bs k)))"

section \<open>The invariant and the byte sequence a buffer holds\<close>

definition buffer_ok :: "buffer \<Rightarrow> bool" where
  "buffer_ok b \<longleftrightarrow>
     8 \<le> unat (m_readerIndex b) \<and> unat (m_readerIndex b) \<le> unat (m_writerIndex b) \<and>
     unat (m_writerIndex b) \<le> length (m_buffer b) \<and> length (m_buffer b) \<le> max_vector"

definition contents :: "buffer \<Rightarrow> byte list" where
  "contents b = take (unat (m_writerIndex b) - unat (m_readerIndex b))
                  (drop (unat (m_readerIndex b)) (m_buffer b))"

subsection \<open>Sizes below the largest object size do not wrap\<close>

lemma unat_kCheapPrepend [simp]: "unat kCheapPrepend = 8"
  by (simp add: kCheapPrepend_def)

lemma unat_of_nat_object: "n \<le> max_vector \<Longrightarrow> unat (of_nat n :: size_t) = n"
  by (simp add: max_vector_def unat_of_nat take_bit_nat_eq_self)

lemma unat_vector_size: "length v \<le> max_vector \<Longrightarrow> unat (vector_size v) = length v"
  by (simp add: vector_size_def unat_of_nat_object)

lemma unat_add_object:
  assumes "unat (x :: size_t) \<le> max_vector + 1" "unat y \<le> max_vector"
  shows "unat (x + y) = unat x + unat y"
proof -
  have "unat x + unat y < 2 ^ LENGTH(64)"
    using assms by (simp add: max_vector_def)
  then show ?thesis by (simp add: unat_plus_if_size word_size)
qed

lemma unat_diff_size: "unat (y :: size_t) \<le> unat x \<Longrightarrow> unat (x - y) = unat x - unat y"
  by (simp add: unat_sub word_le_nat_alt)

lemma eight_le_max_vector [simp]: "8 \<le> max_vector"
  by (simp add: max_vector_def)

subsection \<open>What the invariant gives\<close>

lemma buffer_okD:
  assumes "buffer_ok b"
  shows "8 \<le> unat (m_readerIndex b)" "unat (m_readerIndex b) \<le> unat (m_writerIndex b)"
    "unat (m_writerIndex b) \<le> length (m_buffer b)" "length (m_buffer b) \<le> max_vector"
    "unat (m_writerIndex b) \<le> max_vector" "unat (m_readerIndex b) \<le> max_vector"
  using assms by (auto simp: buffer_ok_def)

lemma unat_readableBytes:
  "buffer_ok b \<Longrightarrow> unat (readableBytes b) = unat (m_writerIndex b) - unat (m_readerIndex b)"
  by (simp add: readableBytes_def buffer_okD unat_diff_size)

lemma unat_writableBytes:
  assumes "buffer_ok b"
  shows "unat (writableBytes b) = length (m_buffer b) - unat (m_writerIndex b)"
  using buffer_okD [OF assms] by (simp add: writableBytes_def unat_vector_size unat_diff_size)

lemma length_contents: "buffer_ok b \<Longrightarrow> length (contents b) = unat (readableBytes b)"
  using buffer_okD [of b] by (simp add: contents_def unat_readableBytes)

lemma contents_empty_iff: "buffer_ok b \<Longrightarrow> readableBytes b = 0 \<longleftrightarrow> contents b = []"
  using length_contents [of b] by (metis length_0_conv unat_eq_zero)

lemma contents_bound: "buffer_ok b \<Longrightarrow> length (contents b) \<le> max_vector"
  using buffer_okD [of b] by (simp add: contents_def)

lemma peek_prefix:
  assumes ok: "buffer_ok b" and n: "unat n \<le> length (contents b)"
  shows "peek b n = Inr (take (unat n) (contents b))"
proof -
  have le: "unat n \<le> unat (m_writerIndex b) - unat (m_readerIndex b)"
    using n ok by (simp add: length_contents unat_readableBytes)
  then have "unat (m_readerIndex b) + unat n \<le> length (m_buffer b)"
    using buffer_okD [OF ok] by linarith
  then show ?thesis
    using le by (simp add: peek_def slice_def contents_def take_drop_prefix)
qed

lemma peek_readable: "buffer_ok b \<Longrightarrow> peek b (readableBytes b) = Inr (contents b)"
  by (simp add: peek_prefix length_contents [symmetric])

section \<open>Constructor, retrieve\<close>

lemma Buffer_ctor_ok:
  assumes "8 + unat n \<le> max_vector"
  shows "succeeds (\<lambda>b. buffer_ok b \<and> contents b = [] \<and> unat (writableBytes b) = unat n)
           (Buffer_ctor n)"
proof -
  have n: "unat (kCheapPrepend + n) = 8 + unat n"
    using assms unat_add_object [of kCheapPrepend n] by simp
  define b where "b = \<lparr>m_buffer = replicate (8 + unat n) 0,
      m_readerIndex = kCheapPrepend, m_writerIndex = kCheapPrepend\<rparr>"
  have ok: "buffer_ok b"
    using assms by (simp add: buffer_ok_def b_def)
  moreover have "contents b = []"
    by (simp add: contents_def b_def)
  moreover have "unat (writableBytes b) = unat n"
    by (simp only: unat_writableBytes [OF ok]) (simp add: b_def)
  moreover have "Buffer_ctor n = Inr b"
    using assms n by (simp add: Buffer_ctor_def vector_resize_def b_def)
  ultimately show ?thesis by simp
qed

lemma retrieveAll_ok:
  assumes "buffer_ok b"
  shows "buffer_ok (retrieveAll b) \<and> contents (retrieveAll b) = []"
proof -
  have "8 \<le> length (m_buffer b)" and "length (m_buffer b) \<le> max_vector"
    using buffer_okD [OF assms] by linarith+
  then show ?thesis by (simp add: buffer_ok_def retrieveAll_def contents_def)
qed

lemma retrieve_ok:
  assumes ok: "buffer_ok b"
  shows "buffer_ok (retrieve n b) \<and> contents (retrieve n b) = drop (unat n) (contents b)"
proof (cases "n < readableBytes b")
  case True
  then have lt: "unat n < unat (m_writerIndex b) - unat (m_readerIndex b)"
    using ok by (simp add: word_less_nat_alt unat_readableBytes)
  then have sum: "unat (m_readerIndex b + n) = unat (m_readerIndex b) + unat n"
    using buffer_okD [OF ok] by (intro unat_add_object) linarith+
  show ?thesis
    using True lt sum buffer_okD [OF ok]
    by (simp add: retrieve_def buffer_ok_def contents_def drop_take)
      (simp add: add.commute)
next
  case False
  then have "length (contents b) \<le> unat n"
    using ok by (simp add: word_less_nat_alt length_contents)
  then show ?thesis
    using False retrieveAll_ok [OF ok] by (simp add: retrieve_def)
qed

lemma retrieve_buffer [simp]: "m_buffer (retrieve n b) = m_buffer b"
  by (simp add: retrieve_def retrieveAll_def)

section \<open>Making room\<close>

text \<open>
  The branch that moves the bytes to the front is taken only when the free space before and behind
  them suffices, and then the reader index is past the prepend area: the ranges of the
  \<open>std::copy\<close> may overlap, but its destination never lies inside its source.
\<close>

lemma makeSpace_wrap:
  assumes ok: "buffer_ok b" and n: "unat n \<le> max_vector"
  shows "writableBytes b + prependableBytes b < n + kCheapPrepend \<longleftrightarrow>
           length (m_buffer b) < unat n + 8 + unat (readableBytes b)"
proof -
  have "unat (writableBytes b + prependableBytes b)
      = length (m_buffer b) - unat (m_writerIndex b) + unat (m_readerIndex b)"
    using buffer_okD [OF ok] unat_writableBytes [OF ok]
    by (subst unat_add_object) (auto simp: prependableBytes_def)
  moreover have "unat (n + kCheapPrepend) = unat n + 8"
    using n by (subst unat_add_object) simp_all
  ultimately show ?thesis
    using buffer_okD [OF ok] unat_readableBytes [OF ok] by (auto simp: word_less_nat_alt)
qed

lemma makeSpace_grow:
  assumes ok: "buffer_ok b" and n: "unat n \<le> max_vector"
    and full: "length (m_buffer b) < unat n + 8 + unat (readableBytes b)"
    and space: "unat (writableBytes b) < unat n"
  shows "makeSpace n b =
     (if max_vector < unat (m_writerIndex b) + unat n then Inl LengthError
      else Inr (b\<lparr>m_buffer := m_buffer b @
             replicate (unat (m_writerIndex b) + unat n - length (m_buffer b)) 0\<rparr>))"
proof -
  have "unat (m_writerIndex b + n) = unat (m_writerIndex b) + unat n"
    using buffer_okD [OF ok] n by (intro unat_add_object) linarith+
  moreover have "length (m_buffer b) \<le> unat (m_writerIndex b) + unat n"
    using space unat_writableBytes [OF ok] by linarith
  ultimately show ?thesis
    using full makeSpace_wrap [OF ok n] by (simp add: makeSpace_def vector_resize_def)
qed

lemma makeSpace_move:
  assumes ok: "buffer_ok b" and n: "unat n \<le> max_vector"
    and fits: "unat n + 8 + unat (readableBytes b) \<le> length (m_buffer b)"
    and space: "unat (writableBytes b) < unat n"
  shows "8 < unat (m_readerIndex b)"
    and "makeSpace n b = Inr (b\<lparr>
           m_buffer := take 8 (m_buffer b) @ contents b @
             drop (8 + length (contents b)) (m_buffer b),
           m_readerIndex := kCheapPrepend,
           m_writerIndex := kCheapPrepend + readableBytes b\<rparr>)"
proof -
  note D = buffer_okD [OF ok]
  show r: "8 < unat (m_readerIndex b)"
    using fits space unat_writableBytes [OF ok] unat_readableBytes [OF ok] D by linarith
  have "std_copy (m_buffer b) (unat (m_readerIndex b)) (unat (m_writerIndex b)) 8
      = Inr (take 8 (m_buffer b) @ contents b @ drop (8 + length (contents b)) (m_buffer b))"
    using r D by (simp add: std_copy_def contents_def)
  then show "makeSpace n b = Inr (b\<lparr>
           m_buffer := take 8 (m_buffer b) @ contents b @
             drop (8 + length (contents b)) (m_buffer b),
           m_readerIndex := kCheapPrepend,
           m_writerIndex := kCheapPrepend + readableBytes b\<rparr>)"
    using fits makeSpace_wrap [OF ok n] by (simp add: makeSpace_def)
qed

text \<open>
  Exactly when \<open>n\<close> more bytes can be stored: behind the writer index after growing the vector to at
  most its maximal size, or in the vector as it is, after moving the bytes to the front.
\<close>

definition append_fits :: "nat \<Rightarrow> buffer \<Rightarrow> bool" where
  "append_fits n b \<longleftrightarrow> unat (m_writerIndex b) + n \<le> max_vector
     \<or> n + 8 + unat (readableBytes b) \<le> length (m_buffer b)"

text \<open>What making room for \<open>n\<close> bytes keeps and gives.\<close>

definition roomy :: "nat \<Rightarrow> buffer \<Rightarrow> buffer \<Rightarrow> bool" where
  "roomy n b b' \<longleftrightarrow> buffer_ok b' \<and> contents b' = contents b \<and> n \<le> unat (writableBytes b') \<and>
     length (m_buffer b') \<le> max (length (m_buffer b)) (unat (m_writerIndex b) + n)"

lemma makeSpace_roomy:
  assumes ok: "buffer_ok b" and n: "unat n \<le> max_vector"
    and space: "unat (writableBytes b) < unat n" and fits: "append_fits (unat n) b"
  shows "succeeds (roomy (unat n) b) (makeSpace n b)"
proof (cases "unat n + 8 + unat (readableBytes b) \<le> length (m_buffer b)")
  case False
  note D = buffer_okD [OF ok]
  let ?m = "unat (m_writerIndex b) + unat n"
  have m: "?m \<le> max_vector" "length (m_buffer b) \<le> ?m"
    using fits False space D unat_writableBytes [OF ok] by (auto simp: append_fits_def)
  define b' where "b' = b\<lparr>m_buffer := m_buffer b @ replicate (?m - length (m_buffer b)) 0\<rparr>"
  have eq: "makeSpace n b = Inr b'"
    using False makeSpace_grow [OF ok n _ space] m by (simp add: b'_def)
  have ok': "buffer_ok b'"
    using D m by (simp add: buffer_ok_def b'_def)
  have "contents b' = contents b"
    using D by (simp add: contents_def b'_def)
  moreover have "unat n \<le> unat (writableBytes b')"
    using D m by (simp only: unat_writableBytes [OF ok']) (simp add: b'_def)
  ultimately show ?thesis
    using eq ok' m by (simp add: roomy_def b'_def)
next
  case True
  note D = buffer_okD [OF ok] and L = length_contents [OF ok] unat_readableBytes [OF ok]
  define b' where "b' = b\<lparr>
      m_buffer := take 8 (m_buffer b) @ contents b @ drop (8 + length (contents b)) (m_buffer b),
      m_readerIndex := kCheapPrepend, m_writerIndex := kCheapPrepend + readableBytes b\<rparr>"
  have eq: "makeSpace n b = Inr b'"
    using makeSpace_move(2) [OF ok n True space] by (simp add: b'_def)
  have w: "unat (m_writerIndex b') = 8 + length (contents b)"
    using D L by (simp add: b'_def unat_add_object)
  have len: "length (m_buffer b') = length (m_buffer b)"
    using True L by (simp add: b'_def)
  have "8 + length (contents b) \<le> length (m_buffer b)"
    using True L by linarith
  then have ok': "buffer_ok b'"
    using D w len by (simp add: buffer_ok_def) (simp add: b'_def)
  have "contents b' = contents b"
    using w True L by (simp add: contents_def [of b']) (simp add: b'_def)
  then show ?thesis
    using eq ok' w len True L by (simp add: roomy_def unat_writableBytes)
qed

lemma ensureWriteableBytes_roomy:
  assumes ok: "buffer_ok b" and n: "unat n \<le> max_vector" and fits: "append_fits (unat n) b"
  shows "succeeds (roomy (unat n) b) (ensureWriteableBytes n b)"
proof (cases "writableBytes b < n")
  case True
  then show ?thesis
    using makeSpace_roomy [OF ok n _ fits] by (simp add: ensureWriteableBytes_def word_less_nat_alt)
next
  case False
  then show ?thesis
    using ok by (simp add: ensureWriteableBytes_def roomy_def word_less_nat_alt)
qed

lemma ensureWriteableBytes_error:
  assumes ok: "buffer_ok b" and n: "unat n \<le> max_vector" and fits: "\<not> append_fits (unat n) b"
  shows "ensureWriteableBytes n b = Inl LengthError"
proof -
  have space: "unat (writableBytes b) < unat n"
    using fits buffer_okD [OF ok] unat_writableBytes [OF ok] by (auto simp: append_fits_def)
  then have "makeSpace n b = Inl LengthError"
    using fits by (simp add: makeSpace_grow [OF ok n _ space] append_fits_def)
  then show ?thesis
    using space by (simp add: ensureWriteableBytes_def word_less_nat_alt)
qed

section \<open>Append\<close>

lemma poke_contents:
  assumes ok: "buffer_ok b" and v: "poke (m_buffer b) (unat (m_writerIndex b)) ys = Inr v"
    and w: "unat w = unat (m_writerIndex b) + length ys"
  shows "buffer_ok (b\<lparr>m_buffer := v, m_writerIndex := w\<rparr>) \<and>
         contents (b\<lparr>m_buffer := v, m_writerIndex := w\<rparr>) = contents b @ ys"
proof -
  note D = buffer_okD [OF ok]
  have "length v = length (m_buffer b)" and "unat w \<le> length (m_buffer b)"
    using v w by (auto simp: poke_eq_Inr)
  then have "buffer_ok (b\<lparr>m_buffer := v, m_writerIndex := w\<rparr>)"
    using D w by (simp add: buffer_ok_def)
  then show ?thesis
    using poke_window [OF v D(2)] w by (simp add: contents_def)
qed

lemma Buffer_append_room:
  assumes ok: "buffer_ok b" and n: "length d \<le> unat (writableBytes b)"
  shows "\<exists>v. poke (m_buffer b) (unat (m_writerIndex b)) d = Inr v"
  using n buffer_okD [OF ok] unat_writableBytes [OF ok] by (intro poke_fits) linarith

lemma Buffer_append_ok:
  assumes ok: "buffer_ok b" and n: "length d \<le> max_vector" and fits: "append_fits (length d) b"
  shows "succeeds (\<lambda>b'. buffer_ok b' \<and> contents b' = contents b @ d \<and>
           length (m_buffer b') \<le> max (length (m_buffer b)) (unat (m_writerIndex b) + length d))
         (Buffer_append d b)"
proof -
  let ?n = "vector_size d"
  have u: "unat ?n = length d"
    using n by (rule unat_vector_size)
  obtain b1 where b1: "ensureWriteableBytes ?n b = Inr b1" and r: "roomy (length d) b b1"
    using ensureWriteableBytes_roomy [OF ok, of ?n] n fits u by (auto simp: succeeds_def)
  then have ok1: "buffer_ok b1" and c1: "contents b1 = contents b"
    and room: "length d \<le> unat (writableBytes b1)"
    by (auto simp: roomy_def)
  obtain v where v: "poke (m_buffer b1) (unat (m_writerIndex b1)) d = Inr v"
    using Buffer_append_room [OF ok1 room] ..
  have w: "unat (m_writerIndex b1 + ?n) = unat (m_writerIndex b1) + length d"
    using buffer_okD [OF ok1] n u by (subst unat_add_object) auto
  show ?thesis
    using poke_contents [OF ok1 v w] b1 v r c1
    by (simp add: Buffer_append_def roomy_def length_poke [OF v])
qed

lemma Buffer_append_error:
  assumes "buffer_ok b" "length d \<le> max_vector" "\<not> append_fits (length d) b"
  shows "Buffer_append d b = Inl LengthError"
  using ensureWriteableBytes_error [of b "vector_size d"] assms
  by (simp add: Buffer_append_def unat_vector_size)

section \<open>Reading from and writing to a descriptor\<close>

lemma le_sint_small:
  assumes "unat (x :: size_t) \<le> max_vector"
  shows "int n \<le> sint x \<longleftrightarrow> n \<le> unat x"
proof -
  have u: "uint x = int (unat x)"
    by simp
  have "unat x < 2 ^ 63"
    using assms by (simp add: max_vector_def)
  then have "int (unat x) < int (2 ^ 63)"
    by (simp only: of_nat_less_iff)
  then have "uint x < 2 ^ 63"
    by simp
  moreover have "- (2 ^ 63) \<le> uint x"
    by (rule order_trans [OF _ uint_ge_0]) simp
  ultimately have "signed_take_bit 63 (uint x) = uint x"
    by (intro signed_take_bit_int_eq_self)
  then have "sint x = uint x"
    by (simp add: sint_uint)
  then show ?thesis
    unfolding u by (simp only: of_nat_le_iff)
qed

text \<open>The case of \<open>readFd\<close> in which the free space of the vector takes all the bytes.\<close>

lemma readFd_direct:
  assumes ok: "buffer_ok b" and r: "sys_readv os fd caps k = (Inr bs, k')"
    and caps: "caps = (if writableBytes b < kExtraBufSize then [unat (writableBytes b), unat kExtraBufSize]
                       else [unat (writableBytes b)])"
    and small: "length bs \<le> unat (writableBytes b)"
  shows "succeeds (\<lambda>(n, b', k''). n = Inr (length bs) \<and> k'' = k' \<and> buffer_ok b' \<and>
           contents b' = contents b @ bs \<and> length (m_buffer b') = length (m_buffer b)) (Buffer_readFd os fd b k)"
proof -
  note D = buffer_okD [OF ok] and W = unat_writableBytes [OF ok]
  obtain v where v: "poke (m_buffer b) (unat (m_writerIndex b)) bs = Inr v"
    using Buffer_append_room [OF ok small] ..
  have bs: "length bs \<le> max_vector"
    using small W D by linarith
  have w: "unat (m_writerIndex b + of_nat (length bs)) = unat (m_writerIndex b) + length bs"
    using D bs by (subst unat_add_object) (simp_all add: unat_of_nat_object)
  have "int (length bs) \<le> sint (writableBytes b)"
    using small W D by (subst le_sint_small) linarith+
  then have "Buffer_readFd os fd b k = Inr (Inr (length bs),
      b\<lparr>m_buffer := v, m_writerIndex := m_writerIndex b + of_nat (length bs)\<rparr>, k')"
    using r v small by (simp add: Buffer_readFd_def Let_def caps [symmetric])
  then show ?thesis
    using poke_contents [OF ok v w] length_poke [OF v] by simp
qed

text \<open>The case in which bytes spill into the array on the stack and are appended from there.\<close>

lemma readFd_spill_eq:
  assumes ok: "buffer_ok b" and r: "sys_readv os fd caps k = (Inr bs, k')"
    and caps: "caps = (if writableBytes b < kExtraBufSize then [unat (writableBytes b), unat kExtraBufSize]
                       else [unat (writableBytes b)])"
    and big: "unat (writableBytes b) < length bs"
  obtains b1 where "Buffer_readFd os fd b k =
      andThen (Buffer_append (drop (unat (writableBytes b)) bs) b1) (\<lambda>b2. Inr (Inr (length bs), b2, k'))"
    and "buffer_ok b1" "contents b1 = contents b @ take (unat (writableBytes b)) bs"
    and "unat (m_writerIndex b1) = length (m_buffer b)" "length (m_buffer b1) = length (m_buffer b)"
proof -
  note D = buffer_okD [OF ok] and W = unat_writableBytes [OF ok]
  let ?w = "unat (writableBytes b)"
  have tk: "length (take ?w bs) = ?w"
    using big by simp
  obtain v where v: "poke (m_buffer b) (unat (m_writerIndex b)) (take ?w bs) = Inr v"
    using Buffer_append_room [OF ok, of "take ?w bs"] tk by auto
  have len: "length v = length (m_buffer b)"
    using v by (rule length_poke)
  define b1 where "b1 = b\<lparr>m_buffer := v, m_writerIndex := vector_size v\<rparr>"
  have w: "unat (vector_size v) = unat (m_writerIndex b) + length (take ?w bs)"
    using len D W tk by (simp add: unat_vector_size)
  have "buffer_ok b1 \<and> contents b1 = contents b @ take ?w bs"
    unfolding b1_def by (rule poke_contents [OF ok v w])
  moreover have "\<not> int (length bs) \<le> sint (writableBytes b)"
    using big W D by (subst le_sint_small) linarith+
  then have "Buffer_readFd os fd b k =
      andThen (Buffer_append (drop ?w bs) b1) (\<lambda>b2. Inr (Inr (length bs), b2, k'))"
    using r v by (simp add: Buffer_readFd_def Let_def caps [symmetric] b1_def)
  moreover have "unat (m_writerIndex b1) = length (m_buffer b)" "length (m_buffer b1) = length (m_buffer b)"
    using len D by (simp_all add: b1_def unat_vector_size)
  ultimately show thesis
    using that by blast
qed

lemma readFd_spill:
  assumes ok: "buffer_ok b" and r: "sys_readv os fd caps k = (Inr bs, k')"
    and caps: "caps = (if writableBytes b < kExtraBufSize then [unat (writableBytes b), unat kExtraBufSize]
                       else [unat (writableBytes b)])"
    and big: "unat (writableBytes b) < length bs"
    and fits: "length (m_buffer b) + (length bs - unat (writableBytes b)) \<le> max_vector"
  shows "succeeds (\<lambda>(n, b', k''). n = Inr (length bs) \<and> k'' = k' \<and> buffer_ok b' \<and>
           contents b' = contents b @ bs \<and> length (m_buffer b') \<le> length (m_buffer b) + (length bs - unat (writableBytes b)))
         (Buffer_readFd os fd b k)"
proof -
  obtain b1 where b1: "Buffer_readFd os fd b k =
      andThen (Buffer_append (drop (unat (writableBytes b)) bs) b1) (\<lambda>b2. Inr (Inr (length bs), b2, k'))"
    "buffer_ok b1" "contents b1 = contents b @ take (unat (writableBytes b)) bs"
    "unat (m_writerIndex b1) = length (m_buffer b)" "length (m_buffer b1) = length (m_buffer b)"
    using readFd_spill_eq [OF ok r caps big] .
  have "append_fits (length (drop (unat (writableBytes b)) bs)) b1"
    using fits b1(4) by (simp add: append_fits_def)
  moreover have "length (drop (unat (writableBytes b)) bs) \<le> max_vector"
    using fits by simp
  ultimately show ?thesis
    using Buffer_append_ok [OF b1(2)] b1(1,3-5) big by (fastforce simp: succeeds_def)
qed

text \<open>Whatever the kernel delivers, when the call returns, the bytes are at the end of the buffer.\<close>

lemma Buffer_readFd_error:
  assumes "sys_readv os fd (if writableBytes b < kExtraBufSize
              then [unat (writableBytes b), unat kExtraBufSize] else [unat (writableBytes b)]) k
            = (Inl e, k')"
  shows "Buffer_readFd os fd b k = Inr (Inl e, b, k')"
  using assms by (simp add: Buffer_readFd_def Let_def)

lemma Buffer_readFd_ok:
  assumes ok: "buffer_ok b" and contract: "readv_contract os"
    and fits: "length (m_buffer b) + 65536 \<le> max_vector"
    and r: "sys_readv os fd (if writableBytes b < kExtraBufSize
              then [unat (writableBytes b), unat kExtraBufSize] else [unat (writableBytes b)]) k
            = (Inr bs, k')"
  shows "succeeds (\<lambda>(n, b', k''). n = Inr (length bs) \<and> k'' = k' \<and> buffer_ok b' \<and>
           contents b' = contents b @ bs \<and> length (m_buffer b') \<le> length (m_buffer b) + 65536 \<and>
           length bs \<le> length (m_buffer b) + 65536) (Buffer_readFd os fd b k)"
proof (cases "length bs \<le> unat (writableBytes b)")
  case True
  moreover have "unat (writableBytes b) \<le> length (m_buffer b)"
    using unat_writableBytes [OF ok] by simp
  ultimately show ?thesis
    using readFd_direct [OF ok r refl] by (auto simp: succeeds_def)
next
  case False
  have few: "length bs \<le> unat (writableBytes b) + 65536"
    using readv_contractD [OF contract r]
    by (simp add: kExtraBufSize_def split: if_splits)
  then have "length (m_buffer b) + (length bs - unat (writableBytes b)) \<le> max_vector"
    using fits by linarith
  moreover have "unat (writableBytes b) \<le> length (m_buffer b)"
    using unat_writableBytes [OF ok] by simp
  ultimately show ?thesis
    using False few readFd_spill [OF ok r refl] by (fastforce simp: succeeds_def)
qed

definition read_caps :: "buffer \<Rightarrow> nat list" where
  "read_caps b = (if writableBytes b < kExtraBufSize then [unat (writableBytes b), unat kExtraBufSize]
                  else [unat (writableBytes b)])"

lemma Buffer_readFd_holds:
  assumes ok: "buffer_ok b" and rc: "readv_contract os"
  shows "holds (\<lambda>(res, b', k'). buffer_ok b' \<and> k' = snd (sys_readv os fd (read_caps b) k) \<and>
           (case fst (sys_readv os fd (read_caps b) k) of
              Inl e \<Rightarrow> res = Inl e \<and> b' = b
            | Inr bs \<Rightarrow> res = Inr (length bs) \<and> contents b' = contents b @ bs))
           (Buffer_readFd os fd b k)"
proof -
  obtain r k' where r: "sys_readv os fd (read_caps b) k = (r, k')"
    by fastforce
  show ?thesis
  proof (cases r)
    case (Inl e)
    have "Buffer_readFd os fd b k = Inr (Inl e, b, k')"
      using r Inl by (intro Buffer_readFd_error) (simp add: read_caps_def)
    then show ?thesis using r ok Inl by simp
  next
    case (Inr bs)
    show ?thesis
    proof (cases "length bs \<le> unat (writableBytes b)")
      case True
      then show ?thesis
        using readFd_direct [OF ok r [unfolded Inr] read_caps_def] r Inr by (auto simp: holds_def succeeds_def)
    next
      case False
      let ?w = "unat (writableBytes b)"
      obtain b1 where b1: "Buffer_readFd os fd b k =
          andThen (Buffer_append (drop ?w bs) b1) (\<lambda>b2. Inr (Inr (length bs), b2, k'))"
        "buffer_ok b1" "contents b1 = contents b @ take ?w bs" "unat (m_writerIndex b1) = length (m_buffer b)"
        using readFd_spill_eq [OF ok r [unfolded Inr] read_caps_def] False not_le by blast
      have "length bs \<le> ?w + 65536"
        using readv_contractD [OF rc r [unfolded Inr]] by (simp add: read_caps_def kExtraBufSize_def split: if_splits)
      then have "length (drop ?w bs) \<le> max_vector"
        by (simp add: max_vector_def)
      then have "holds (\<lambda>b'. buffer_ok b' \<and> contents b' = contents b @ bs) (Buffer_append (drop ?w bs) b1)"
        by (cases "append_fits (length (drop ?w bs)) b1")
          (use b1 Buffer_append_ok [OF b1(2)] Buffer_append_error [OF b1(2)] in \<open>fastforce simp: succeeds_def\<close>)+
      then show ?thesis
        unfolding b1(1) by (rule holds_andThen) (use r Inr in simp)
    qed
  qed
qed

lemma Buffer_writeFd_eq:
  "buffer_ok b \<Longrightarrow> Buffer_writeFd os fd b k =
     (if contents b = [] then Inr (Inr 0, k) else Inr (sys_write os fd (contents b) k))"
  by (simp add: Buffer_writeFd_def Let_def contents_empty_iff peek_readable)

section \<open>The byte queue the connections rely on\<close>

text \<open>
  What \<open>TcpConnection\<close> needs of its buffers: a queue of bytes. \<open>room xs q\<close> says that pushing
  \<open>xs\<close> cannot fail; \<open>weight q\<close> bounds the storage in use, and there is room as long as it stays
  below \<open>cap\<close>; \<open>amount\<close> reads the argument of \<open>pop\<close> as a number of bytes. A run is a list of
  pushes (\<open>Inl\<close>) and pops (\<open>Inr\<close>), executed on the queue or on the list it stands for.
\<close>

fun queue_run :: "('a list \<Rightarrow> 'q \<Rightarrow> 'q result) \<Rightarrow> ('n \<Rightarrow> 'q \<Rightarrow> 'q) \<Rightarrow> ('a list + 'n) list \<Rightarrow> 'q \<Rightarrow> 'q result" where
  "queue_run push pop [] q = Inr q"
| "queue_run push pop (Inl xs # cs) q = andThen (push xs q) (queue_run push pop cs)"
| "queue_run push pop (Inr n # cs) q = queue_run push pop cs (pop n q)"

fun list_run :: "('n \<Rightarrow> nat) \<Rightarrow> ('a list + 'n) list \<Rightarrow> 'a list \<Rightarrow> 'a list" where
  "list_run amount [] xs = xs"
| "list_run amount (Inl ys # cs) xs = list_run amount cs (xs @ ys)"
| "list_run amount (Inr n # cs) xs = list_run amount cs (drop (amount n) xs)"

fun pushed :: "('a list + 'n) list \<Rightarrow> nat" where
  "pushed [] = 0"
| "pushed (Inl xs # cs) = length xs + pushed cs"
| "pushed (Inr n # cs) = pushed cs"

locale byte_queue =
  fixes invar :: "'q \<Rightarrow> bool"
    and items :: "'q \<Rightarrow> 'a list"
    and room :: "'a list \<Rightarrow> 'q \<Rightarrow> bool"
    and push :: "'a list \<Rightarrow> 'q \<Rightarrow> 'q result"
    and pop :: "'n \<Rightarrow> 'q \<Rightarrow> 'q"
    and amount :: "'n \<Rightarrow> nat"
    and weight :: "'q \<Rightarrow> nat"
    and cap :: nat
  assumes push_room: "invar q \<Longrightarrow> length xs \<le> cap \<Longrightarrow> room xs q \<Longrightarrow>
      succeeds (\<lambda>q'. invar q' \<and> items q' = items q @ xs \<and> weight q' \<le> weight q + length xs) (push xs q)"
    and push_full: "invar q \<Longrightarrow> length xs \<le> cap \<Longrightarrow> \<not> room xs q \<Longrightarrow> push xs q = Inl LengthError"
    and light_room: "invar q \<Longrightarrow> weight q + length xs \<le> cap \<Longrightarrow> room xs q"
    and pop_items: "invar q \<Longrightarrow> invar (pop n q) \<and> items (pop n q) = drop (amount n) (items q) \<and>
      weight (pop n q) \<le> weight q"
begin

lemma push_holds:
  "invar q \<Longrightarrow> length xs \<le> cap \<Longrightarrow> holds (\<lambda>q'. invar q' \<and> items q' = items q @ xs) (push xs q)"
  by (cases "room xs q") (auto simp: push_full holds_def succeeds_def dest: push_room)

lemma push_error: "invar q \<Longrightarrow> length xs \<le> cap \<Longrightarrow> push xs q = Inl e \<Longrightarrow> e = LengthError"
  by (cases "room xs q") (auto simp: push_full succeeds_def dest: push_room)

lemma queue_run_refines:
  assumes "invar q" and "weight q + pushed cs \<le> cap"
  shows "succeeds (\<lambda>q'. invar q' \<and> items q' = list_run amount cs (items q)) (queue_run push pop cs q)"
  using assms
proof (induction cs arbitrary: q)
  case Nil
  then show ?case by simp
next
  case (Cons c cs)
  show ?case
  proof (cases c)
    case (Inl xs)
    then have le: "weight q + length xs + pushed cs \<le> cap"
      using Cons.prems(2) by simp
    then have "succeeds (\<lambda>q'. invar q' \<and> items q' = items q @ xs \<and> weight q' \<le> weight q + length xs) (push xs q)"
      using Cons.prems(1) by (intro push_room light_room) simp_all
    then have "succeeds (\<lambda>q'. invar q' \<and> items q' = list_run amount cs (items q @ xs))
        (andThen (push xs q) (queue_run push pop cs))"
      by (rule succeeds_andThen) (use Cons.IH le in fastforce)
    then show ?thesis by (simp add: Inl)
  next
    case (Inr n)
    then have "weight (pop n q) + pushed cs \<le> cap"
      using Cons.prems pop_items [of q n] by simp
    then show ?thesis
      using Cons.IH [of "pop n q"] Cons.prems(1) by (simp add: Inr pop_items)
  qed
qed

end

interpretation buf: byte_queue buffer_ok contents "\<lambda>xs b. append_fits (length xs) b"
    Buffer_append retrieve unat "\<lambda>b. length (m_buffer b)" max_vector
proof unfold_locales
  show "succeeds (\<lambda>q'. buffer_ok q' \<and> contents q' = contents q @ xs \<and>
      length (m_buffer q') \<le> length (m_buffer q) + length xs) (Buffer_append xs q)"
    if ok: "buffer_ok q" and "length xs \<le> max_vector" "append_fits (length xs) q" for q xs
    by (rule succeeds_mono [OF Buffer_append_ok [OF that]]) (use buffer_okD(3) [OF ok] in auto)
  show "append_fits (length xs) q" if "buffer_ok q" "length (m_buffer q) + length xs \<le> max_vector" for q xs
    using that buffer_okD(3) [OF that(1)] by (simp add: append_fits_def)
qed (simp_all add: Buffer_append_error retrieve_ok)

section \<open>A concrete buffer\<close>

text \<open>A fresh buffer of 16 bytes holding \<open>1 2 3\<close>, after three bytes before them were retrieved.\<close>

definition sample_buffer :: buffer where
  "sample_buffer = \<lparr>m_buffer = replicate 11 0 @ [1, 2, 3] @ replicate 10 0, m_readerIndex = 11, m_writerIndex = 14\<rparr>"

lemma sample_buffer_ok: "buffer_ok sample_buffer"
  by (simp add: buffer_ok_def sample_buffer_def max_vector_def)

lemma sample_contents: "contents sample_buffer = [1, 2, 3]"
  by (simp add: contents_def sample_buffer_def)

section \<open>Properties\<close>

text \<open>
  C11: A buffer is a byte queue: any sequence of \<open>append\<close> and \<open>retrieve\<close> calls, as long as the bytes
  appended fit the largest vector, returns, keeps the index invariant, and leaves exactly the bytes
  the same operations leave of a list. In particular growing the vector, moving the bytes to its
  front and resetting the indices never lose, duplicate or reorder a byte, and no copy leaves the
  vector or overlaps its destination.
\<close>

theorem buffer_is_byte_queue:
  assumes "buffer_ok b" and "length (m_buffer b) + pushed cs \<le> max_vector"
  shows "succeeds (\<lambda>b'. buffer_ok b' \<and> contents b' = list_run unat cs (contents b))
     (queue_run Buffer_append retrieve cs b)"
  using assms by (rule buf.queue_run_refines)

theorem buffer_is_byte_queue_witness:
  "succeeds (\<lambda>b'. buffer_ok b' \<and> contents b' = [3, 4, 5, 6, 7])
     (queue_run Buffer_append retrieve [Inl [4, 5], Inr 2, Inl [6, 7]] sample_buffer)"
proof -
  have "length (m_buffer sample_buffer) + pushed [Inl [4, 5], Inr (2 :: size_t), Inl [6, 7 :: byte]] \<le> max_vector"
    by (simp add: sample_buffer_def max_vector_def)
  from buffer_is_byte_queue [OF sample_buffer_ok this] show ?thesis
    by (simp add: sample_contents)
qed

text \<open>
  C33: \<open>append\<close> on every branch: it succeeds exactly when the bytes fit behind the writer index within
  the largest vector, or into the vector as it is after moving the bytes to its front; then the bytes
  are at the end of the contents and the vector has grown no further than needed. Otherwise it ends
  with the \<open>std::length_error\<close> of the vector, and never with an access outside it.
\<close>

theorem append_exact:
  assumes "buffer_ok b" and "length d \<le> max_vector"
  shows "(append_fits (length d) b \<longrightarrow>
       succeeds (\<lambda>b'. buffer_ok b' \<and> contents b' = contents b @ d \<and>
         length (m_buffer b') \<le> max (length (m_buffer b)) (unat (m_writerIndex b) + length d)) (Buffer_append d b)) \<and>
     (\<not> append_fits (length d) b \<longrightarrow> Buffer_append d b = Inl LengthError)"
  using Buffer_append_ok [OF assms] Buffer_append_error [OF assms] by blast

theorem append_exact_witness:
  "succeeds (\<lambda>b'. contents b' = [1, 2, 3] @ replicate 12 7 \<and> length (m_buffer b') \<le> 26)
     (Buffer_append (replicate 12 7) sample_buffer)"
proof -
  have "append_fits (length (replicate 12 (7 :: byte))) sample_buffer"
    by (simp add: append_fits_def sample_buffer_def max_vector_def)
  then show ?thesis
    using append_exact [OF sample_buffer_ok, of "replicate 12 7"]
    by (auto simp: max_vector_def sample_contents elim!: succeeds_mono) (simp add: sample_buffer_def)
qed

text \<open>
  C35: \<open>retrieveAsString\<close> of at most the readable bytes returns the oldest bytes and leaves the rest,
  so what was appended is read back in order.
\<close>

theorem retrieveAsString_roundtrip:
  assumes "buffer_ok b" and "length d \<le> max_vector" and "append_fits (length d) b"
    and "unat n = length (contents b)"
  shows "succeeds (\<lambda>(s, b'). s = contents b \<and> buffer_ok b' \<and> contents b' = d)
     (andThen (Buffer_append d b) (retrieveAsString n))"
  using Buffer_append_ok [OF assms(1-3)]
  by (rule succeeds_andThen)
    (use assms(4) in \<open>auto simp: retrieveAsString_def peek_prefix retrieve_ok\<close>)

theorem retrieveAsString_roundtrip_witness:
  "succeeds (\<lambda>(s, b'). s = [1, 2, 3] \<and> contents b' = [9, 8]) (andThen (Buffer_append [9, 8] sample_buffer) (retrieveAsString 3))"
proof -
  have "append_fits (length [9 :: byte, 8]) sample_buffer" "length [9 :: byte, 8] \<le> max_vector"
      "unat (3 :: size_t) = length (contents sample_buffer)"
    by (simp_all add: append_fits_def sample_buffer_def max_vector_def contents_def)
  from retrieveAsString_roundtrip [OF sample_buffer_ok this(2,1,3)] show ?thesis
    by (auto simp: sample_contents elim!: succeeds_mono)
qed


text \<open>
  \<open>makeSpace\<close> adds \<open>kCheapPrepend\<close> to the requested length in \<open>size_t\<close>: within eight of
  \<open>SIZE_MAX\<close> the sum wraps, and \<open>ensureWriteableBytes\<close> returns a buffer that has no such space.
\<close>

theorem ensureWriteableBytes_wraps:
  "\<exists>b'. ensureWriteableBytes 0xFFFFFFFFFFFFFFFF sample_buffer = Inr b' \<and> unat (writableBytes b') = 13"
  by (simp add: ensureWriteableBytes_def makeSpace_def sample_buffer_def writableBytes_def readableBytes_def
      prependableBytes_def vector_size_def kCheapPrepend_def std_copy_def word_less_nat_alt)

text \<open>
  C34: \<open>readFd\<close> takes in everything \<open>readv\<close> delivers, in order, whether it fits the vector or spills
  into the 64 KiB array on the stack; it reports the number of bytes, and an error leaves the buffer
  as it was. With at most the largest vector less 64 KiB in use it never fails.
\<close>

theorem readFd_complete:
  assumes "buffer_ok b" and "readv_contract os" and "length (m_buffer b) + 65536 \<le> max_vector"
  shows "succeeds (\<lambda>(res, b', k'). buffer_ok b' \<and>
     (case sys_readv os fd (read_caps b) k of
        (Inl e, k1) \<Rightarrow> res = Inl e \<and> b' = b \<and> k' = k1
      | (Inr bs, k1) \<Rightarrow> res = Inr (length bs) \<and> contents b' = contents b @ bs \<and> k' = k1))
     (Buffer_readFd os fd b k)"
proof (cases "sys_readv os fd (read_caps b) k")
  case (Pair r k1)
  show ?thesis
  proof (cases r)
    case (Inl e)
    then show ?thesis
      using Buffer_readFd_error [of os fd b k e k1] Pair assms(1) by (simp add: read_caps_def)
  next
    case (Inr bs)
    have "succeeds (\<lambda>(n, b', k''). n = Inr (length bs) \<and> k'' = k1 \<and> buffer_ok b' \<and>
           contents b' = contents b @ bs) (Buffer_readFd os fd b k)"
      using Buffer_readFd_ok [OF assms, of fd k bs k1] Pair Inr by (auto simp: read_caps_def succeeds_def)
    then show ?thesis
      by (rule succeeds_mono) (use Pair Inr in auto)
  qed
qed

theorem readFd_complete_witness:
  "succeeds (\<lambda>(res, b', k'). res = Inr 13 \<and> contents b' = [1, 2, 3] @ replicate 13 5)
     (Buffer_readFd sim_os 4 sample_buffer (boot\<lparr>k_input := (\<lambda>_. replicate 13 5)\<rparr>))"
proof -
  have "length (m_buffer sample_buffer) + 65536 \<le> max_vector"
    by (simp add: sample_buffer_def max_vector_def)
  moreover have "read_caps sample_buffer = [10, 65536]"
    by (simp add: read_caps_def sample_buffer_def writableBytes_def vector_size_def kExtraBufSize_def)
  ultimately show ?thesis
    using readFd_complete [OF sample_buffer_ok sim_readv, of 4 "boot\<lparr>k_input := (\<lambda>_. replicate 13 5)\<rparr>"]
    by (auto simp: sample_contents elim!: succeeds_mono)
qed

end
