(* ===== verification/TcpConnection.thy ===== *)
theory TcpConnection
  imports Buffer EventLoop Socket "HOL-Library.Sublist"
begin

text \<open>
  \<open>TcpConnection\<close> (TcpConnection.h, TcpConnection.cpp): the state machine of one connection, its
  two buffers, and the handlers its channel calls back. The world gains the heap of connections.

  The callbacks of the user are named by numbers (an empty \<open>std::function\<close> is \<open>None\<close>); what they
  do is the argument \<open>hooks\<close>. The logging calls are left out: they change no state of the model.
\<close>

section \<open>The class\<close>

datatype conn_state = Disconnected | Connecting | Connected | Disconnecting

record tcpconn =
  m_tcLoop :: loop_ptr
  m_name :: string
  m_state :: conn_state
  m_reading :: bool
  m_socket :: int
  m_channel :: chan_ptr
  m_localAddr :: inet_address
  m_peerAddr :: inet_address
  m_connectionCallback :: "nat option"
  m_messageCallback :: "nat option"
  m_writeCompleteCallback :: "nat option"
  m_highWaterMarkCallback :: "nat option"
  m_closeCallback :: "nat option"
  m_highWaterMark :: size_t
  m_inputBuffer :: buffer
  m_outputBuffer :: buffer

record 'k csys = "'k lsys" +
  conn_of :: "conn_ptr \<Rightarrow> tcpconn"

record 'w conn_hooks =
  call_connection :: "nat \<Rightarrow> conn_ptr \<Rightarrow> 'w \<Rightarrow> 'w result"
  call_message :: "nat \<Rightarrow> conn_ptr \<Rightarrow> timestamp \<Rightarrow> 'w \<Rightarrow> 'w result"
  call_writeComplete :: "nat \<Rightarrow> conn_ptr \<Rightarrow> 'w \<Rightarrow> 'w result"
  call_highWaterMark :: "nat \<Rightarrow> conn_ptr \<Rightarrow> size_t \<Rightarrow> 'w \<Rightarrow> 'w result"
  call_close :: "nat \<Rightarrow> conn_ptr \<Rightarrow> 'w \<Rightarrow> 'w result"

definition kDefaultHighWaterMark :: size_t where "kDefaultHighWaterMark = 64 * 1024 * 1024"

definition upd_conn :: "conn_ptr \<Rightarrow> (tcpconn \<Rightarrow> tcpconn) \<Rightarrow> ('k, 'z) csys_scheme \<Rightarrow> ('k, 'z) csys_scheme" where
  "upd_conn p f w = w\<lparr>conn_of := (conn_of w)(p := f (conn_of w p))\<rparr>"

text \<open>Calling a \<open>std::function\<close> only when it is not empty.\<close>

definition call_user :: "nat option \<Rightarrow> (nat \<Rightarrow> 'w \<Rightarrow> 'w result) \<Rightarrow> 'w \<Rightarrow> 'w result" where
  "call_user cb call w = (case cb of None \<Rightarrow> Inr w | Some f \<Rightarrow> call f w)"

section \<open>Operations\<close>

definition setState :: "conn_ptr \<Rightarrow> conn_state \<Rightarrow> ('k, 'z) csys_scheme \<Rightarrow> ('k, 'z) csys_scheme" where
  "setState p inState w = upd_conn p (\<lambda>t. t\<lparr>m_state := inState\<rparr>) w"

text \<open>The constructor, for a connection at \<open>p\<close> with its channel at \<open>c\<close>; \<open>None\<close> is a null loop.\<close>

definition TcpConnection_ctor ::
    "'k os \<Rightarrow> conn_ptr \<Rightarrow> chan_ptr \<Rightarrow> loop_ptr option \<Rightarrow> string \<Rightarrow> int \<Rightarrow> inet_address \<Rightarrow> inet_address \<Rightarrow>
       ('k, 'z) csys_scheme \<Rightarrow> ('k, 'z) csys_scheme result" where
  "TcpConnection_ctor os p c inLoop inName inSockfd inLocalAddr inPeerAddr w =
     (case inLoop of
        None \<Rightarrow> Inl Exit
      | Some l \<Rightarrow>
          andThen (Buffer_ctor kInitialSize) (\<lambda>input.
          andThen (Buffer_ctor kInitialSize) (\<lambda>output.
            let w1 = upd_conn p (\<lambda>_. \<lparr>m_tcLoop = l, m_name = inName, m_state = Connecting, m_reading = True,
                       m_socket = inSockfd, m_channel = c, m_localAddr = inLocalAddr,
                       m_peerAddr = inPeerAddr, m_connectionCallback = None, m_messageCallback = None,
                       m_writeCompleteCallback = None, m_highWaterMarkCallback = None,
                       m_closeCallback = None, m_highWaterMark = kDefaultHighWaterMark,
                       m_inputBuffer = input, m_outputBuffer = output\<rparr>) w;
                w2 = upd_chan c (\<lambda>_. Channel_ctor l inSockfd) w1;
                w3 = upd_chan c (setReadCallback (TcpConnection_handleRead_cb p)) w2;
                w4 = upd_chan c (setWriteCallback (TcpConnection_handleWrite_cb p)) w3;
                w5 = upd_chan c (setCloseCallback (TcpConnection_handleClose_cb p)) w4;
                w6 = upd_chan c (setErrorCallback (TcpConnection_handleError_cb p)) w5
            in Inr (w6\<lparr>kern := setKeepAlive os (m_socket (conn_of w6 p)) True (kern w6)\<rparr>))))"

definition shutdownInLoop :: "'k os \<Rightarrow> conn_ptr \<Rightarrow> ('k, 'z) csys_scheme \<Rightarrow> ('k, 'z) csys_scheme result" where
  "shutdownInLoop os p w =
     (if \<not> isWriting (chan w (m_channel (conn_of w p)))
      then Inr (w\<lparr>kern := shutdownWrite os (m_socket (conn_of w p)) (kern w)\<rparr>)
      else Inr w)"

definition TcpConnection_shutdown :: "'k os \<Rightarrow> conn_ptr \<Rightarrow> ('k, 'z) csys_scheme \<Rightarrow> ('k, 'z) csys_scheme result" where
  "TcpConnection_shutdown os p w =
     (if m_state (conn_of w p) = Connected then
        let w1 = setState p Disconnecting w
        in runInLoop os (m_tcLoop (conn_of w1 p)) (ShutdownInLoop_fn p) (shutdownInLoop os p) w1
      else Inr w)"

text \<open>The second half of \<open>sendInLoop\<close>: what was not written goes to the output buffer.\<close>

definition send_rest ::
    "'k os \<Rightarrow> conn_ptr \<Rightarrow> byte list \<Rightarrow> nat \<Rightarrow> size_t \<Rightarrow> bool \<Rightarrow>
       ('k, 'z) csys_scheme \<Rightarrow> ('k, 'z) csys_scheme result" where
  "send_rest os p inData nwrote remaining faultError w =
     (if \<not> faultError \<and> 0 < remaining then
        let t = conn_of w p;
            oldLen = readableBytes (m_outputBuffer t);
            w1 = (if m_highWaterMark t \<le> oldLen + remaining \<and> oldLen < m_highWaterMark t
                     \<and> m_highWaterMarkCallback t \<noteq> None
                  then queueInLoop os (m_tcLoop t) (HighWaterMark_fn p (oldLen + remaining)) w else w)
        in andThen (Buffer_append (drop nwrote inData) (m_outputBuffer (conn_of w1 p))) (\<lambda>b.
             let w2 = upd_conn p (\<lambda>t. t\<lparr>m_outputBuffer := b\<rparr>) w1; c = m_channel (conn_of w2 p)
             in if \<not> isWriting (chan w2 c) then enableWriting os c w2 else Inr w2)
      else Inr w)"

definition sendInLoop ::
    "'k os \<Rightarrow> conn_ptr \<Rightarrow> byte list \<Rightarrow> ('k, 'z) csys_scheme \<Rightarrow> ('k, 'z) csys_scheme result" where
  "sendInLoop os p inData w =
     (let t = conn_of w p; inLen = vector_size inData; c = m_channel t in
      if m_state t = Disconnected then Inr w
      else if \<not> isWriting (chan w c) \<and> readableBytes (m_outputBuffer t) = 0 then
        (case sys_write os (m_fd (chan w c)) inData (kern w) of
           (Inr n, k') \<Rightarrow>
             let w1 = w\<lparr>kern := k'\<rparr>; remaining = inLen - of_nat n;
                 w2 = (if remaining = 0 \<and> m_writeCompleteCallback t \<noteq> None
                       then queueInLoop os (m_tcLoop t) (WriteComplete_fn p) w1 else w1)
             in send_rest os p inData n remaining False w2
         | (Inl e, k') \<Rightarrow>
             let w1 = w\<lparr>kern := k'\<rparr>;
                 faultError = (if e \<noteq> EWOULDBLOCK then e = EPIPE \<or> e = ECONNRESET else False)
             in send_rest os p inData 0 inLen faultError w1)
      else send_rest os p inData 0 inLen False w)"

definition TcpConnection_send ::
    "'k os \<Rightarrow> conn_ptr \<Rightarrow> byte list \<Rightarrow> ('k, 'z) csys_scheme \<Rightarrow> ('k, 'z) csys_scheme result" where
  "TcpConnection_send os p inMsg w =
     (let t = conn_of w p in
      if m_state t = Connected then
        if isInLoopThread (m_tcLoop t) w then sendInLoop os p inMsg w
        else runInLoop os (m_tcLoop t) (SendInLoop_fn p inMsg) (sendInLoop os p inMsg) w
      else Inr w)"

definition connectEstablished ::
    "'k os \<Rightarrow> (('k, 'z) csys_scheme) conn_hooks \<Rightarrow> conn_ptr \<Rightarrow> ('k, 'z) csys_scheme \<Rightarrow> ('k, 'z) csys_scheme result" where
  "connectEstablished os hooks p w =
     (let w1 = setState p Connected w; c = m_channel (conn_of w1 p);
          w2 = upd_chan c (Channel_tie p) w1
      in andThen (enableReading os c w2) (\<lambda>w3.
           call_user (m_connectionCallback (conn_of w3 p)) (\<lambda>cb. call_connection hooks cb p) w3))"

definition connectDestroyed ::
    "'k os \<Rightarrow> (('k, 'z) csys_scheme) conn_hooks \<Rightarrow> conn_ptr \<Rightarrow> ('k, 'z) csys_scheme \<Rightarrow> ('k, 'z) csys_scheme result" where
  "connectDestroyed os hooks p w =
     andThen
       (if m_state (conn_of w p) = Connected then
          let w0 = setState p Disconnected w in
          andThen (disableAll os (m_channel (conn_of w0 p)) w0) (\<lambda>w1.
            call_user (m_connectionCallback (conn_of w1 p)) (\<lambda>cb. call_connection hooks cb p) w1)
        else Inr w) (\<lambda>w2.
       Channel_remove os (m_channel (conn_of w2 p)) w2)"

definition TcpConnection_handleClose ::
    "'k os \<Rightarrow> (('k, 'z) csys_scheme) conn_hooks \<Rightarrow> conn_ptr \<Rightarrow> ('k, 'z) csys_scheme \<Rightarrow> ('k, 'z) csys_scheme result" where
  "TcpConnection_handleClose os hooks p w =
     (let w1 = setState p Disconnected w in
      andThen (disableAll os (m_channel (conn_of w1 p)) w1) (\<lambda>w2.
      andThen (call_user (m_connectionCallback (conn_of w2 p)) (\<lambda>cb. call_connection hooks cb p) w2) (\<lambda>w3.
        call_user (m_closeCallback (conn_of w3 p)) (\<lambda>cb. call_close hooks cb p) w3)))"

definition TcpConnection_handleError :: "'k os \<Rightarrow> conn_ptr \<Rightarrow> ('k, 'z) csys_scheme \<Rightarrow> ('k, 'z) csys_scheme result" where
  "TcpConnection_handleError os p w =
     Inr (w\<lparr>kern := snd (sys_so_error os (m_fd (chan w (m_channel (conn_of w p)))) (kern w))\<rparr>)"

definition TcpConnection_handleRead ::
    "'k os \<Rightarrow> (('k, 'z) csys_scheme) conn_hooks \<Rightarrow> conn_ptr \<Rightarrow> timestamp \<Rightarrow>
       ('k, 'z) csys_scheme \<Rightarrow> ('k, 'z) csys_scheme result" where
  "TcpConnection_handleRead os hooks p inReceiveTime w =
     andThen (Buffer_readFd os (m_fd (chan w (m_channel (conn_of w p)))) (m_inputBuffer (conn_of w p)) (kern w))
       (\<lambda>(res, b, k').
         let w1 = upd_conn p (\<lambda>t. t\<lparr>m_inputBuffer := b\<rparr>) (w\<lparr>kern := k'\<rparr>) in
         (case res of
            Inr n \<Rightarrow>
              if 0 < n then
                call_user (m_messageCallback (conn_of w1 p)) (\<lambda>cb. call_message hooks cb p inReceiveTime) w1
              else TcpConnection_handleClose os hooks p w1
          | Inl savedErrno \<Rightarrow> TcpConnection_handleError os p w1))"

definition TcpConnection_handleWrite :: "'k os \<Rightarrow> conn_ptr \<Rightarrow> ('k, 'z) csys_scheme \<Rightarrow> ('k, 'z) csys_scheme result" where
  "TcpConnection_handleWrite os p w =
     (let t = conn_of w p; c = m_channel t in
      if isWriting (chan w c) then
        andThen (Buffer_writeFd os (m_fd (chan w c)) (m_outputBuffer t) (kern w)) (\<lambda>(res, k').
          let w1 = w\<lparr>kern := k'\<rparr> in
          (case res of
             Inr n \<Rightarrow>
               if 0 < n then
                 let w2 = upd_conn p (\<lambda>t. t\<lparr>m_outputBuffer := retrieve (of_nat n) (m_outputBuffer t)\<rparr>) w1 in
                 if readableBytes (m_outputBuffer (conn_of w2 p)) = 0 then
                   andThen (disableWriting os c w2) (\<lambda>w3.
                     let w4 = (if m_writeCompleteCallback (conn_of w3 p) \<noteq> None
                               then queueInLoop os (m_tcLoop (conn_of w3 p)) (WriteComplete_fn p) w3 else w3)
                     in if m_state (conn_of w4 p) = Disconnecting then shutdownInLoop os p w4 else Inr w4)
                 else Inr w2
               else Inr w1
           | Inl e \<Rightarrow> Inr w1))
      else Inr w)"

text \<open>The setters and the queries. A setter returns \<open>*this\<close> for chaining: the world is what changes.\<close>

definition setConnectionCallback :: "conn_ptr \<Rightarrow> nat option \<Rightarrow> ('k, 'z) csys_scheme \<Rightarrow> ('k, 'z) csys_scheme" where
  "setConnectionCallback p inCb w = upd_conn p (\<lambda>t. t\<lparr>m_connectionCallback := inCb\<rparr>) w"

definition setMessageCallback :: "conn_ptr \<Rightarrow> nat option \<Rightarrow> ('k, 'z) csys_scheme \<Rightarrow> ('k, 'z) csys_scheme" where
  "setMessageCallback p inCb w = upd_conn p (\<lambda>t. t\<lparr>m_messageCallback := inCb\<rparr>) w"

definition setWriteCompleteCallback :: "conn_ptr \<Rightarrow> nat option \<Rightarrow> ('k, 'z) csys_scheme \<Rightarrow> ('k, 'z) csys_scheme" where
  "setWriteCompleteCallback p inCb w = upd_conn p (\<lambda>t. t\<lparr>m_writeCompleteCallback := inCb\<rparr>) w"

definition setHighWaterMarkCallback ::
    "conn_ptr \<Rightarrow> nat option \<Rightarrow> size_t \<Rightarrow> ('k, 'z) csys_scheme \<Rightarrow> ('k, 'z) csys_scheme" where
  "setHighWaterMarkCallback p inCb inHighWaterMark w =
     upd_conn p (\<lambda>t. t\<lparr>m_highWaterMarkCallback := inCb, m_highWaterMark := inHighWaterMark\<rparr>) w"

definition conn_setCloseCallback :: "conn_ptr \<Rightarrow> nat option \<Rightarrow> ('k, 'z) csys_scheme \<Rightarrow> ('k, 'z) csys_scheme" where
  "conn_setCloseCallback p inCb w = upd_conn p (\<lambda>t. t\<lparr>m_closeCallback := inCb\<rparr>) w"

definition getLoop :: "conn_ptr \<Rightarrow> ('k, 'z) csys_scheme \<Rightarrow> loop_ptr" where
  "getLoop p w = m_tcLoop (conn_of w p)"

definition getName :: "conn_ptr \<Rightarrow> ('k, 'z) csys_scheme \<Rightarrow> string" where
  "getName p w = m_name (conn_of w p)"

definition getLocalAddress :: "conn_ptr \<Rightarrow> ('k, 'z) csys_scheme \<Rightarrow> inet_address" where
  "getLocalAddress p w = m_localAddr (conn_of w p)"

definition getPeerAddress :: "conn_ptr \<Rightarrow> ('k, 'z) csys_scheme \<Rightarrow> inet_address" where
  "getPeerAddress p w = m_peerAddr (conn_of w p)"

definition isConnected :: "conn_ptr \<Rightarrow> ('k, 'z) csys_scheme \<Rightarrow> bool" where
  "isConnected p w \<longleftrightarrow> m_state (conn_of w p) = Connected"

section \<open>Frame rules\<close>

lemma upd_conn_simps [simp]:
  "conn_of (upd_conn p f w) = (conn_of w)(p := f (conn_of w p))"
  "chan (upd_conn p f w) = chan w" "kern (upd_conn p f w) = kern w"
  "poller_of (upd_conn p f w) = poller_of w" "loop_of (upd_conn p f w) = loop_of w"
  "cur_thread (upd_conn p f w) = cur_thread w"
  by (simp_all add: upd_conn_def)

lemma setState_simps [simp]:
  "conn_of (setState p s w) = (conn_of w)(p := (conn_of w p)\<lparr>m_state := s\<rparr>)"
  "chan (setState p s w) = chan w" "kern (setState p s w) = kern w"
  "poller_of (setState p s w) = poller_of w" "loop_of (setState p s w) = loop_of w"
  "cur_thread (setState p s w) = cur_thread w"
  by (simp_all add: setState_def)

lemma upd_chan_conn [simp]:
  fixes w :: "('k, 'z) csys_scheme"
  shows "conn_of (upd_chan c f w) = conn_of w" "loop_of (upd_chan c f w) = loop_of w"
    "cur_thread (upd_chan c f w) = cur_thread w"
  by (simp_all add: upd_chan_def)

text \<open>What a change of the mask of a channel leaves of the world, whatever the kernel answers.\<close>

definition mask_changed ::
    "(evmask \<Rightarrow> evmask) \<Rightarrow> chan_ptr \<Rightarrow> ('k, 'z) csys_scheme \<Rightarrow> ('k, 'z) csys_scheme \<Rightarrow> bool" where
  "mask_changed g c w w' \<longleftrightarrow>
     conn_of w' = conn_of w \<and> loop_of w' = loop_of w \<and> cur_thread w' = cur_thread w \<and>
     (\<exists>s. chan w' = (chan w)(c := setChannelStatus s ((chan w c)\<lparr>m_events := g (m_events (chan w c))\<rparr>)))"

lemma touches_world:
  fixes w w' :: "('k, 'z) csys_scheme"
  assumes "touches l c w w'"
  shows "conn_of w' = conn_of w" "loop_of w' = loop_of w" "cur_thread w' = cur_thread w"
  using assms by (auto simp: touches_def sys_touch_def)

lemma change_mask_changed: "holds (mask_changed g c w) (change_mask os g c w)"
proof -
  have "mask_changed g c w w'" if w': "change_mask os g c w = Inr w'" for w'
  proof -
    let ?w1 = "upd_chan c (\<lambda>ch. ch\<lparr>m_events := g (m_events ch)\<rparr>) w"
    have t: "touches (m_chLoop (chan w c)) c ?w1 w'"
      using w' by (auto simp: change_mask_def Channel_update_def EventLoop_updateChannel_def
          intro: updateChannel_touches)
    show ?thesis
      using touches_world [OF t] touches_chan [OF t] by (auto simp: mask_changed_def)
  qed
  then show ?thesis by (simp add: holds_def)
qed

lemma Channel_remove_changed: "holds (mask_changed (\<lambda>m. m) c w) (Channel_remove os c w)"
proof -
  have "mask_changed (\<lambda>m. m) c w w'" if w': "Channel_remove os c w = Inr w'" for w'
  proof -
    have t: "touches (m_chLoop (chan w c)) c w w'"
      using w' by (auto simp: Channel_remove_def EventLoop_removeChannel_def intro: removeChannel_touches)
    show ?thesis
      using touches_world [OF t] touches_chan [OF t] by (simp add: mask_changed_def)
  qed
  then show ?thesis by (simp add: holds_def)
qed

lemma queueInLoop_frame [simp]:
  fixes w :: "('k, 'z) csys_scheme"
  shows "conn_of (queueInLoop os l f w) = conn_of w" "chan (queueInLoop os l f w) = chan w"
    "poller_of (queueInLoop os l f w) = poller_of w" "cur_thread (queueInLoop os l f w) = cur_thread w"
    "loop_of (queueInLoop os l f w) = (loop_of w)(l := (loop_of w l)
       \<lparr>m_pendingFunctors := m_pendingFunctors (loop_of w l) @ [f]\<rparr>)"
  by (simp_all add: queueInLoop_def upd_loop_def wakeup_def Let_def)

section \<open>What the kernel has been sent\<close>

lemma EPollPoller_update_quiet:
  "quiet_contract os sent \<Longrightarrow> EPollPoller_update os l op c w = Inr w' \<Longrightarrow> sent (kern w') = sent (kern w)"
  by (drule EPollPoller_update_eq) (simp add: quiet_contract_def)

lemma updateChannel_quiet:
  assumes "quiet_contract os sent" and "EPollPoller_updateChannel os l c w = Inr w'"
  shows "sent (kern w') = sent (kern w)"
  using assms(2) unfolding EPollPoller_updateChannel_def Let_def
  by (auto simp: andThen_eq_Inr split: if_split_asm dest!: EPollPoller_update_quiet [OF assms(1)])

lemma change_mask_quiet:
  "quiet_contract os sent \<Longrightarrow> holds (\<lambda>w'. sent (kern w') = sent (kern w)) (change_mask os g c w)"
  by (auto simp: holds_def change_mask_def Channel_update_def EventLoop_updateChannel_def
      dest: updateChannel_quiet)

lemma queueInLoop_sent:
  assumes "write_contract os sent" and "fd \<noteq> m_wakeupFd (loop_of w l)"
  shows "sent (kern (queueInLoop os l f w)) fd = sent (kern w) fd"
proof -
  have "sent (snd (sys_write os (m_wakeupFd (loop_of w l)) one_bytes k)) fd = sent k fd" for k
    by (cases "sys_write os (m_wakeupFd (loop_of w l)) one_bytes k"; cases "fst (sys_write os (m_wakeupFd (loop_of w l)) one_bytes k)")
      (use assms in \<open>auto dest: write_contractD(2,3) [OF assms(1)]\<close>)
  then show ?thesis
    by (simp add: queueInLoop_def upd_loop_def wakeup_def Let_def)
qed

section \<open>The invariant of a connection\<close>

lemma mask_changed_queries:
  "mask_changed g c w w' \<Longrightarrow> m_chLoop (chan w' x) = m_chLoop (chan w x) \<and> m_fd (chan w' x) = m_fd (chan w x)"
  "mask_changed (\<lambda>m. m OR kWriteEvent) c w w' \<Longrightarrow> isWriting (chan w' c)"
  "mask_changed (\<lambda>m. m AND NOT kWriteEvent) c w w' \<Longrightarrow> \<not> isWriting (chan w' c)"
  "mask_changed (\<lambda>m. m OR kReadEvent) c w w' \<Longrightarrow> isWriting (chan w' c) = isWriting (chan w c)"
  "mask_changed (\<lambda>m. 0) c w w' \<Longrightarrow> isNoneEvent (chan w' c)"
  "mask_changed (\<lambda>m. m) c w w' \<Longrightarrow> isWriting (chan w' c) = isWriting (chan w c)"
  "mask_changed (\<lambda>m. m) c w w' \<Longrightarrow> isNoneEvent (chan w' c) = isNoneEvent (chan w c)"
  using writing_of [of "chan w c"] isNone_without_all [of "chan w c"]
  by (auto simp: mask_changed_def mask_ops kNoneEvent_def)

definition pending_out :: "conn_ptr \<Rightarrow> ('k, 'z) csys_scheme \<Rightarrow> byte list" where
  "pending_out p w = contents (m_outputBuffer (conn_of w p))"

definition conn_chan :: "conn_ptr \<Rightarrow> ('k, 'z) csys_scheme \<Rightarrow> channel" where
  "conn_chan p w = chan w (m_channel (conn_of w p))"

text \<open>
  Both buffers are well formed; the channel is on the loop and the descriptor of the connection,
  which is not the wakeup descriptor of the loop; while the connection is not disconnected, write
  interest is on exactly when output is pending, and a disconnected connection has no interest at all.
\<close>

definition conn_inv :: "conn_ptr \<Rightarrow> ('k, 'z) csys_scheme \<Rightarrow> bool" where
  "conn_inv p w \<longleftrightarrow>
     buffer_ok (m_inputBuffer (conn_of w p)) \<and> buffer_ok (m_outputBuffer (conn_of w p)) \<and>
     m_chLoop (conn_chan p w) = m_tcLoop (conn_of w p) \<and> m_fd (conn_chan p w) = m_socket (conn_of w p) \<and>
     m_socket (conn_of w p) \<noteq> m_wakeupFd (loop_of w (m_tcLoop (conn_of w p))) \<and>
     (if m_state (conn_of w p) = Disconnected then isNoneEvent (conn_chan p w)
      else isWriting (conn_chan p w) \<longleftrightarrow> pending_out p w \<noteq> [])"

definition conn_loop_functors :: "conn_ptr \<Rightarrow> ('k, 'z) csys_scheme \<Rightarrow> closure list" where
  "conn_loop_functors p w = m_pendingFunctors (loop_of w (m_tcLoop (conn_of w p)))"

text \<open>The bytes the connection has handed to the kernel, followed by those it still holds.\<close>

definition out_stream :: "('k \<Rightarrow> int \<Rightarrow> byte list) \<Rightarrow> conn_ptr \<Rightarrow> ('k, 'z) csys_scheme \<Rightarrow> byte list" where
  "out_stream sent p w = sent (kern w) (m_socket (conn_of w p)) @ pending_out p w"

text \<open>
  What an operation on connection \<open>p\<close> may change at all: its state and buffers, the mask and the
  status of its channel, the closures pending in its loop, and the kernel.
\<close>

definition confined :: "conn_ptr \<Rightarrow> ('k, 'z) csys_scheme \<Rightarrow> ('k, 'z) csys_scheme \<Rightarrow> bool" where
  "confined p w w' \<longleftrightarrow>
     (\<exists>s i out. conn_of w' = (conn_of w)(p := (conn_of w p)
        \<lparr>m_state := s, m_inputBuffer := i, m_outputBuffer := out\<rparr>)) \<and>
     (\<exists>m s. chan w' = (chan w)(m_channel (conn_of w p) := (conn_chan p w)\<lparr>m_events := m, m_channelStatus := s\<rparr>)) \<and>
     (\<exists>fs. loop_of w' = (loop_of w)(m_tcLoop (conn_of w p) := (loop_of w (m_tcLoop (conn_of w p)))
        \<lparr>m_pendingFunctors := conn_loop_functors p w @ fs\<rparr>)) \<and>
     cur_thread w' = cur_thread w"

lemma confined_trans [trans]: "confined p w w1 \<Longrightarrow> confined p w1 w2 \<Longrightarrow> confined p w w2"
  unfolding confined_def conn_chan_def conn_loop_functors_def
  by (elim conjE exE) (simp add: fun_upd_def, fastforce)

lemma confined_refl: "confined p w w"
proof -
  have "conn_of w = (conn_of w)(p := (conn_of w p)\<lparr>m_state := m_state (conn_of w p),
      m_inputBuffer := m_inputBuffer (conn_of w p), m_outputBuffer := m_outputBuffer (conn_of w p)\<rparr>)"
    by simp
  moreover have "chan w = (chan w)(m_channel (conn_of w p) := (conn_chan p w)
      \<lparr>m_events := m_events (conn_chan p w), m_channelStatus := m_channelStatus (conn_chan p w)\<rparr>)"
    by (simp add: conn_chan_def)
  moreover have "loop_of w = (loop_of w)(m_tcLoop (conn_of w p) := (loop_of w (m_tcLoop (conn_of w p)))
      \<lparr>m_pendingFunctors := conn_loop_functors p w @ []\<rparr>)"
    by (simp add: conn_loop_functors_def)
  ultimately show ?thesis
    unfolding confined_def by blast
qed

lemma confined_parts:
  assumes "confined p w w'"
  shows "m_tcLoop (conn_of w' p) = m_tcLoop (conn_of w p)" "m_socket (conn_of w' p) = m_socket (conn_of w p)"
    "m_channel (conn_of w' p) = m_channel (conn_of w p)"
    "m_writeCompleteCallback (conn_of w' p) = m_writeCompleteCallback (conn_of w p)"
    "m_connectionCallback (conn_of w' p) = m_connectionCallback (conn_of w p)"
    "tcpconn.m_closeCallback (conn_of w' p) = tcpconn.m_closeCallback (conn_of w p)"
    "m_highWaterMark (conn_of w' p) = m_highWaterMark (conn_of w p)"
    "m_highWaterMarkCallback (conn_of w' p) = m_highWaterMarkCallback (conn_of w p)"
    "q \<noteq> p \<Longrightarrow> conn_of w' q = conn_of w q"
    "c \<noteq> m_channel (conn_of w p) \<Longrightarrow> chan w' c = chan w c"
    "m_chLoop (conn_chan p w') = m_chLoop (conn_chan p w)" "m_fd (conn_chan p w') = m_fd (conn_chan p w)"
    "m_wakeupFd (loop_of w' l) = m_wakeupFd (loop_of w l)"
    "m_quit (loop_of w' l) = m_quit (loop_of w l)"
  using assms by (auto simp: confined_def conn_chan_def split: if_splits)

lemma confined_mask:
  "mask_changed g (m_channel (conn_of w p)) w w' \<Longrightarrow> confined p w w'"
  using confined_refl [of p w]
  unfolding confined_def mask_changed_def conn_chan_def conn_loop_functors_def
  by (auto simp: setChannelStatus_def)

lemma confined_conn:
  "confined p w (upd_conn p (\<lambda>t. t\<lparr>m_state := f t, m_inputBuffer := g t, m_outputBuffer := h t\<rparr>) w)"
  using confined_refl [of p w] unfolding confined_def by auto

lemma confined_kern: "confined p w (w\<lparr>kern := k\<rparr>)"
  using confined_refl [of p w] unfolding confined_def conn_chan_def conn_loop_functors_def by auto

lemma confined_queue: "l = m_tcLoop (conn_of w p) \<Longrightarrow> confined p w (queueInLoop os l f w)"
  using confined_refl [of p w] unfolding confined_def conn_chan_def conn_loop_functors_def by auto

section \<open>Sending\<close>

text \<open>The closure queued when \<open>n\<close> more pending bytes cross the high water mark from below.\<close>

definition high_water_due :: "conn_ptr \<Rightarrow> nat \<Rightarrow> ('k, 'z) csys_scheme \<Rightarrow> closure list" where
  "high_water_due p n w =
     (let old = length (pending_out p w); mark = unat (m_highWaterMark (conn_of w p)) in
      if 0 < n \<and> old < mark \<and> mark \<le> old + n \<and> m_highWaterMarkCallback (conn_of w p) \<noteq> None
      then [HighWaterMark_fn p (of_nat (old + n))] else [])"

text \<open>What an operation that sends bytes has to achieve: the bytes \<open>bs\<close> join the output, the
  closures \<open>fs\<close> are queued, and the state stays.\<close>

definition sends ::
    "('k \<Rightarrow> int \<Rightarrow> byte list) \<Rightarrow> conn_ptr \<Rightarrow> byte list \<Rightarrow> closure list \<Rightarrow>
       ('k, 'z) csys_scheme \<Rightarrow> ('k, 'z) csys_scheme \<Rightarrow> bool" where
  "sends sent p bs fs w w' \<longleftrightarrow>
     confined p w w' \<and> conn_inv p w' \<and> m_state (conn_of w' p) = m_state (conn_of w p) \<and>
     out_stream sent p w' = out_stream sent p w @ bs \<and>
     conn_loop_functors p w' = conn_loop_functors p w @ fs"

lemma sends_refl: "conn_inv p w \<Longrightarrow> sends sent p [] [] w w"
  by (simp add: sends_def confined_refl)

lemma sends_trans:
  "sends sent p bs fs w w1 \<Longrightarrow> sends sent p bs' fs' w1 w2 \<Longrightarrow> sends sent p (bs @ bs') (fs @ fs') w w2"
  by (auto simp: sends_def intro: confined_trans)

lemma holds_sends_trans:
  "sends sent p bs fs w w1 \<Longrightarrow> holds (sends sent p bs' fs' w1) r \<Longrightarrow>
     holds (sends sent p (bs @ bs') (fs @ fs') w) r"
  by (auto intro: sends_trans elim: holds_mono)

lemma high_water_word:
  assumes old: "unat (old :: size_t) \<le> max_vector" and n: "n \<le> max_vector"
  shows "mark \<le> old + of_nat n \<longleftrightarrow> unat mark \<le> unat old + n"
    and "0 < (of_nat n :: size_t) \<longleftrightarrow> 0 < n"
    and "old + of_nat n = of_nat (unat old + n)"
proof -
  have u: "unat (of_nat n :: size_t) = n"
    using n by (rule unat_of_nat_object)
  then show "mark \<le> old + of_nat n \<longleftrightarrow> unat mark \<le> unat old + n"
    using old n by (simp add: word_le_nat_alt unat_add_object)
  show "0 < (of_nat n :: size_t) \<longleftrightarrow> 0 < n"
    using u by (simp add: word_less_nat_alt)
qed simp

text \<open>The output buffer after an append, and write interest after \<open>enableWriting\<close>.\<close>

lemma append_then_enable:
  assumes quiet: "quiet_contract os sent" and inv: "conn_inv p w"
    and st: "m_state (conn_of w p) \<noteq> Disconnected" and d: "d \<noteq> []" "length d \<le> max_vector"
  shows "holds (sends sent p d [] w)
    (andThen (Buffer_append d (m_outputBuffer (conn_of w p))) (\<lambda>b.
       let w2 = upd_conn p (\<lambda>t. t\<lparr>m_outputBuffer := b\<rparr>) w; c = m_channel (conn_of w2 p)
       in if \<not> isWriting (chan w2 c) then enableWriting os c w2 else Inr w2))"
proof (rule holds_andThen)
  have ok: "buffer_ok (m_outputBuffer (conn_of w p))"
    using inv by (simp add: conn_inv_def)
  show "holds (\<lambda>b. buffer_ok b \<and> contents b = pending_out p w @ d)
      (Buffer_append d (m_outputBuffer (conn_of w p)))"
    using buf.push_holds [OF ok d(2)] by (simp add: pending_out_def)
next
  fix b assume b: "buffer_ok b \<and> contents b = pending_out p w @ d"
  define w2 where "w2 = upd_conn p (\<lambda>t. t\<lparr>m_outputBuffer := b\<rparr>) w"
  let ?c = "m_channel (conn_of w p)"
  have conf: "confined p w w2"
    using confined_conn [where f = m_state and g = m_inputBuffer and h = "\<lambda>_. b"] by (simp add: w2_def)
  have goal: "sends sent p d [] w w3"
    if eq: "conn_of w3 = conn_of w2" "loop_of w3 = loop_of w2" "sent (kern w3) = sent (kern w2)"
      and ch: "isWriting (chan w3 ?c)" "m_chLoop (chan w3 ?c) = m_chLoop (chan w2 ?c)"
        "m_fd (chan w3 ?c) = m_fd (chan w2 ?c)" and c3: "confined p w w3" for w3
    using inv b st d eq ch c3
    by (simp add: sends_def conn_inv_def conn_chan_def pending_out_def out_stream_def
        conn_loop_functors_def w2_def)
  show "holds (sends sent p d [] w)
      (let w2 = upd_conn p (\<lambda>t. t\<lparr>m_outputBuffer := b\<rparr>) w; c = m_channel (conn_of w2 p)
       in if \<not> isWriting (chan w2 c) then enableWriting os c w2 else Inr w2)"
  proof (cases "isWriting (chan w2 ?c)")
    case True
    then show ?thesis
      using goal [of w2] conf by (simp add: Let_def w2_def)
  next
    case False
    have "sends sent p d [] w w3" if w3: "enableWriting os ?c w2 = Inr w3" for w3
    proof -
      have m: "mask_changed (\<lambda>m. m OR kWriteEvent) ?c w2 w3" and s: "sent (kern w3) = sent (kern w2)"
        using w3 holdsD [OF change_mask_changed] holdsD [OF change_mask_quiet [OF quiet]]
        by (simp_all add: channel_ops_change_mask)
      have "confined p w2 w3"
        using m by (intro confined_mask) (simp add: w2_def)
      then show ?thesis
        using m s mask_changed_queries(1,2) [OF m] conf
        by (intro goal) (auto simp: mask_changed_def intro: confined_trans)
    qed
    then show ?thesis
      using False by (simp add: holds_def Let_def w2_def)
  qed
qed

lemma send_rest_sends:
  assumes wc: "write_contract os sent" and quiet: "quiet_contract os sent" and inv: "conn_inv p w"
    and st: "m_state (conn_of w p) \<noteq> Disconnected" and len: "length d \<le> max_vector" and n: "n \<le> length d"
  shows "holds (sends sent p (if fault then [] else drop n d)
             (if fault then [] else high_water_due p (length d - n) w) w)
           (send_rest os p d n (of_nat (length d - n)) fault w)"
proof (cases "fault \<or> n = length d")
  case True
  then show ?thesis
    using sends_refl [OF inv] by (auto simp: send_rest_def high_water_due_def Let_def)
next
  case False
  let ?t = "conn_of w p"
  define m where "m = length d - n"
  have ok: "buffer_ok (m_outputBuffer ?t)"
    using inv by (simp add: conn_inv_def)
  then have old: "unat (readableBytes (m_outputBuffer ?t)) = length (pending_out p w)"
      "unat (readableBytes (m_outputBuffer ?t)) \<le> max_vector"
    using contents_bound [OF ok] by (simp_all add: pending_out_def length_contents)
  have m: "m \<le> max_vector" "0 < m"
    using len False n by (auto simp: m_def)
  define w1 where "w1 = (if high_water_due p m w = [] then w
      else queueInLoop os (m_tcLoop ?t) (HighWaterMark_fn p (of_nat (length (pending_out p w) + m))) w)"
  have W: "(if m_highWaterMark ?t \<le> readableBytes (m_outputBuffer ?t) + of_nat m \<and>
           readableBytes (m_outputBuffer ?t) < m_highWaterMark ?t \<and> m_highWaterMarkCallback ?t \<noteq> None
         then queueInLoop os (m_tcLoop ?t) (HighWaterMark_fn p (readableBytes (m_outputBuffer ?t) + of_nat m)) w
         else w) = w1"
    unfolding high_water_word(3) [OF old(2) m(1)] old(1)
    using m high_water_word(1) [OF old(2) m(1), of "m_highWaterMark ?t"]
      high_water_word(3) [OF old(2) m(1)]
    by (auto simp add: w1_def high_water_due_def Let_def word_less_nat_alt old(1) simp del: of_nat_add)
  have eq: "send_rest os p d n (of_nat m) fault w =
     andThen (Buffer_append (drop n d) (m_outputBuffer (conn_of w1 p))) (\<lambda>b.
       let w2 = upd_conn p (\<lambda>t. t\<lparr>m_outputBuffer := b\<rparr>) w1; c = m_channel (conn_of w2 p)
       in if \<not> isWriting (chan w2 c) then enableWriting os c w2 else Inr w2)"
    unfolding send_rest_def Let_def W using False high_water_word(2) [OF old(2) m(1)] m(2) by simp
  have w1: "sends sent p [] (high_water_due p m w) w w1"
    using inv queueInLoop_sent [OF wc] confined_queue [OF refl, of p w os] confined_refl [of p w]
    by (auto simp: sends_def w1_def conn_inv_def conn_chan_def pending_out_def out_stream_def
        conn_loop_functors_def high_water_due_def Let_def)
  have d: "drop n d \<noteq> []" "length (drop n d) \<le> max_vector"
    using m by (simp_all add: m_def)
  have H: "holds (sends sent p (drop n d) [] w1) (send_rest os p d n (of_nat m) fault w)"
    unfolding eq using w1 st
    by (intro append_then_enable [OF quiet] d) (auto simp: sends_def)
  show ?thesis
    using False holds_sends_trans [OF w1 H] by (auto simp: m_def)
qed

text \<open>Whether \<open>sendInLoop\<close> tries to write at once, and what comes of it.\<close>

definition writes_at_once :: "conn_ptr \<Rightarrow> ('k, 'z) csys_scheme \<Rightarrow> bool" where
  "writes_at_once p w \<longleftrightarrow> \<not> isWriting (conn_chan p w) \<and> pending_out p w = []"

definition first_write :: "'k os \<Rightarrow> conn_ptr \<Rightarrow> byte list \<Rightarrow> ('k, 'z) csys_scheme \<Rightarrow> errno + nat" where
  "first_write os p d w = fst (sys_write os (m_fd (conn_chan p w)) d (kern w))"

text \<open>The bytes \<open>sendInLoop\<close> takes on: all, or none when the connection is down or the peer has reset it.\<close>

definition taken :: "'k os \<Rightarrow> conn_ptr \<Rightarrow> byte list \<Rightarrow> ('k, 'z) csys_scheme \<Rightarrow> byte list" where
  "taken os p d w =
     (if m_state (conn_of w p) = Disconnected then []
      else if writes_at_once p w \<and> first_write os p d w \<in> {Inl EPIPE, Inl ECONNRESET} then []
      else d)"

text \<open>The closures \<open>sendInLoop\<close> queues.\<close>

definition send_closures :: "'k os \<Rightarrow> conn_ptr \<Rightarrow> byte list \<Rightarrow> ('k, 'z) csys_scheme \<Rightarrow> closure list" where
  "send_closures os p d w =
     (if taken os p d w = [] \<and> d \<noteq> [] \<or> m_state (conn_of w p) = Disconnected then []
      else if writes_at_once p w then
        (case first_write os p d w of
           Inr n \<Rightarrow> if n = length d then (if m_writeCompleteCallback (conn_of w p) \<noteq> None then [WriteComplete_fn p] else [])
                    else high_water_due p (length d - n) w
         | Inl e \<Rightarrow> if e \<in> {EPIPE, ECONNRESET} then [] else high_water_due p (length d) w)
      else high_water_due p (length d) w)"

lemma high_water_kern [simp]: "high_water_due p n (w\<lparr>kern := k\<rparr>) = high_water_due p n w"
  by (simp add: high_water_due_def pending_out_def)

lemma high_water_zero [simp]: "high_water_due p 0 w = []"
  by (simp add: high_water_due_def)

lemma conn_inv_kern: "conn_inv p (w\<lparr>kern := k\<rparr>) \<longleftrightarrow> conn_inv p w"
  by (simp add: conn_inv_def conn_chan_def pending_out_def)

lemma sends_kern:
  assumes "conn_inv p w" and "pending_out p w = []"
    and "sent k (m_socket (conn_of w p)) = sent (kern w) (m_socket (conn_of w p)) @ bs"
  shows "sends sent p bs [] w (w\<lparr>kern := k\<rparr>)"
  using assms
  by (simp add: sends_def confined_kern conn_inv_kern out_stream_def pending_out_def conn_loop_functors_def)

lemma sends_queue:
  assumes "write_contract os sent" and "conn_inv p w"
  shows "sends sent p [] [f] w (queueInLoop os (m_tcLoop (conn_of w p)) f w)"
  using assms confined_queue [OF refl, of p w os f] queueInLoop_sent [OF assms(1)]
  by (auto simp: sends_def conn_inv_def conn_chan_def out_stream_def pending_out_def conn_loop_functors_def)

lemma sendInLoop_sends:
  assumes wc: "write_contract os sent" and quiet: "quiet_contract os sent" and inv: "conn_inv p w"
    and len: "length d \<le> max_vector"
  shows "holds (sends sent p (taken os p d w) (send_closures os p d w) w) (sendInLoop os p d w)"
proof -
  let ?t = "conn_of w p" and ?fd = "m_fd (conn_chan p w)"
  have ok: "buffer_ok (m_outputBuffer ?t)" and fd: "?fd = m_socket ?t"
    using inv by (simp_all add: conn_inv_def)
  note rest = send_rest_sends [OF wc quiet _ _ len]
  have whole: "vector_size d = of_nat (length d - 0)"
    by (simp add: vector_size_def)
  consider (down) "m_state ?t = Disconnected"
    | (later) "m_state ?t \<noteq> Disconnected" "\<not> writes_at_once p w"
    | (ok) n k' where "m_state ?t \<noteq> Disconnected" "writes_at_once p w" "sys_write os ?fd d (kern w) = (Inr n, k')"
    | (err) e k' where "m_state ?t \<noteq> Disconnected" "writes_at_once p w" "sys_write os ?fd d (kern w) = (Inl e, k')"
    by (metis surj_pair sum.exhaust)
  then show ?thesis
  proof cases
    case down
    then show ?thesis
      using sends_refl [OF inv] by (simp add: sendInLoop_def taken_def send_closures_def Let_def)
  next
    case later
    then have "sendInLoop os p d w = send_rest os p d 0 (of_nat (length d - 0)) False w"
      using contents_empty_iff [OF ok]
      by (auto simp: sendInLoop_def Let_def writes_at_once_def conn_chan_def pending_out_def vector_size_def)
    then show ?thesis
      using rest [OF inv later(1), where n = 0 and fault = False] later
      by (auto simp: taken_def send_closures_def split: if_splits)
  next
    case ok
    define w1 where "w1 = w\<lparr>kern := k'\<rparr>"
    define w2 where "w2 = (if n = length d \<and> m_writeCompleteCallback ?t \<noteq> None
      then queueInLoop os (m_tcLoop ?t) (WriteComplete_fn p) w1 else w1)"
    let ?fs = "if n = length d \<and> m_writeCompleteCallback ?t \<noteq> None then [WriteComplete_fn p] else []"
    have n: "n \<le> length d" and snt: "sent k' (m_socket ?t) = sent (kern w) (m_socket ?t) @ take n d"
      using write_contractD(1,2) [OF wc ok(3)] fd by simp_all
    have "sends sent p (take n d) [] w w1"
      unfolding w1_def using inv ok(2) snt by (intro sends_kern) (auto simp: writes_at_once_def)
    moreover have "sends sent p [] ?fs w1 w2"
      using sends_queue [OF wc, of p w1] sends_refl [of p w1] inv
      by (auto simp: w2_def w1_def conn_inv_kern)
    ultimately have w2: "sends sent p (take n d) ?fs w w2"
      using sends_trans by fastforce
    have "(vector_size d - of_nat n = (0 :: size_t)) = (n = length d)"
      using n len unat_of_nat_object [of n] unat_vector_size [of d]
      by (auto simp: vector_size_def)
    then have "sendInLoop os p d w = send_rest os p d n (of_nat (length d - n)) False w2"
      using ok contents_empty_iff [OF \<open>buffer_ok (m_outputBuffer ?t)\<close>] n
      by (auto simp: sendInLoop_def Let_def writes_at_once_def conn_chan_def pending_out_def
          w2_def w1_def vector_size_def of_nat_diff)
    then have "holds (sends sent p (drop n d) (high_water_due p (length d - n) w2) w2) (sendInLoop os p d w)"
      using rest [where w = w2 and n = n and fault = False] w2 ok(1) n by (auto simp: sends_def)
    moreover have "high_water_due p (length d - n) w2 = high_water_due p (length d - n) w"
      by (auto simp: w2_def w1_def high_water_due_def pending_out_def)
    ultimately have "holds (sends sent p (take n d @ drop n d) (?fs @ high_water_due p (length d - n) w) w)
        (sendInLoop os p d w)"
      by (intro holds_sends_trans [OF w2]) simp
    moreover have "taken os p d w = d" "send_closures os p d w = ?fs @ high_water_due p (length d - n) w"
      using ok by (auto simp: taken_def send_closures_def first_write_def)
    ultimately show ?thesis by simp
  next
    case err
    let ?fault = "e = EPIPE \<or> e = ECONNRESET"
    define w1 where "w1 = w\<lparr>kern := k'\<rparr>"
    have snt: "sent k' (m_socket ?t) = sent (kern w) (m_socket ?t) @ []"
      using write_contractD(3) [OF wc err(3)] by simp
    then have w1: "sends sent p [] [] w w1"
      unfolding w1_def using inv err(2) by (intro sends_kern) (auto simp: writes_at_once_def)
    have fault: "(if e \<noteq> EWOULDBLOCK then ?fault else False) = ?fault"
      by (auto simp: errno_values)
    have "sendInLoop os p d w = send_rest os p d 0 (of_nat (length d - 0)) ?fault w1"
      using err contents_empty_iff [OF ok] fault
      by (auto simp: sendInLoop_def Let_def writes_at_once_def conn_chan_def pending_out_def
          w1_def vector_size_def)
    then have "holds (sends sent p (if ?fault then [] else d) (if ?fault then [] else high_water_due p (length d) w) w1)
        (sendInLoop os p d w)"
      using rest [where w = w1 and n = 0 and fault = ?fault] w1 err(1) by (auto simp: sends_def w1_def)
    then have "holds (sends sent p (if ?fault then [] else d) (if ?fault then [] else high_water_due p (length d) w) w)
        (sendInLoop os p d w)"
      using holds_sends_trans [OF w1] by fastforce
    moreover have "taken os p d w = (if ?fault then [] else d)"
        "send_closures os p d w = (if ?fault then [] else high_water_due p (length d) w)"
      using err by (auto simp: taken_def send_closures_def first_write_def)
    ultimately show ?thesis by simp
  qed
qed

section \<open>Writing the pending output\<close>

definition next_write :: "'k os \<Rightarrow> conn_ptr \<Rightarrow> ('k, 'z) csys_scheme \<Rightarrow> (errno + nat) \<times> 'k" where
  "next_write os p w = sys_write os (m_fd (conn_chan p w)) (pending_out p w) (kern w)"

text \<open>The next write takes all that is pending.\<close>

definition drains :: "'k os \<Rightarrow> conn_ptr \<Rightarrow> ('k, 'z) csys_scheme \<Rightarrow> bool" where
  "drains os p w \<longleftrightarrow> isWriting (conn_chan p w) \<and> fst (next_write os p w) = Inr (length (pending_out p w))"

definition drain_closures :: "'k os \<Rightarrow> conn_ptr \<Rightarrow> ('k, 'z) csys_scheme \<Rightarrow> closure list" where
  "drain_closures os p w =
     (if drains os p w \<and> m_writeCompleteCallback (conn_of w p) \<noteq> None then [WriteComplete_fn p] else [])"

lemma conn_inv_writing:
  assumes "conn_inv p w" and "isWriting (conn_chan p w)"
  shows "m_state (conn_of w p) \<noteq> Disconnected" "pending_out p w \<noteq> []"
  using assms by (auto simp: conn_inv_def dest: none_not_writing split: if_splits)

text \<open>\<open>shutdownInLoop\<close> closes the write end exactly when nothing is pending.\<close>

lemma shutdownInLoop_eq:
  assumes "conn_inv p w" and "m_state (conn_of w p) \<noteq> Disconnected"
  shows "shutdownInLoop os p w =
     (if pending_out p w = [] then Inr (w\<lparr>kern := snd (sys_shutdown_wr os (m_socket (conn_of w p)) (kern w))\<rparr>)
      else Inr w)"
  using assms by (simp add: shutdownInLoop_def conn_inv_def conn_chan_def)

lemma shutdownInLoop_sends:
  assumes quiet: "quiet_contract os sent" and inv: "conn_inv p w"
  shows "succeeds (sends sent p [] [] w) (shutdownInLoop os p w)"
  using quiet inv sends_refl [OF inv]
  by (auto simp: shutdownInLoop_def sends_def confined_kern conn_inv_kern out_stream_def pending_out_def
      conn_loop_functors_def quiet_contract_def)

text \<open>After the write that takes everything: write interest goes off, the user is told, and a
  connection that is shutting down closes its write end.\<close>

lemma after_drain:
  assumes wc: "write_contract os sent" and quiet: "quiet_contract os sent"
    and inv: "buffer_ok (m_inputBuffer (conn_of w p))" "buffer_ok (m_outputBuffer (conn_of w p))"
      "m_chLoop (conn_chan p w) = m_tcLoop (conn_of w p)" "m_fd (conn_chan p w) = m_socket (conn_of w p)"
      "m_socket (conn_of w p) \<noteq> m_wakeupFd (loop_of w (m_tcLoop (conn_of w p)))"
      "m_state (conn_of w p) \<noteq> Disconnected" "pending_out p w = []"
  shows "holds (sends sent p [] (if m_writeCompleteCallback (conn_of w p) \<noteq> None then [WriteComplete_fn p] else []) w)
     (andThen (disableWriting os (m_channel (conn_of w p)) w) (\<lambda>w3.
        let w4 = (if m_writeCompleteCallback (conn_of w3 p) \<noteq> None
                  then queueInLoop os (m_tcLoop (conn_of w3 p)) (WriteComplete_fn p) w3 else w3)
        in if m_state (conn_of w4 p) = Disconnecting then shutdownInLoop os p w4 else Inr w4))"
proof (rule holds_andThen)
  let ?c = "m_channel (conn_of w p)"
  have "sends sent p [] [] w w3" if w3: "disableWriting os ?c w = Inr w3" for w3
  proof -
    have m: "mask_changed (\<lambda>m. m AND NOT kWriteEvent) ?c w w3" and s: "sent (kern w3) = sent (kern w)"
      using w3 holdsD [OF change_mask_changed] holdsD [OF change_mask_quiet [OF quiet]]
      by (simp_all add: channel_ops_change_mask)
    have "conn_of w3 = conn_of w" "loop_of w3 = loop_of w"
      using m by (simp_all add: mask_changed_def)
    then show ?thesis
      using inv s confined_mask [OF m] mask_changed_queries(1,3) [OF m]
      by (simp add: sends_def conn_inv_def conn_chan_def pending_out_def out_stream_def conn_loop_functors_def)
  qed
  then show "holds (sends sent p [] [] w) (disableWriting os ?c w)"
    by (simp add: holds_def)
next
  fix w3 assume w3: "sends sent p [] [] w w3"
  define w4 where "w4 = (if m_writeCompleteCallback (conn_of w3 p) \<noteq> None
                  then queueInLoop os (m_tcLoop (conn_of w3 p)) (WriteComplete_fn p) w3 else w3)"
  let ?fs = "if m_writeCompleteCallback (conn_of w p) \<noteq> None then [WriteComplete_fn p] else []"
  have inv3: "conn_inv p w3" and cb: "m_writeCompleteCallback (conn_of w3 p) = m_writeCompleteCallback (conn_of w p)"
    using w3 confined_parts(4) by (auto simp: sends_def)
  have "sends sent p [] ?fs w3 w4"
    using sends_queue [OF wc inv3] sends_refl [OF inv3] cb by (simp add: w4_def)
  then have w4: "sends sent p [] ?fs w w4"
    using sends_trans [OF w3] by fastforce
  then have inv4: "conn_inv p w4"
    by (simp add: sends_def)
  have "holds (sends sent p [] ?fs w) (shutdownInLoop os p w4)"
    using holds_sends_trans [OF w4 succeeds_holds [OF shutdownInLoop_sends [OF quiet inv4]]] by simp
  then show "holds (sends sent p [] ?fs w) (let w4 = (if m_writeCompleteCallback (conn_of w3 p) \<noteq> None
                  then queueInLoop os (m_tcLoop (conn_of w3 p)) (WriteComplete_fn p) w3 else w3)
        in if m_state (conn_of w4 p) = Disconnecting then shutdownInLoop os p w4 else Inr w4)"
    unfolding Let_def w4_def [symmetric] using w4 by simp
qed

lemma TcpConnection_handleWrite_sends:
  assumes wc: "write_contract os sent" and quiet: "quiet_contract os sent" and inv: "conn_inv p w"
  shows "holds (sends sent p [] (drain_closures os p w) w) (TcpConnection_handleWrite os p w)"
proof (cases "isWriting (conn_chan p w)")
  case False
  then show ?thesis
    using sends_refl [OF inv]
    by (simp add: TcpConnection_handleWrite_def Let_def conn_chan_def drain_closures_def drains_def)
next
  case True
  let ?t = "conn_of w p"
  note wr = conn_inv_writing [OF inv True]
  have ok: "buffer_ok (m_outputBuffer ?t)" and fd: "m_fd (conn_chan p w) = m_socket ?t"
    using inv by (simp_all add: conn_inv_def)
  have pend: "contents (m_outputBuffer ?t) = pending_out p w"
    by (simp add: pending_out_def)
  obtain r k' where r: "next_write os p w = (r, k')"
    by fastforce
  have wf: "Buffer_writeFd os (m_fd (conn_chan p w)) (m_outputBuffer ?t) (kern w) = Inr (r, k')"
    using r wr(2) by (simp add: Buffer_writeFd_eq [OF ok] pend next_write_def)
  define w1 where "w1 = w\<lparr>kern := k'\<rparr>"
  show ?thesis
  proof (cases "\<exists>n>0. r = Inr n")
    case False
    then have no: "r = Inr 0 \<or> (\<exists>e. r = Inl e)"
      by (cases r) auto
    then have "TcpConnection_handleWrite os p w = Inr w1"
      using True wf by (auto simp: TcpConnection_handleWrite_def Let_def conn_chan_def w1_def split: sum.splits)
    moreover have "sent k' (m_socket ?t) = sent (kern w) (m_socket ?t)"
      using no r write_contractD(2,3) [OF wc, of _ "pending_out p w" "kern w"] fd
      by (auto simp: next_write_def)
    then have "sends sent p [] [] w w1"
      using inv by (simp add: w1_def sends_def confined_kern conn_inv_kern out_stream_def pending_out_def
          conn_loop_functors_def)
    ultimately show ?thesis
      using no r wr(2) by (auto simp: drain_closures_def drains_def)
  next
    case pos: True
    then obtain n where n: "r = Inr n" "0 < n" by blast
    have le: "n \<le> length (pending_out p w)"
      and snt: "sent k' (m_socket ?t) = sent (kern w) (m_socket ?t) @ take n (pending_out p w)"
      using write_contractD(1,2) [OF wc, of _ "pending_out p w" "kern w"] r n fd by (auto simp: next_write_def)
    define b where "b = retrieve (of_nat n) (m_outputBuffer ?t)"
    have "n \<le> max_vector"
      using le contents_bound [OF ok] by (simp add: pend)
    then have b: "buffer_ok b" "contents b = drop n (pending_out p w)"
      using buf.pop_items [OF ok, of "of_nat n"] by (simp_all add: b_def pend unat_of_nat_object)
    define w2 where "w2 = upd_conn p (\<lambda>t. t\<lparr>m_outputBuffer := b\<rparr>) w1"
    have w2: "confined p w w2" "out_stream sent p w2 = out_stream sent p w" "m_state (conn_of w2 p) = m_state ?t"
        "conn_loop_functors p w2 = conn_loop_functors p w"
      using confined_trans [OF confined_kern confined_conn [where f = m_state and g = m_inputBuffer and h = "\<lambda>_. b"]]
      by (simp_all add: w2_def w1_def out_stream_def pending_out_def b(2) snt conn_loop_functors_def)
    have eq: "TcpConnection_handleWrite os p w =
        (if contents b = [] then
           andThen (disableWriting os (m_channel (conn_of w2 p)) w2) (\<lambda>w3.
             let w4 = (if m_writeCompleteCallback (conn_of w3 p) \<noteq> None
                       then queueInLoop os (m_tcLoop (conn_of w3 p)) (WriteComplete_fn p) w3 else w3)
             in if m_state (conn_of w4 p) = Disconnecting then shutdownInLoop os p w4 else Inr w4)
         else Inr w2)"
      using True wf n contents_empty_iff [OF b(1)]
      by (simp add: TcpConnection_handleWrite_def Let_def conn_chan_def w2_def w1_def b_def upd_conn_def)
    have drain: "contents b = [] \<longleftrightarrow> drains os p w"
      using b(2) le n r True by (auto simp: drains_def)
    show ?thesis
    proof (cases "contents b = []")
      case True
      have "holds (sends sent p [] (if m_writeCompleteCallback (conn_of w2 p) \<noteq> None then [WriteComplete_fn p] else []) w2)
          (TcpConnection_handleWrite os p w)"
        unfolding eq if_P [OF True]
        by (rule after_drain [OF wc quiet])
          (use inv b True wr(1) in \<open>auto simp: conn_inv_def w2_def w1_def conn_chan_def pending_out_def\<close>)
      then show ?thesis
        by (rule holds_mono)
          (use True drain w2 in \<open>auto simp: sends_def drain_closures_def w2_def w1_def intro: confined_trans\<close>)
    next
      case False
      have "conn_inv p w2"
        using inv b False wr True by (simp add: conn_inv_def w2_def w1_def conn_chan_def pending_out_def)
      then show ?thesis
        using eq False drain w2 by (simp add: sends_def drain_closures_def)
    qed
  qed
qed

section \<open>The life of a connection\<close>

text \<open>The order in which a connection goes through its states.\<close>

instantiation conn_state :: linorder
begin

fun stage :: "conn_state \<Rightarrow> nat" where
  "stage Connecting = 0"
| "stage Connected = 1"
| "stage Disconnecting = 2"
| "stage Disconnected = 3"

definition less_eq_conn_state :: "conn_state \<Rightarrow> conn_state \<Rightarrow> bool" where
  "less_eq_conn_state s t \<longleftrightarrow> stage s \<le> stage t"

definition less_conn_state :: "conn_state \<Rightarrow> conn_state \<Rightarrow> bool" where
  "less_conn_state s t \<longleftrightarrow> stage s < stage t"

instance
proof
  fix s t :: conn_state
  show "s \<le> t \<Longrightarrow> t \<le> s \<Longrightarrow> s = t"
    by (cases s; cases t) (simp_all add: less_eq_conn_state_def)
qed (auto simp: less_eq_conn_state_def less_conn_state_def)

end

lemmas conn_state_order = less_eq_conn_state_def less_conn_state_def

lemma disconnected_top [simp]: "s \<le> Disconnected" "Disconnected \<le> s \<longleftrightarrow> s = Disconnected"
  by (cases s; simp add: conn_state_order)+

lemma connecting_bot [simp]: "Connecting \<le> s"
  by (simp add: conn_state_order)

text \<open>
  What every handler keeps: the invariant, a lower bound of the state, and a prefix of the output
  stream. The user's callbacks have to keep it as well, for every bound and prefix; calling the
  public operations of the connection does.
\<close>

definition keeps_conn ::
    "('k \<Rightarrow> int \<Rightarrow> byte list) \<Rightarrow> conn_ptr \<Rightarrow> conn_state \<Rightarrow> byte list \<Rightarrow> ('k, 'z) csys_scheme \<Rightarrow> bool" where
  "keeps_conn sent p s xs w \<longleftrightarrow>
     conn_inv p w \<and> s \<le> m_state (conn_of w p) \<and> prefix xs (out_stream sent p w)"

definition hooks_keep :: "('w \<Rightarrow> bool) \<Rightarrow> 'w conn_hooks \<Rightarrow> bool" where
  "hooks_keep P hooks \<longleftrightarrow>
     (\<forall>w. P w \<longrightarrow> (\<forall>cb q. holds P (call_connection hooks cb q w)) \<and>
        (\<forall>cb q t. holds P (call_message hooks cb q t w)) \<and>
        (\<forall>cb q. holds P (call_writeComplete hooks cb q w)) \<and>
        (\<forall>cb q n. holds P (call_highWaterMark hooks cb q n w)) \<and>
        (\<forall>cb q. holds P (call_close hooks cb q w)))"

definition hooks_fair :: "('k \<Rightarrow> int \<Rightarrow> byte list) \<Rightarrow> conn_ptr \<Rightarrow> (('k, 'z) csys_scheme) conn_hooks \<Rightarrow> bool" where
  "hooks_fair sent p hooks \<longleftrightarrow> (\<forall>s xs. hooks_keep (keeps_conn sent p s xs) hooks)"

lemma hooks_keepD:
  assumes "hooks_keep P hooks" and "P w"
  shows "holds P (call_user cb (\<lambda>cb. call_connection hooks cb q) w)"
    "holds P (call_user cb (\<lambda>cb. call_message hooks cb q t) w)"
    "holds P (call_user cb (\<lambda>cb. call_close hooks cb q) w)"
  using assms by (simp_all add: hooks_keep_def call_user_def split: option.split)

lemma sends_keeps:
  "keeps_conn sent p s xs w \<Longrightarrow> sends sent p bs fs w w' \<Longrightarrow> keeps_conn sent p s xs w'"
  by (simp add: keeps_conn_def sends_def)

lemma holds_sends_keeps:
  "keeps_conn sent p s xs w \<Longrightarrow> holds (sends sent p bs fs w) r \<Longrightarrow> holds (keeps_conn sent p s xs) r"
  by (auto elim: holds_mono sends_keeps)

text \<open>Setting the state and then the mask, as \<open>connectEstablished\<close> and \<open>handleClose\<close> do.\<close>

lemma mask_keeps:
  assumes m: "mask_changed g (m_channel (conn_of w p)) w w'" and s: "sent (kern w') = sent (kern w)"
    and inv: "buffer_ok (m_inputBuffer (conn_of w p))" "buffer_ok (m_outputBuffer (conn_of w p))"
      "m_chLoop (conn_chan p w) = m_tcLoop (conn_of w p)" "m_fd (conn_chan p w) = m_socket (conn_of w p)"
      "m_socket (conn_of w p) \<noteq> m_wakeupFd (loop_of w (m_tcLoop (conn_of w p)))"
    and ev: "if m_state (conn_of w p) = Disconnected then isNoneEvent (chan w' (m_channel (conn_of w p)))
       else isWriting (chan w' (m_channel (conn_of w p))) \<longleftrightarrow> pending_out p w \<noteq> []"
    and le: "t \<le> m_state (conn_of w p)" and pre: "prefix xs (out_stream sent p w)"
  shows "keeps_conn sent p t xs w'"
proof -
  have "conn_of w' = conn_of w" "loop_of w' = loop_of w"
    using m by (simp_all add: mask_changed_def)
  then show ?thesis
    using assms mask_changed_queries(1) [OF m]
    by (simp add: keeps_conn_def conn_inv_def conn_chan_def pending_out_def out_stream_def)
qed

lemma change_mask_post:
  assumes "quiet_contract os sent"
  shows "holds (\<lambda>w'. mask_changed g c w w' \<and> sent (kern w') = sent (kern w)) (change_mask os g c w)"
  using change_mask_changed [where g = g and c = c and w = w and os = os]
    change_mask_quiet [OF assms, where g = g and c = c and w = w] by (simp add: holds_def)

lemma connectEstablished_keeps:
  assumes quiet: "quiet_contract os sent" and fair: "hooks_fair sent p hooks"
    and pre: "keeps_conn sent p s xs w" and st: "m_state (conn_of w p) = Connecting"
  shows "holds (keeps_conn sent p Connected xs) (connectEstablished os hooks p w)"
proof -
  define w2 where "w2 = upd_chan (m_channel (conn_of w p)) (Channel_tie p) (setState p Connected w)"
  have inv: "conn_inv p w" and xs: "prefix xs (out_stream sent p w)"
    using pre by (simp_all add: keeps_conn_def)
  have "holds (keeps_conn sent p Connected xs) (enableReading os (m_channel (conn_of w p)) w2)"
    unfolding channel_ops_change_mask
  proof (rule holds_mono [OF change_mask_post [OF quiet]], elim conjE)
    fix w3 assume m: "mask_changed (\<lambda>m. m OR kReadEvent) (m_channel (conn_of w p)) w2 w3"
      and k: "sent (kern w3) = sent (kern w2)"
    have wr: "isWriting (chan w3 (m_channel (conn_of w p))) \<longleftrightarrow> isWriting (conn_chan p w)"
      using mask_changed_queries(4) [OF m] by (simp add: w2_def conn_chan_def isWriting_def Channel_tie_def)
    show "keeps_conn sent p Connected xs w3"
      by (rule mask_keeps [where g = "\<lambda>m. m OR kReadEvent" and w = w2])
        (use m k inv xs st wr in \<open>simp_all add: w2_def conn_inv_def conn_chan_def pending_out_def
            out_stream_def Channel_tie_def\<close>)
  qed
  then have "holds (keeps_conn sent p Connected xs) (enableReading os (m_channel (conn_of (setState p Connected w) p))
      (upd_chan (m_channel (conn_of (setState p Connected w) p)) (Channel_tie p) (setState p Connected w)))"
    by (simp add: w2_def)
  note first = this
  have "hooks_keep (keeps_conn sent p Connected xs) hooks"
    using fair by (simp add: hooks_fair_def)
  note keep = hooks_keepD [OF this]
  show ?thesis
    unfolding connectEstablished_def Let_def
    by (rule holds_andThen [OF first], erule keep)
qed

lemma keeps_conn_weaken: "keeps_conn sent p s xs w \<Longrightarrow> t \<le> s \<Longrightarrow> keeps_conn sent p t xs w"
  by (auto simp: keeps_conn_def)

lemma removeChannel_quiet:
  assumes "quiet_contract os sent" and "EPollPoller_removeChannel os l c w = Inr w'"
  shows "sent (kern w') = sent (kern w)"
  using assms(2) unfolding EPollPoller_removeChannel_def Let_def
  by (auto simp: andThen_eq_Inr split: if_split_asm dest!: EPollPoller_update_quiet [OF assms(1)])

lemma Channel_remove_keeps:
  assumes quiet: "quiet_contract os sent" and pre: "keeps_conn sent p s xs w"
  shows "holds (keeps_conn sent p s xs) (Channel_remove os (m_channel (conn_of w p)) w)"
proof -
  have "keeps_conn sent p s xs w'" if w': "Channel_remove os (m_channel (conn_of w p)) w = Inr w'" for w'
  proof -
    have m: "mask_changed (\<lambda>m. m) (m_channel (conn_of w p)) w w'"
      using holdsD [OF Channel_remove_changed w'] .
    have k: "sent (kern w') = sent (kern w)"
      using w' removeChannel_quiet [OF quiet] by (simp add: Channel_remove_def EventLoop_removeChannel_def)
    show ?thesis
      by (rule mask_keeps [OF m k])
        (use pre mask_changed_queries(6,7) [OF m] in \<open>auto simp: keeps_conn_def conn_inv_def conn_chan_def\<close>)
  qed
  then show ?thesis by (simp add: holds_def)
qed

text \<open>The part \<open>handleClose\<close> and \<open>connectDestroyed\<close> share: the connection is down, no event is
  of interest any more, and the user is told.\<close>

lemma disable_then_tell_keeps:
  assumes quiet: "quiet_contract os sent" and fair: "hooks_fair sent p hooks"
    and pre: "keeps_conn sent p s xs w"
  shows "holds (keeps_conn sent p Disconnected xs)
     (andThen (disableAll os (m_channel (conn_of w p)) (setState p Disconnected w)) (\<lambda>w1.
        call_user (m_connectionCallback (conn_of w1 p)) (\<lambda>cb. call_connection hooks cb p) w1))"
proof -
  have inv: "conn_inv p w" and xs: "prefix xs (out_stream sent p w)"
    using pre by (simp_all add: keeps_conn_def)
  have first: "holds (keeps_conn sent p Disconnected xs)
     (disableAll os (m_channel (conn_of w p)) (setState p Disconnected w))"
    unfolding channel_ops_change_mask
  proof (rule holds_mono [OF change_mask_post [OF quiet]], elim conjE)
    fix w3 assume m: "mask_changed (\<lambda>m. 0) (m_channel (conn_of w p)) (setState p Disconnected w) w3"
      and k: "sent (kern w3) = sent (kern (setState p Disconnected w))"
    show "keeps_conn sent p Disconnected xs w3"
      by (rule mask_keeps [where g = "\<lambda>m. 0" and w = "setState p Disconnected w"])
        (use m k inv xs mask_changed_queries(5) [OF m] in \<open>simp_all add: conn_inv_def conn_chan_def
            pending_out_def out_stream_def\<close>)
  qed
  have "hooks_keep (keeps_conn sent p Disconnected xs) hooks"
    using fair by (simp add: hooks_fair_def)
  note keep = hooks_keepD [OF this]
  show ?thesis
    by (rule holds_andThen [OF first], erule keep)
qed

lemma handleClose_shape:
  "TcpConnection_handleClose os hooks p w =
     andThen (andThen (disableAll os (m_channel (conn_of w p)) (setState p Disconnected w)) (\<lambda>w1.
        call_user (m_connectionCallback (conn_of w1 p)) (\<lambda>cb. call_connection hooks cb p) w1))
      (\<lambda>w3. call_user (tcpconn.m_closeCallback (conn_of w3 p)) (\<lambda>cb. call_close hooks cb p) w3)"
  by (simp add: TcpConnection_handleClose_def Let_def andThen_assoc)

lemma TcpConnection_handleClose_keeps:
  assumes quiet: "quiet_contract os sent" and fair: "hooks_fair sent p hooks"
    and pre: "keeps_conn sent p s xs w"
  shows "holds (keeps_conn sent p Disconnected xs) (TcpConnection_handleClose os hooks p w)"
proof -
  have "hooks_keep (keeps_conn sent p Disconnected xs) hooks"
    using fair by (simp add: hooks_fair_def)
  then show ?thesis
    unfolding handleClose_shape
    by (rule_tac holds_andThen [OF disable_then_tell_keeps [OF quiet fair pre]], erule_tac hooks_keepD(3))
qed

lemma connectDestroyed_keeps:
  assumes quiet: "quiet_contract os sent" and fair: "hooks_fair sent p hooks"
    and pre: "keeps_conn sent p s xs w"
  shows "holds (keeps_conn sent p s xs) (connectDestroyed os hooks p w)"
proof -
  have down: "holds (keeps_conn sent p s xs)
     (andThen (disableAll os (m_channel (conn_of w p)) (setState p Disconnected w)) (\<lambda>w1.
         call_user (m_connectionCallback (conn_of w1 p)) (\<lambda>cb. call_connection hooks cb p) w1))"
    by (rule holds_mono [OF disable_then_tell_keeps [OF quiet fair pre]]) (erule keeps_conn_weaken, simp)
  show ?thesis
    unfolding connectDestroyed_def Let_def
    by (rule holds_andThen [where P = "keeps_conn sent p s xs"])
      (use down pre in simp, rule Channel_remove_keeps [OF quiet])
qed

lemma TcpConnection_handleError_keeps:
  assumes quiet: "quiet_contract os sent" and pre: "keeps_conn sent p s xs w"
  shows "holds (keeps_conn sent p s xs) (TcpConnection_handleError os p w)"
  using assms
  by (simp add: TcpConnection_handleError_def keeps_conn_def conn_inv_kern out_stream_def pending_out_def quiet_contract_def)

text \<open>The world in which the user's message callback runs.\<close>

lemma handleRead_input_keeps:
  assumes quiet: "quiet_contract os sent" and rc: "readv_contract os" and pre: "keeps_conn sent p s xs w"
  shows "holds (\<lambda>(res, b, k'). keeps_conn sent p s xs (upd_conn p (\<lambda>t. t\<lparr>m_inputBuffer := b\<rparr>) (w\<lparr>kern := k'\<rparr>)))
    (Buffer_readFd os (m_fd (chan w (m_channel (conn_of w p)))) (m_inputBuffer (conn_of w p)) (kern w))"
proof -
  have "buffer_ok (m_inputBuffer (conn_of w p))"
    using pre by (simp add: keeps_conn_def conn_inv_def)
  then show ?thesis
    by (rule holds_mono [OF Buffer_readFd_holds [OF _ rc]])
      (use pre quiet in \<open>auto simp: keeps_conn_def conn_inv_def conn_chan_def out_stream_def pending_out_def quiet_contract_def\<close>)
qed

lemma TcpConnection_handleRead_keeps:
  assumes quiet: "quiet_contract os sent" and rc: "readv_contract os" and fair: "hooks_fair sent p hooks"
    and pre: "keeps_conn sent p s xs w"
  shows "holds (keeps_conn sent p s xs) (TcpConnection_handleRead os hooks p t w)"
proof -
  have hooks: "hooks_keep (keeps_conn sent p s xs) hooks"
    using fair by (simp add: hooks_fair_def)
  have close: "holds (keeps_conn sent p s xs) (TcpConnection_handleClose os hooks p w')"
    if "keeps_conn sent p s xs w'" for w'
    by (rule holds_mono [OF TcpConnection_handleClose_keeps [OF quiet fair that]]) (erule keeps_conn_weaken, simp)
  show ?thesis
    unfolding TcpConnection_handleRead_def Let_def
    by (rule holds_andThen [OF handleRead_input_keeps [OF quiet rc pre]])
      (auto split: sum.split intro!: hooks_keepD(2) [OF hooks] close TcpConnection_handleError_keeps [OF quiet])
qed

lemma queueInLoop_keeps:
  assumes "write_contract os sent" and "keeps_conn sent p s xs w"
  shows "keeps_conn sent p s xs (queueInLoop os (m_tcLoop (conn_of w p)) f w)"
  using assms by (intro sends_keeps [OF assms(2) sends_queue]) (simp_all add: keeps_conn_def)

lemma TcpConnection_shutdown_keeps:
  assumes wc: "write_contract os sent" and quiet: "quiet_contract os sent" and pre: "keeps_conn sent p s xs w"
  shows "succeeds (keeps_conn sent p s xs) (TcpConnection_shutdown os p w)"
proof (cases "m_state (conn_of w p) = Connected")
  case True
  define w1 where "w1 = setState p Disconnecting w"
  have w1: "keeps_conn sent p s xs w1"
    using pre True order_trans [of s Connected Disconnecting]
    by (auto simp: keeps_conn_def w1_def conn_inv_def conn_chan_def pending_out_def out_stream_def conn_state_order)
  then have inv1: "conn_inv p w1"
    by (simp add: keeps_conn_def)
  have "succeeds (keeps_conn sent p s xs) (shutdownInLoop os p w1)"
    by (rule succeeds_mono [OF shutdownInLoop_sends [OF quiet inv1]]) (erule sends_keeps [OF w1])
  then show ?thesis
    using True queueInLoop_keeps [OF wc w1] by (simp add: TcpConnection_shutdown_def Let_def runInLoop_def w1_def)
next
  case False
  then show ?thesis using pre by (simp add: TcpConnection_shutdown_def)
qed

lemma TcpConnection_send_keeps:
  assumes wc: "write_contract os sent" and quiet: "quiet_contract os sent" and pre: "keeps_conn sent p s xs w"
    and len: "length d \<le> max_vector"
  shows "holds (keeps_conn sent p s xs) (TcpConnection_send os p d w)"
proof -
  have "holds (keeps_conn sent p s xs) (sendInLoop os p d w)"
    using pre by (intro holds_sends_keeps [OF pre sendInLoop_sends [OF wc quiet _ len]]) (simp add: keeps_conn_def)
  then show ?thesis
    using pre queueInLoop_keeps [OF wc pre] by (simp add: TcpConnection_send_def Let_def runInLoop_def)
qed

section \<open>Runs of a connection\<close>

text \<open>
  One step is one call into the connection: from its loop (the handlers and the closures), or from
  any thread (\<open>send\<close> and \<open>shutdown\<close>). The closure of \<open>connectEstablished\<close> is queued once, by the
  server that has just created the connection, so it runs while the state is \<open>Connecting\<close>.
\<close>

inductive conn_step ::
    "'k os \<Rightarrow> (('k, 'z) csys_scheme) conn_hooks \<Rightarrow> conn_ptr \<Rightarrow>
       ('k, 'z) csys_scheme \<Rightarrow> ('k, 'z) csys_scheme \<Rightarrow> bool"
  for os :: "'k os" and hooks :: "(('k, 'z) csys_scheme) conn_hooks" and p :: conn_ptr where
  established: "m_state (conn_of w p) = Connecting \<Longrightarrow> connectEstablished os hooks p w = Inr w' \<Longrightarrow>
    conn_step os hooks p w w'"
| readable: "TcpConnection_handleRead os hooks p t w = Inr w' \<Longrightarrow> conn_step os hooks p w w'"
| writable: "TcpConnection_handleWrite os p w = Inr w' \<Longrightarrow> conn_step os hooks p w w'"
| closed: "TcpConnection_handleClose os hooks p w = Inr w' \<Longrightarrow> conn_step os hooks p w w'"
| failed: "TcpConnection_handleError os p w = Inr w' \<Longrightarrow> conn_step os hooks p w w'"
| send: "length d \<le> max_vector \<Longrightarrow> TcpConnection_send os p d w = Inr w' \<Longrightarrow> conn_step os hooks p w w'"
| send_closure: "length d \<le> max_vector \<Longrightarrow> sendInLoop os p d w = Inr w' \<Longrightarrow> conn_step os hooks p w w'"
| shutdown: "TcpConnection_shutdown os p w = Inr w' \<Longrightarrow> conn_step os hooks p w w'"
| shutdown_closure: "shutdownInLoop os p w = Inr w' \<Longrightarrow> conn_step os hooks p w w'"
| destroyed: "connectDestroyed os hooks p w = Inr w' \<Longrightarrow> conn_step os hooks p w w'"

text \<open>What the environment of a connection has to provide.\<close>

definition conn_env ::
    "'k os \<Rightarrow> ('k \<Rightarrow> int \<Rightarrow> byte list) \<Rightarrow> conn_ptr \<Rightarrow> (('k, 'z) csys_scheme) conn_hooks \<Rightarrow> bool" where
  "conn_env os sent p hooks \<longleftrightarrow>
     write_contract os sent \<and> quiet_contract os sent \<and> readv_contract os \<and> hooks_fair sent p hooks"

lemma conn_step_keeps:
  assumes env: "conn_env os sent p hooks" and pre: "keeps_conn sent p s xs w" and step: "conn_step os hooks p w w'"
  shows "keeps_conn sent p s xs w'"
proof -
  have wc: "write_contract os sent" and quiet: "quiet_contract os sent" and rc: "readv_contract os"
    and fair: "hooks_fair sent p hooks" and inv: "conn_inv p w"
    using env pre by (simp_all add: conn_env_def keeps_conn_def)
  from step show ?thesis
  proof cases
    case established
    then have "s \<le> Connected"
      using pre order_trans [of s Connecting Connected] by (simp add: keeps_conn_def conn_state_order)
    then show ?thesis
      using holdsD [OF connectEstablished_keeps [OF quiet fair pre] established(2)] established(1)
      by (auto intro: keeps_conn_weaken)
  next
    case (readable t)
    then show ?thesis by (rule holdsD [OF TcpConnection_handleRead_keeps [OF quiet rc fair pre]])
  next
    case writable
    then show ?thesis
      by (rule holdsD [OF holds_sends_keeps [OF pre TcpConnection_handleWrite_sends [OF wc quiet inv]]])
  next
    case closed
    then have "keeps_conn sent p Disconnected xs w'"
      by (rule holdsD [OF TcpConnection_handleClose_keeps [OF quiet fair pre]])
    then show ?thesis by (rule keeps_conn_weaken) simp
  next
    case failed
    then show ?thesis by (rule holdsD [OF TcpConnection_handleError_keeps [OF quiet pre]])
  next
    case (send d)
    then show ?thesis by (intro holdsD [OF TcpConnection_send_keeps [OF wc quiet pre]])
  next
    case (send_closure d)
    then show ?thesis by (intro holdsD [OF holds_sends_keeps [OF pre sendInLoop_sends [OF wc quiet inv]]])
  next
    case shutdown
    then show ?thesis
      by (rule holdsD [OF succeeds_holds [OF TcpConnection_shutdown_keeps [OF wc quiet pre]]])
  next
    case shutdown_closure
    then show ?thesis
      by (rule holdsD [OF holds_sends_keeps [OF pre succeeds_holds [OF shutdownInLoop_sends [OF quiet inv]]]])
  next
    case destroyed
    then show ?thesis by (rule holdsD [OF connectDestroyed_keeps [OF quiet fair pre]])
  qed
qed

interpretation conn: inductive_invariant "\<lambda>w. conn_env os sent p hooks \<and> keeps_conn sent p s xs w"
    "conn_step os hooks p" "\<lambda>w. conn_env os sent p hooks \<and> keeps_conn sent p s xs w" for os sent p hooks s xs
  by unfold_locales (auto intro: conn_step_keeps)

section \<open>The operations return\<close>

text \<open>
  With a kernel that honours epoll_ctl(2), and bytes that fit the largest vector, sending and writing
  return: the channel stays registrable, and the output buffer grows by the bytes sent at most.
\<close>

definition conn_ready ::
    "'k os \<Rightarrow> ('k \<Rightarrow> int \<Rightarrow> int \<Rightarrow> epoll_event option) \<Rightarrow> conn_ptr \<Rightarrow> nat \<Rightarrow> ('k, 'z) csys_scheme \<Rightarrow> bool" where
  "conn_ready os interest p n w \<longleftrightarrow>
     socket_calls_neutral os interest \<and> registry_ok os interest (m_channel (conn_of w p)) w \<and>
     buffer_ok (m_outputBuffer (conn_of w p)) \<and> length (m_buffer (m_outputBuffer (conn_of w p))) + n \<le> max_vector"

lemma registry_ok_same:
  assumes "registry_ok os interest c w" and "chan w' = chan w" "poller_of w' = poller_of w"
    and "interest (kern w') = interest (kern w)"
  shows "registry_ok os interest c w'"
  using assms by (simp add: registry_ok_def poller_inv_def fd_free_def)

lemma conn_ready_same:
  assumes "conn_ready os interest p n w" and "chan w' = chan w" "poller_of w' = poller_of w"
    and "interest (kern w') = interest (kern w)" and "m_channel (conn_of w' p) = m_channel (conn_of w p)"
    and "buffer_ok (m_outputBuffer (conn_of w' p))"
    and "length (m_buffer (m_outputBuffer (conn_of w' p))) + m \<le> length (m_buffer (m_outputBuffer (conn_of w p))) + n"
  shows "conn_ready os interest p m w'"
  using assms registry_ok_same [of os interest _ w w'] by (simp add: conn_ready_def)

lemma queueInLoop_interest:
  "socket_calls_neutral os interest \<Longrightarrow> interest (kern (queueInLoop os l f w)) = interest (kern w)"
  by (simp add: queueInLoop_def upd_loop_def wakeup_def Let_def socket_calls_neutral_def)

lemma queueInLoop_ready:
  assumes "conn_ready os interest p n w"
  shows "conn_ready os interest p n (queueInLoop os l f w)"
  using assms queueInLoop_interest [of os interest l f w]
  by (intro conn_ready_same [OF assms]) (simp_all add: conn_ready_def)

lemma change_mask_ready:
  assumes ready: "conn_ready os interest p n w"
  shows "succeeds (conn_ready os interest p n) (change_mask os g (m_channel (conn_of w p)) w)"
proof -
  have "registry_ok os interest (m_channel (conn_of w p)) w"
    using ready by (simp add: conn_ready_def)
  from succeeds_and_holds [OF change_mask_registers [OF this] change_mask_changed]
  show ?thesis
    by (rule succeeds_mono) (use ready in \<open>auto simp: conn_ready_def mask_changed_def\<close>)
qed

lemma send_rest_returns:
  assumes ready: "conn_ready os interest p (m + length d) w"
  shows "succeeds (conn_ready os interest p m) (send_rest os p d n r fault w)"
proof (cases "\<not> fault \<and> 0 < r")
  case False
  then show ?thesis
    using ready by (auto simp: send_rest_def conn_ready_def)
next
  case True
  let ?t = "conn_of w p" and ?old = "readableBytes (m_outputBuffer (conn_of w p))"
  define w1 where "w1 = (if m_highWaterMark ?t \<le> ?old + r \<and> ?old < m_highWaterMark ?t \<and> m_highWaterMarkCallback ?t \<noteq> None
     then queueInLoop os (m_tcLoop ?t) (HighWaterMark_fn p (?old + r)) w else w)"
  have w1: "conn_ready os interest p (m + length d) w1"
    using ready queueInLoop_ready [OF ready] by (simp add: w1_def)
  have fits: "length (m_buffer (m_outputBuffer (conn_of w1 p))) + (m + length d) \<le> max_vector"
    and ok: "buffer_ok (m_outputBuffer (conn_of w1 p))"
    using w1 by (simp_all add: conn_ready_def)
  then have "succeeds (\<lambda>b. buffer_ok b \<and> contents b = contents (m_outputBuffer (conn_of w1 p)) @ drop n d \<and>
      length (m_buffer b) \<le> length (m_buffer (m_outputBuffer (conn_of w1 p))) + length (drop n d))
      (Buffer_append (drop n d) (m_outputBuffer (conn_of w1 p)))"
    by (intro buf.push_room buf.light_room) auto
  then have "succeeds (conn_ready os interest p m)
     (andThen (Buffer_append (drop n d) (m_outputBuffer (conn_of w1 p))) (\<lambda>b.
        let w2 = upd_conn p (\<lambda>t. t\<lparr>m_outputBuffer := b\<rparr>) w1; c = m_channel (conn_of w2 p)
        in if \<not> isWriting (chan w2 c) then enableWriting os c w2 else Inr w2))"
  proof (rule succeeds_andThen, elim conjE)
    fix b assume b: "buffer_ok b" "length (m_buffer b) \<le> length (m_buffer (m_outputBuffer (conn_of w1 p))) + length (drop n d)"
    define w2 where "w2 = upd_conn p (\<lambda>t. t\<lparr>m_outputBuffer := b\<rparr>) w1"
    have "conn_ready os interest p m w2"
      by (rule conn_ready_same [OF w1]) (use b in \<open>simp_all add: w2_def\<close>)
    then show "succeeds (conn_ready os interest p m)
       (let w2 = upd_conn p (\<lambda>t. t\<lparr>m_outputBuffer := b\<rparr>) w1; c = m_channel (conn_of w2 p)
        in if \<not> isWriting (chan w2 c) then enableWriting os c w2 else Inr w2)"
      by (simp add: Let_def w2_def [symmetric] channel_ops_change_mask change_mask_ready)
  qed
  then show ?thesis
    using True unfolding send_rest_def Let_def w1_def [symmetric] by simp
qed

lemma sendInLoop_returns:
  assumes ready: "conn_ready os interest p (m + length d) w"
  shows "succeeds (conn_ready os interest p m) (sendInLoop os p d w)"
proof -
  have kern: "conn_ready os interest p (m + length d) (w\<lparr>kern := k'\<rparr>)"
    if "sys_write os fd d (kern w) = (r, k')" for fd r k'
  proof (rule conn_ready_same [OF ready])
    show "interest (kern (w\<lparr>kern := k'\<rparr>)) = interest (kern w)"
      using ready that by (simp add: conn_ready_def socket_calls_neutral_def) (metis snd_conv)
  qed (use ready in \<open>simp_all add: conn_ready_def\<close>)
  have stay: "conn_ready os interest p m w"
    using ready by (simp add: conn_ready_def)
  show ?thesis
    unfolding sendInLoop_def Let_def
    by (auto split: prod.split sum.split simp: stay
        intro!: send_rest_returns ready queueInLoop_ready elim!: kern)
qed

text \<open>\<open>handleWrite\<close> returns, and with an accepting peer the pending output gets shorter.\<close>

lemma shutdownInLoop_returns:
  assumes ready: "conn_ready os interest p n w"
  shows "succeeds (conn_ready os interest p n) (shutdownInLoop os p w)"
proof -
  have "conn_ready os interest p n (w\<lparr>kern := snd (sys_shutdown_wr os fd (kern w))\<rparr>)" for fd
    by (rule conn_ready_same [OF ready]) (use ready in \<open>simp_all add: conn_ready_def socket_calls_neutral_def\<close>)
  then show ?thesis
    using ready by (simp add: shutdownInLoop_def)
qed

lemma handleWrite_returns:
  assumes ready: "conn_ready os interest p n w"
  shows "succeeds (conn_ready os interest p n) (TcpConnection_handleWrite os p w)"
proof (cases "isWriting (conn_chan p w)")
  case False
  then show ?thesis
    using ready by (simp add: TcpConnection_handleWrite_def Let_def conn_chan_def)
next
  case True
  let ?t = "conn_of w p" and ?fd = "m_fd (chan w (m_channel (conn_of w p)))"
  have ok: "buffer_ok (m_outputBuffer ?t)"
    using ready by (simp add: conn_ready_def)
  obtain r k' where wf: "Buffer_writeFd os ?fd (m_outputBuffer ?t) (kern w) = Inr (r, k')"
      and k': "interest k' = interest (kern w)"
    using ready unfolding Buffer_writeFd_eq [OF ok] conn_ready_def socket_calls_neutral_def
    by (metis prod.collapse)
  define w1 where "w1 = w\<lparr>kern := k'\<rparr>"
  have w1: "conn_ready os interest p n w1"
    by (rule conn_ready_same [OF ready]) (use k' ok in \<open>simp_all add: w1_def\<close>)
  define w2 where "w2 = (\<lambda>m :: nat. upd_conn p (\<lambda>t. t\<lparr>m_outputBuffer := retrieve (of_nat m) (m_outputBuffer t)\<rparr>) w1)"
  have w2_eq: "upd_conn p (\<lambda>t. t\<lparr>m_outputBuffer := retrieve (of_nat m) (m_outputBuffer t)\<rparr>) w1 = w2 m" for m
    by (simp add: w2_def)
  have w2: "conn_ready os interest p n (w2 m)" for m
    by (rule conn_ready_same [OF w1]) (use retrieve_ok [OF ok] in \<open>simp_all add: w2_def w1_def\<close>)
  have after: "succeeds (conn_ready os interest p n)
     (let w4 = (if m_writeCompleteCallback (conn_of w3 p) \<noteq> None
                then queueInLoop os (m_tcLoop (conn_of w3 p)) (WriteComplete_fn p) w3 else w3)
      in if m_state (conn_of w4 p) = Disconnecting then shutdownInLoop os p w4 else Inr w4)"
    if "conn_ready os interest p n w3" for w3 :: "('a, 'c) csys_scheme"
    using that queueInLoop_ready [OF that] shutdownInLoop_returns [OF that]
      shutdownInLoop_returns [OF queueInLoop_ready [OF that]] by (simp add: Let_def)
  have "succeeds (conn_ready os interest p n)
     (andThen (disableWriting os (m_channel (conn_of w p)) (w2 m)) (\<lambda>w3.
        let w4 = (if m_writeCompleteCallback (conn_of w3 p) \<noteq> None
                  then queueInLoop os (m_tcLoop (conn_of w3 p)) (WriteComplete_fn p) w3 else w3)
        in if m_state (conn_of w4 p) = Disconnecting then shutdownInLoop os p w4 else Inr w4))" for m
  proof (rule succeeds_andThen)
    show "succeeds (conn_ready os interest p n) (disableWriting os (m_channel (conn_of w p)) (w2 m))"
      using change_mask_ready [OF w2 [of m], where g = "\<lambda>m. m AND NOT kWriteEvent"]
      by (simp add: channel_ops_change_mask w2_def w1_def)
  qed (rule after)
  then show ?thesis
    using True wf w1 w2
    by (cases r) (simp_all add: TcpConnection_handleWrite_def Let_def conn_chan_def w1_def [symmetric] w2_eq)
qed

lemma drained_tail:
  "holds (\<lambda>w'. conn_of w' = conn_of w \<and> (m_state (conn_of w p) = Disconnecting \<longrightarrow>
       (\<exists>k. kern w' = snd (sys_shutdown_wr os (m_socket (conn_of w p)) k))))
     (andThen (disableWriting os (m_channel (conn_of w p)) w) (\<lambda>w3.
        let w4 = (if m_writeCompleteCallback (conn_of w3 p) \<noteq> None
                  then queueInLoop os (m_tcLoop (conn_of w3 p)) (WriteComplete_fn p) w3 else w3)
        in if m_state (conn_of w4 p) = Disconnecting then shutdownInLoop os p w4 else Inr w4))"
proof (rule holds_andThen)
  show "holds (\<lambda>w3. conn_of w3 = conn_of w \<and> \<not> isWriting (chan w3 (m_channel (conn_of w p))))
      (disableWriting os (m_channel (conn_of w p)) w)"
    unfolding channel_ops_change_mask
    by (rule holds_mono [OF change_mask_changed]) (simp add: mask_changed_queries(3), simp add: mask_changed_def)
qed (auto simp: Let_def shutdownInLoop_def)

lemma handleWrite_progress:
  assumes wc: "write_contract os sent" and inv: "conn_inv p w"
    and r: "next_write os p w = (Inr n, k')" "0 < n" "isWriting (conn_chan p w)"
  shows "holds (\<lambda>w'. pending_out p w' = drop n (pending_out p w) \<and>
      (m_state (conn_of w p) = Disconnecting \<and> pending_out p w' = [] \<longrightarrow>
         (\<exists>k. kern w' = snd (sys_shutdown_wr os (m_socket (conn_of w p)) k)))) (TcpConnection_handleWrite os p w)"
proof -
  let ?t = "conn_of w p"
  note wr = conn_inv_writing [OF inv r(3)]
  have ok: "buffer_ok (m_outputBuffer ?t)"
    using inv by (simp add: conn_inv_def)
  have wf: "Buffer_writeFd os (m_fd (conn_chan p w)) (m_outputBuffer ?t) (kern w) = Inr (Inr n, k')"
    using r(1) wr(2) by (simp add: Buffer_writeFd_eq [OF ok] next_write_def pending_out_def)
  define w2 where "w2 = upd_conn p (\<lambda>t. t\<lparr>m_outputBuffer := retrieve (of_nat n) (m_outputBuffer t)\<rparr>) (w\<lparr>kern := k'\<rparr>)"
  have "n \<le> length (pending_out p w)"
    using write_contractD(1) [OF wc, of _ "pending_out p w" "kern w"] r(1) by (auto simp: next_write_def)
  then have "n \<le> max_vector"
    using contents_bound [OF ok] by (simp add: pending_out_def)
  then have pend: "pending_out p w2 = drop n (pending_out p w)" and ok2: "buffer_ok (m_outputBuffer (conn_of w2 p))"
    using buf.pop_items [OF ok, of "of_nat n"] by (simp_all add: w2_def pending_out_def unat_of_nat_object)
  have eq: "TcpConnection_handleWrite os p w =
      (if pending_out p w2 = [] then
         andThen (disableWriting os (m_channel (conn_of w2 p)) w2) (\<lambda>w3.
           let w4 = (if m_writeCompleteCallback (conn_of w3 p) \<noteq> None
                     then queueInLoop os (m_tcLoop (conn_of w3 p)) (WriteComplete_fn p) w3 else w3)
           in if m_state (conn_of w4 p) = Disconnecting then shutdownInLoop os p w4 else Inr w4)
       else Inr w2)"
    using r wf contents_empty_iff [OF ok2]
    by (simp add: TcpConnection_handleWrite_def Let_def conn_chan_def w2_def pending_out_def)
  have same: "m_state (conn_of w2 p) = m_state ?t" "m_socket (conn_of w2 p) = m_socket ?t"
    by (simp_all add: w2_def)
  show ?thesis
  proof (cases "pending_out p w2 = []")
    case True
    show ?thesis
      unfolding eq if_P [OF True]
      by (rule holds_mono [OF drained_tail]) (use pend same in \<open>auto simp: pending_out_def\<close>)
  next
    case False
    then show ?thesis by (simp add: eq pend)
  qed
qed

text \<open>Some writable events in a row.\<close>

fun flush :: "'k os \<Rightarrow> conn_ptr \<Rightarrow> nat \<Rightarrow> ('k, 'z) csys_scheme \<Rightarrow> ('k, 'z) csys_scheme result" where
  "flush os p 0 w = Inr w"
| "flush os p (Suc n) w = andThen (TcpConnection_handleWrite os p w) (flush os p n)"

text \<open>What stays and what shrinks with every writable event.\<close>

definition flushing ::
    "'k os \<Rightarrow> ('k \<Rightarrow> int \<Rightarrow> byte list) \<Rightarrow> ('k \<Rightarrow> int \<Rightarrow> int \<Rightarrow> epoll_event option) \<Rightarrow> ('k \<Rightarrow> int \<Rightarrow> bool) \<Rightarrow>
       conn_ptr \<Rightarrow> byte list \<Rightarrow> conn_state \<Rightarrow> int \<Rightarrow> nat \<Rightarrow> ('k, 'z) csys_scheme \<Rightarrow> bool" where
  "flushing os sent interest shut p stream st fd n w \<longleftrightarrow>
     conn_inv p w \<and> conn_ready os interest p 0 w \<and> out_stream sent p w = stream \<and> m_state (conn_of w p) = st \<and>
     m_socket (conn_of w p) = fd \<and> length (pending_out p w) \<le> n \<and>
     (st = Disconnecting \<and> pending_out p w = [] \<longrightarrow> shut (kern w) fd)"

lemma handleWrite_flushing:
  assumes wc: "write_contract os sent" and quiet: "quiet_contract os sent" and acc: "accepting os"
    and sc: "shutdown_contract os shut" and f: "flushing os sent interest shut p stream st fd n w"
    and st: "st \<noteq> Disconnected"
  shows "succeeds (flushing os sent interest shut p stream st fd (n - 1)) (TcpConnection_handleWrite os p w)"
proof (cases "isWriting (conn_chan p w)")
  case False
  then have "pending_out p w = []"
    using f st by (auto simp: flushing_def conn_inv_def)
  then show ?thesis
    using f False by (simp add: flushing_def TcpConnection_handleWrite_def Let_def conn_chan_def)
next
  case True
  have inv: "conn_inv p w" and ready: "conn_ready os interest p 0 w"
    using f by (simp_all add: flushing_def)
  obtain m k' where m: "next_write os p w = (Inr m, k')" "0 < m"
    using acc conn_inv_writing(2) [OF inv True] unfolding accepting_def next_write_def by blast
  note S = TcpConnection_handleWrite_sends [OF wc quiet inv] and P = handleWrite_progress [OF wc inv m True]
  show ?thesis
  proof (rule succeeds_mono [OF succeeds_and_holds [OF succeeds_and_holds [OF handleWrite_returns [OF ready] S] P]],
      elim conjE)
    fix w' assume r: "conn_ready os interest p 0 w'" and s: "sends sent p [] (drain_closures os p w) w w'"
      and p: "pending_out p w' = drop m (pending_out p w)"
      and sh: "m_state (conn_of w p) = Disconnecting \<and> pending_out p w' = [] \<longrightarrow>
         (\<exists>k. kern w' = snd (sys_shutdown_wr os (m_socket (conn_of w p)) k))"
    have "m_socket (conn_of w' p) = fd"
      using s f confined_parts(2) by (auto simp: sends_def flushing_def)
    moreover have "shut (kern w') fd" if "st = Disconnecting" "pending_out p w' = []"
      using that sh sc f by (auto simp: shutdown_contract_def flushing_def)
    ultimately show "flushing os sent interest shut p stream st fd (n - 1) w'"
      using f r s p m(2) by (auto simp: flushing_def sends_def)
  qed
qed

lemma flush_flushing:
  assumes wc: "write_contract os sent" and quiet: "quiet_contract os sent" and acc: "accepting os"
    and sc: "shutdown_contract os shut" and st: "st \<noteq> Disconnected"
    and f: "flushing os sent interest shut p stream st fd n w"
  shows "succeeds (flushing os sent interest shut p stream st fd 0) (flush os p n w)"
  using f
proof (induction n arbitrary: w)
  case 0
  then show ?case by simp
next
  case (Suc n)
  show ?case
    unfolding flush.simps
    by (rule succeeds_andThen [OF handleWrite_flushing [OF wc quiet acc sc Suc.prems st]]) (simp add: Suc.IH)
qed

section \<open>Runs of sends and writable events\<close>

datatype io_event = Io_send "byte list" | Io_writable | Io_shutdown

text \<open>The run also returns the bytes the connection took on, in order.\<close>

fun io_run :: "'k os \<Rightarrow> conn_ptr \<Rightarrow> io_event list \<Rightarrow> ('k, 'z) csys_scheme \<Rightarrow> (byte list \<times> ('k, 'z) csys_scheme) result" where
  "io_run os p [] w = Inr ([], w)"
| "io_run os p (Io_send d # es) w =
     andThen (sendInLoop os p d w) (\<lambda>w1. andThen (io_run os p es w1) (\<lambda>(bs, w2). Inr (taken os p d w @ bs, w2)))"
| "io_run os p (Io_writable # es) w = andThen (TcpConnection_handleWrite os p w) (io_run os p es)"
| "io_run os p (Io_shutdown # es) w = andThen (TcpConnection_shutdown os p w) (io_run os p es)"

fun io_bytes :: "io_event list \<Rightarrow> nat" where
  "io_bytes [] = 0"
| "io_bytes (Io_send d # es) = length d + io_bytes es"
| "io_bytes (Io_writable # es) = io_bytes es"
| "io_bytes (Io_shutdown # es) = io_bytes es"

lemma TcpConnection_shutdown_stream:
  assumes wc: "write_contract os sent" and quiet: "quiet_contract os sent" and inv: "conn_inv p w"
    and ready: "conn_ready os interest p n w"
  shows "succeeds (\<lambda>w'. conn_ready os interest p n w' \<and> conn_inv p w' \<and> out_stream sent p w' = out_stream sent p w)
     (TcpConnection_shutdown os p w)"
proof (cases "m_state (conn_of w p) = Connected")
  case False
  then show ?thesis using assms by (simp add: TcpConnection_shutdown_def)
next
  case True
  define w1 where "w1 = setState p Disconnecting w"
  have inv1: "conn_inv p w1" and str: "out_stream sent p w1 = out_stream sent p w"
    using inv True by (simp_all add: w1_def conn_inv_def conn_chan_def pending_out_def out_stream_def)
  have r1: "conn_ready os interest p n w1"
    by (rule conn_ready_same [OF ready]) (use ready in \<open>simp_all add: w1_def conn_ready_def\<close>)
  note now = succeeds_and_holds [OF shutdownInLoop_returns [OF r1] succeeds_holds [OF shutdownInLoop_sends [OF quiet inv1]]]
  have later: "sends sent p [] [f] w1 (queueInLoop os (m_tcLoop (conn_of w1 p)) f w1)" for f
    by (rule sends_queue [OF wc inv1])
  show ?thesis
    using True str queueInLoop_ready [OF r1] later
    by (auto simp: TcpConnection_shutdown_def Let_def runInLoop_def w1_def [symmetric] sends_def
        intro!: succeeds_mono [OF now])
qed

lemma io_run_stream:
  assumes wc: "write_contract os sent" and quiet: "quiet_contract os sent"
  shows "conn_inv p w \<Longrightarrow> conn_ready os interest p (io_bytes es) w \<Longrightarrow>
    succeeds (\<lambda>(bs, w'). conn_inv p w' \<and> out_stream sent p w' = out_stream sent p w @ bs) (io_run os p es w)"
proof (induction es arbitrary: w)
  case Nil
  then show ?case by simp
next
  case (Cons e es)
  note inv = Cons.prems(1)
  show ?case
  proof (cases e)
    case (Io_send d)
    have ready: "conn_ready os interest p (io_bytes es + length d) w"
      using Cons.prems(2) Io_send by (simp add: add.commute)
    then have "length d \<le> max_vector"
      by (simp add: conn_ready_def)
    note S = sendInLoop_sends [OF wc quiet inv this]
    show ?thesis
      unfolding Io_send io_run.simps
    proof (rule succeeds_andThen [OF succeeds_and_holds [OF sendInLoop_returns [OF ready] S]], elim conjE)
      fix w1 assume w1: "conn_ready os interest p (io_bytes es) w1"
        "sends sent p (taken os p d w) (send_closures os p d w) w w1"
      then have "succeeds (\<lambda>(bs, w'). conn_inv p w' \<and> out_stream sent p w' = out_stream sent p w1 @ bs) (io_run os p es w1)"
        by (intro Cons.IH) (simp_all add: sends_def)
      then show "succeeds (\<lambda>(bs, w'). conn_inv p w' \<and> out_stream sent p w' = out_stream sent p w @ bs)
          (andThen (io_run os p es w1) (\<lambda>(bs, w2). Inr (taken os p d w @ bs, w2)))"
        by (rule succeeds_andThen) (use w1(2) in \<open>auto simp: sends_def\<close>)
    qed
  next
    case Io_writable
    have ready: "conn_ready os interest p (io_bytes es) w"
      using Cons.prems(2) Io_writable by simp
    show ?thesis
      unfolding Io_writable io_run.simps
      by (rule succeeds_andThen [OF succeeds_and_holds [OF handleWrite_returns [OF ready]
              TcpConnection_handleWrite_sends [OF wc quiet inv]]])
        (use Cons.IH in \<open>fastforce simp: sends_def\<close>)
  next
    case Io_shutdown
    have ready: "conn_ready os interest p (io_bytes es) w"
      using Cons.prems(2) Io_shutdown by simp
    show ?thesis
      unfolding Io_shutdown io_run.simps
      by (rule succeeds_andThen [OF TcpConnection_shutdown_stream [OF wc quiet inv ready]])
        (use Cons.IH in fastforce)
  qed
qed

text \<open>
  \<open>handleClose\<close> switches the channel off before it tells anybody: when the user's callbacks run, the state
  is Disconnected and the kernel watches a watched channel for nothing. (A channel that was not watched
  is added, with the empty mask.)
\<close>

lemma handleClose_switches_off:
  assumes "registry_ok os interest (m_channel (conn_of w p)) w"
  obtains w1 where "change_mask os (\<lambda>_. 0) (m_channel (conn_of w p)) (setState p Disconnected w) = Inr w1"
    "registry_ok os interest (m_channel (conn_of w p)) w1"
    "channel_watched interest (m_channel (conn_of w p)) w1 =
       (if channel_watched interest (m_channel (conn_of w p)) w = None then Some 0 else None)"
    "mask_changed (\<lambda>_. 0) (m_channel (conn_of w p)) (setState p Disconnected w) w1"
    "TcpConnection_handleClose os hooks p w =
       andThen (call_user (m_connectionCallback (conn_of w p)) (\<lambda>cb. call_connection hooks cb p) w1)
         (\<lambda>w3. call_user (tcpconn.m_closeCallback (conn_of w3 p)) (\<lambda>cb. call_close hooks cb p) w3)"
proof -
  let ?c = "m_channel (conn_of w p)" and ?w0 = "setState p Disconnected w"
  have ok: "registry_ok os interest ?c ?w0" and wd: "channel_watched interest ?c ?w0 = channel_watched interest ?c w"
    using registry_ok_same [OF assms(1), of ?w0] by (simp_all add: channel_watched_def watched_def)
  obtain w1 where w1: "change_mask os (\<lambda>_. 0) ?c ?w0 = Inr w1" "registry_ok os interest ?c w1"
      "channel_watched interest ?c w1 = (if channel_watched interest ?c w = None then Some 0 else None)"
    using change_mask_registers [OF ok, of "\<lambda>_. 0"] wd by (auto simp: succeeds_def)
  have m: "mask_changed (\<lambda>_. 0) ?c ?w0 w1"
    using holdsD [OF change_mask_changed w1(1)] .
  then have "conn_of w1 = conn_of ?w0"
    by (simp add: mask_changed_def)
  then show ?thesis
    using w1 by (intro that [OF w1 m]) (simp add: TcpConnection_handleClose_def Let_def channel_ops_change_mask)
qed

section \<open>A concrete connection\<close>

text \<open>The connection at 4, on descriptor 6, with its channel at 8, in loop 0, whose wakeup descriptor is 5.\<close>

definition silent_hooks :: "'w conn_hooks" where
  "silent_hooks = \<lparr>call_connection = (\<lambda>_ _ w. Inr w), call_message = (\<lambda>_ _ _ w. Inr w),
     call_writeComplete = (\<lambda>_ _ w. Inr w), call_highWaterMark = (\<lambda>_ _ _ w. Inr w), call_close = (\<lambda>_ _ w. Inr w)\<rparr>"

lemma silent_fair: "hooks_keep P silent_hooks" "hooks_fair sent p silent_hooks"
  by (simp_all add: hooks_fair_def hooks_keep_def silent_hooks_def)

definition conn_world :: "conn_state \<Rightarrow> buffer \<Rightarrow> evmask \<Rightarrow> simk csys" where
  "conn_world st out ev = \<lparr>kern = boot\<lparr>k_input := (\<lambda>_. [7, 7])\<rparr>, chan = (\<lambda>_. Channel_ctor 9 0)(8 := (Channel_ctor 0 6)\<lparr>m_events := ev\<rparr>),
     poller_of = (\<lambda>_. \<lparr>m_channels = (\<lambda>_. None), m_epollfd = 3,
       m_eventList = replicate kInitEventListSize \<lparr>ev_events = 0, ev_ptr = 0\<rparr>\<rparr>),
     loop_of = (\<lambda>_. \<lparr>m_looping = True, m_quit = False, m_threadId = 7, m_pollReturnTime = 0, m_wakeupFd = 5,
       m_wakeupChannel = 2, m_activeChannels = [], m_callingPendingFunctors = False, m_pendingFunctors = []\<rparr>),
     cur_thread = 7, t_loopInThisThread = (\<lambda>_. Some 0),
     conn_of = (\<lambda>_. \<lparr>m_tcLoop = 0, m_name = ''c'', m_state = st, m_reading = True, m_socket = 6, m_channel = 8,
       m_localAddr = InetAddress_of \<lparr>sin_family = AF_INET, sin_port = 0, sin_addr = 0\<rparr>,
       m_peerAddr = InetAddress_of \<lparr>sin_family = AF_INET, sin_port = 0, sin_addr = 0\<rparr>,
       m_connectionCallback = Some 1, m_messageCallback = Some 1, m_writeCompleteCallback = Some 1,
       m_highWaterMarkCallback = Some 1, m_closeCallback = Some 1, m_highWaterMark = 2,
       m_inputBuffer = sample_buffer, m_outputBuffer = out\<rparr>)\<rparr>"

text \<open>Connected with nothing pending, and with the bytes \<open>1 2 3\<close> pending.\<close>

definition calm :: "simk csys" where
  "calm = conn_world Connected (retrieveAll sample_buffer) EPOLLIN"

definition busy :: "conn_state \<Rightarrow> simk csys" where
  "busy st = conn_world st sample_buffer (EPOLLIN OR EPOLLOUT)"

lemma conn_world_registry: "epoll_contract os k_interest \<Longrightarrow> registry_ok os k_interest 8 (conn_world st out ev)"
  by (simp add: registry_ok_def poller_inv_def fd_free_def conn_world_def Channel_ctor_def status_values boot_def)

lemma conn_world_ready:
  assumes "epoll_contract os k_interest" "socket_calls_neutral os k_interest" "n \<le> 100"
    and "m_buffer out = m_buffer sample_buffer" "buffer_ok out"
  shows "conn_ready os k_interest 4 n (conn_world st out ev)"
  using assms conn_world_registry [OF assms(1), of st out ev]
  by (simp add: conn_ready_def conn_world_def [of st out ev]) (simp add: sample_buffer_def max_vector_def)

lemma calm_inv: "conn_inv 4 calm"
  using sample_buffer_ok retrieveAll_ok [OF sample_buffer_ok]
  by (simp add: conn_inv_def calm_def conn_world_def conn_chan_def Channel_ctor_def pending_out_def
      isWriting_def event_masks epoll_bits)

lemma busy_inv: "st \<noteq> Disconnected \<Longrightarrow> conn_inv 4 (busy st)"
  using sample_buffer_ok
  by (simp add: conn_inv_def busy_def conn_world_def conn_chan_def Channel_ctor_def pending_out_def
      isWriting_def event_masks epoll_bits sample_contents)

lemma calm_ready: "n \<le> 100 \<Longrightarrow> conn_ready sim_os k_interest 4 n calm" "n \<le> 100 \<Longrightarrow> conn_ready eager_os k_interest 4 n calm"
  using retrieveAll_ok [OF sample_buffer_ok] sim_epoll sim_neutral eager_contracts
  by (auto simp: calm_def retrieveAll_def intro!: conn_world_ready)

lemma busy_ready: "n \<le> 100 \<Longrightarrow> conn_ready sim_os k_interest 4 n (busy st)" "n \<le> 100 \<Longrightarrow> conn_ready eager_os k_interest 4 n (busy st)"
  using sample_buffer_ok sim_epoll sim_neutral eager_contracts
  by (auto simp: busy_def intro!: conn_world_ready)

lemma sim_env: "conn_env sim_os k_sent p silent_hooks"
  by (simp add: conn_env_def sim_write_contract sim_quiet sim_readv silent_fair)

section \<open>Properties\<close>



text \<open>
  C8: Byte-stream integrity: a run of sends, writable events and shutdowns in the loop returns, and
  afterwards the bytes the kernel has accepted followed by those still pending are exactly those
  before the run followed by the bytes the connection took on (\<open>taken\<close>: all of a send, or none of
  it once the connection is down or the kernel reports that the peer is gone).
\<close>

theorem output_stream_exact:
  assumes "write_contract os sent" and "quiet_contract os sent"
    and "conn_inv p w" and "conn_ready os interest p (io_bytes es) w"
  shows "succeeds (\<lambda>(bs, w'). conn_inv p w' \<and> out_stream sent p w' = out_stream sent p w @ bs) (io_run os p es w)"
  using assms by (rule io_run_stream)

theorem output_stream_exact_witness:
  "succeeds (\<lambda>(bs, w'). out_stream k_sent 4 w' = bs)
     (io_run sim_os 4 [Io_send [1, 2, 3, 4, 5, 6], Io_send [7], Io_writable, Io_shutdown, Io_writable] calm)"
proof -
  have "conn_ready sim_os k_interest 4 (io_bytes [Io_send [1, 2, 3, 4, 5, 6], Io_send [7], Io_writable, Io_shutdown, Io_writable]) calm"
    by (rule calm_ready) simp
  moreover have "out_stream k_sent 4 calm = []"
    by (simp add: out_stream_def pending_out_def calm_def conn_world_def boot_def retrieveAll_ok sample_buffer_ok)
  ultimately show ?thesis
    using output_stream_exact [OF sim_write_contract sim_quiet calm_inv] by (fastforce elim: succeeds_mono)
qed

text \<open>
  C18: \<open>sendInLoop\<close> on every branch: it returns; the bytes taken join the output; exactly the closures
  due are queued (the write-complete callback when everything was written at once, the high-water
  callback, with the new length, when the pending bytes cross the mark from below, nothing when
  the connection is down or the peer is gone); the state stays, and no other object changes.
\<close>

theorem sendInLoop_exact:
  assumes "write_contract os sent" and "quiet_contract os sent" and "conn_inv p w"
    and "conn_ready os interest p (length d) w"
  shows "succeeds (\<lambda>w'. conn_inv p w' \<and> out_stream sent p w' = out_stream sent p w @ taken os p d w \<and>
     conn_loop_functors p w' = conn_loop_functors p w @ send_closures os p d w \<and>
     m_state (conn_of w' p) = m_state (conn_of w p) \<and> confined p w w') (sendInLoop os p d w)"
proof -
  have "length d \<le> max_vector"
    using assms(4) by (simp add: conn_ready_def)
  from succeeds_and_holds [OF sendInLoop_returns [of os interest p 0 d w] sendInLoop_sends [OF assms(1-3) this]]
  show ?thesis
    using assms(4) by (auto simp: sends_def elim: succeeds_mono)
qed

theorem sendInLoop_exact_witness:
  "succeeds (\<lambda>w'. conn_loop_functors 4 w' = [HighWaterMark_fn 4 2] \<and> out_stream k_sent 4 w' = [1, 2, 3, 4, 5, 6])
     (sendInLoop sim_os 4 [1, 2, 3, 4, 5, 6] calm)"
proof -
  have "writes_at_once 4 calm" "first_write sim_os 4 [1, 2, 3, 4, 5, 6] calm = Inr 4"
    "high_water_due 4 2 calm = [HighWaterMark_fn 4 2]" "out_stream k_sent 4 calm = []" "conn_loop_functors 4 calm = []"
    "m_state (conn_of calm 4) = Connected"
    using retrieveAll_ok [OF sample_buffer_ok]
    by (simp_all add: writes_at_once_def first_write_def high_water_due_def calm_def conn_world_def boot_def
        sim_write_def pending_out_def out_stream_def conn_chan_def isWriting_def event_masks epoll_bits Let_def
        conn_loop_functors_def)
  then have "taken sim_os 4 [1, 2, 3, 4, 5, 6] calm = [1, 2, 3, 4, 5, 6]"
      "send_closures sim_os 4 [1, 2, 3, 4, 5, 6] calm = [HighWaterMark_fn 4 2]"
      "out_stream k_sent 4 calm = []" "conn_loop_functors 4 calm = []"
    by (simp_all add: taken_def send_closures_def numeral_2_eq_2)
  then show ?thesis
    using sendInLoop_exact [OF sim_write_contract sim_quiet calm_inv calm_ready(1), of "[1, 2, 3, 4, 5, 6]"]
    by (auto elim: succeeds_mono)
qed

text \<open>
  C19: A writable event writes from the front of the pending output and drops exactly what the kernel
  took; when that is all of it, write interest goes off, the write-complete callback is queued, and
  a connection that is shutting down closes its write end as the last thing.
\<close>

theorem handleWrite_exact:
  assumes "write_contract os sent" and "quiet_contract os sent" and "conn_inv p w"
    and "conn_ready os interest p 0 w" and "isWriting (conn_chan p w)"
    and "next_write os p w = (Inr n, k')" and "0 < n"
  shows "succeeds (\<lambda>w'. conn_inv p w' \<and> pending_out p w' = drop n (pending_out p w) \<and>
     sent (kern w') (m_socket (conn_of w p)) = sent (kern w) (m_socket (conn_of w p)) @ take n (pending_out p w) \<and>
     conn_loop_functors p w' = conn_loop_functors p w @ drain_closures os p w \<and>
     (m_state (conn_of w p) = Disconnecting \<and> pending_out p w' = [] \<longrightarrow>
        (\<exists>k. kern w' = snd (sys_shutdown_wr os (m_socket (conn_of w p)) k))) \<and> confined p w w')
   (TcpConnection_handleWrite os p w)"
proof (rule succeeds_mono [OF succeeds_and_holds [OF succeeds_and_holds [OF handleWrite_returns [OF assms(4)]
        TcpConnection_handleWrite_sends [OF assms(1-3)]] handleWrite_progress [OF assms(1,3,6,7,5)]]], elim conjE)
  fix w' assume s: "sends sent p [] (drain_closures os p w) w w'" and p: "pending_out p w' = drop n (pending_out p w)"
    and sh: "m_state (conn_of w p) = Disconnecting \<and> pending_out p w' = [] \<longrightarrow>
        (\<exists>k. kern w' = snd (sys_shutdown_wr os (m_socket (conn_of w p)) k))"
  have "sent (kern w') (m_socket (conn_of w p)) @ drop n (pending_out p w) =
      sent (kern w) (m_socket (conn_of w p)) @ take n (pending_out p w) @ drop n (pending_out p w)"
    using s p confined_parts(2) [of p w w'] by (simp add: sends_def out_stream_def)
  then have "sent (kern w') (m_socket (conn_of w p)) = sent (kern w) (m_socket (conn_of w p)) @ take n (pending_out p w)"
    by (metis append.assoc append_same_eq)
  then show "conn_inv p w' \<and> pending_out p w' = drop n (pending_out p w) \<and>
     sent (kern w') (m_socket (conn_of w p)) = sent (kern w) (m_socket (conn_of w p)) @ take n (pending_out p w) \<and>
     conn_loop_functors p w' = conn_loop_functors p w @ drain_closures os p w \<and>
     (m_state (conn_of w p) = Disconnecting \<and> pending_out p w' = [] \<longrightarrow>
        (\<exists>k. kern w' = snd (sys_shutdown_wr os (m_socket (conn_of w p)) k))) \<and> confined p w w'"
    using s p sh by (simp add: sends_def)
qed

lemma busy_write:
  "isWriting (conn_chan 4 (busy st))" "pending_out 4 (busy st) = [1, 2, 3]" "m_socket (conn_of (busy st) 4) = 6"
  "sent_of = k_sent \<Longrightarrow> sent_of (kern (busy st)) 6 = []" "m_state (conn_of (busy st) 4) = st"
  "fst (next_write eager_os 4 (busy st)) = Inr 2"
  by (simp_all add: busy_def conn_world_def conn_chan_def Channel_ctor_def pending_out_def sample_contents boot_def
      isWriting_def event_masks epoll_bits next_write_def eager_os_def)

theorem handleWrite_exact_witness:
  "succeeds (\<lambda>w'. pending_out 4 w' = [3] \<and> k_sent (kern w') 6 = [1, 2])
     (TcpConnection_handleWrite eager_os 4 (busy Connected))"
proof -
  obtain k' where r: "next_write eager_os 4 (busy Connected) = (Inr 2, k')"
    using busy_write(6) [of Connected] by (metis prod.collapse)
  have "conn_ready eager_os k_interest 4 0 (busy Connected)"
    by (rule busy_ready) simp
  from handleWrite_exact [OF eager_contracts(2,3) busy_inv this busy_write(1) r] show ?thesis
    by (rule succeeds_mono) (auto simp: busy_write)
qed

text \<open>
  C16: Output drains: when the peer keeps reading, at most as many writable events as there are pending
  bytes (each writes at least one) leave nothing pending, everything handed to the kernel in order,
  write interest off, and the write end closed if the connection was shutting down.
\<close>

theorem output_drains:
  assumes "write_contract os sent" and "quiet_contract os sent" and "accepting os" and "shutdown_contract os shut"
    and "conn_inv p w" and "conn_ready os interest p 0 w" and "m_state (conn_of w p) \<noteq> Disconnected"
    and "pending_out p w \<noteq> []" and "length (pending_out p w) \<le> n"
  shows "succeeds (\<lambda>w'. pending_out p w' = [] \<and> \<not> isWriting (conn_chan p w') \<and>
       sent (kern w') (m_socket (conn_of w p)) = sent (kern w) (m_socket (conn_of w p)) @ pending_out p w \<and>
       (m_state (conn_of w p) = Disconnecting \<longrightarrow> shut (kern w') (m_socket (conn_of w p)))) (flush os p n w)"
proof -
  have "flushing os sent interest shut p (out_stream sent p w) (m_state (conn_of w p)) (m_socket (conn_of w p)) n w"
    using assms(5-9) by (simp add: flushing_def)
  from flush_flushing [OF assms(1-4,7) this] show ?thesis
    by (rule succeeds_mono) (use assms(7) in \<open>auto simp: flushing_def conn_inv_def out_stream_def\<close>)
qed

theorem output_drains_witness:
  "succeeds (\<lambda>w'. k_sent (kern w') 6 = [1, 2, 3] \<and> 6 \<in> set (k_shut (kern w'))) (flush eager_os 4 3 (busy Disconnecting))"
proof -
  have "conn_ready eager_os k_interest 4 0 (busy Disconnecting)"
    by (rule busy_ready) simp
  from output_drains [OF eager_contracts(2,3,6,7) busy_inv this, of 3] show ?thesis
    by (simp add: busy_write) (auto elim: succeeds_mono)
qed

text \<open>
  \<open>shutdown\<close> is graceful: called in the loop's thread on a connected connection it makes the state
  Disconnecting, and it closes the write end at once only when nothing is pending; otherwise it makes
  no call at all (the write end is closed when the output has drained).
\<close>

theorem shutdown_waits_for_output:
  assumes "conn_inv p w" and "m_state (conn_of w p) = Connected" and "isInLoopThread (m_tcLoop (conn_of w p)) w"
  shows "TcpConnection_shutdown os p w =
     Inr (if pending_out p w = []
          then (setState p Disconnecting w)\<lparr>kern := snd (sys_shutdown_wr os (m_socket (conn_of w p)) (kern w))\<rparr>
          else setState p Disconnecting w)"
proof -
  have "conn_inv p (setState p Disconnecting w)"
    using assms(1,2) by (simp add: conn_inv_def conn_chan_def pending_out_def)
  from shutdownInLoop_eq [OF this] show ?thesis
    using assms(2,3) by (simp add: TcpConnection_shutdown_def Let_def runInLoop_def isInLoopThread_def pending_out_def)
qed

theorem shutdown_waits_for_output_witness:
  "TcpConnection_shutdown sim_os 4 (busy Connected) = Inr (setState 4 Disconnecting (busy Connected))"
proof -
  have "isInLoopThread (m_tcLoop (conn_of (busy Connected) 4)) (busy Connected)"
    by (simp add: isInLoopThread_def busy_def conn_world_def)
  from shutdown_waits_for_output [OF busy_inv busy_write(5) this, of sim_os] show ?thesis
    by (simp add: busy_write)
qed

text \<open>
  C22: A readable event on every branch: all the bytes \<open>readv\<close> delivers are at the end of the input
  buffer when the message callback is called, which happens exactly when there are any; the end of
  the stream closes the connection; an error changes nothing but is looked up.
\<close>

theorem handleRead_delivers:
  assumes "buffer_ok (m_inputBuffer (conn_of w p))" and "readv_contract os"
    and "length (m_buffer (m_inputBuffer (conn_of w p))) + 65536 \<le> max_vector"
    and "sys_readv os (m_fd (conn_chan p w)) (read_caps (m_inputBuffer (conn_of w p))) (kern w) = (r, k')"
  shows "\<exists>b. buffer_ok b \<and>
     contents b = contents (m_inputBuffer (conn_of w p)) @ (case r of Inl e \<Rightarrow> [] | Inr bs \<Rightarrow> bs) \<and>
     TcpConnection_handleRead os hooks p t w =
       (let w1 = upd_conn p (\<lambda>c. c\<lparr>m_inputBuffer := b\<rparr>) (w\<lparr>kern := k'\<rparr>) in
        case r of
          Inl e \<Rightarrow> TcpConnection_handleError os p w1
        | Inr bs \<Rightarrow> if bs = [] then TcpConnection_handleClose os hooks p w1
                   else call_user (m_messageCallback (conn_of w p)) (\<lambda>cb. call_message hooks cb p t) w1)"
proof (cases r)
  case (Inl e)
  have "Buffer_readFd os (m_fd (conn_chan p w)) (m_inputBuffer (conn_of w p)) (kern w)
      = Inr (Inl e, m_inputBuffer (conn_of w p), k')"
    using assms(4) Inl by (intro Buffer_readFd_error) (simp add: read_caps_def)
  then show ?thesis
    using Inl assms(1) by (intro exI [of _ "m_inputBuffer (conn_of w p)"])
      (simp add: TcpConnection_handleRead_def conn_chan_def Let_def)
next
  case (Inr bs)
  obtain b where "Buffer_readFd os (m_fd (conn_chan p w)) (m_inputBuffer (conn_of w p)) (kern w)
      = Inr (Inr (length bs), b, k')" "buffer_ok b" "contents b = contents (m_inputBuffer (conn_of w p)) @ bs"
    using Buffer_readFd_ok [OF assms(1-3), of "m_fd (conn_chan p w)" "kern w" bs k'] assms(4) Inr
    by (auto simp: succeeds_def read_caps_def)
  then show ?thesis
    using Inr by (intro exI [of _ b]) (simp add: TcpConnection_handleRead_def conn_chan_def Let_def)
qed

theorem handleRead_delivers_witness:
  "\<exists>b. contents b = [1, 2, 3, 7, 7] \<and> TcpConnection_handleRead sim_os silent_hooks 4 0 calm =
     Inr (upd_conn 4 (\<lambda>c. c\<lparr>m_inputBuffer := b\<rparr>) (calm\<lparr>kern := (kern calm)\<lparr>k_input := (k_input (kern calm))(6 := [])\<rparr>\<rparr>))"
proof -
  have i: "m_inputBuffer (conn_of calm 4) = sample_buffer" "m_fd (conn_chan 4 calm) = 6"
    "k_input (kern calm) 6 = [7, 7]" "m_messageCallback (conn_of calm 4) = Some 1"
    by (simp_all add: calm_def conn_world_def conn_chan_def Channel_ctor_def)
  have caps: "read_caps sample_buffer = [10, 65536]"
    by (simp add: read_caps_def sample_buffer_def writableBytes_def vector_size_def kExtraBufSize_def)
  have "length (m_buffer sample_buffer) + 65536 \<le> max_vector"
    by (simp add: sample_buffer_def max_vector_def)
  then show ?thesis
    using handleRead_delivers [of calm 4 sim_os "Inr [7, 7]" _ silent_hooks 0] sample_buffer_ok sim_readv
    by (simp add: i caps sample_contents call_user_def) (auto simp: silent_hooks_def Let_def)
qed

text \<open>
  A connection is born Connecting, with its invariant, two empty buffers, no event of interest, a
  high water mark of 64 MiB, and its four handlers bound to its channel; a null loop ends the process.
\<close>

theorem TcpConnection_ctor_correct:
  "TcpConnection_ctor os p c None name fd localAddr peer w = Inl Exit \<and>
   (fd \<noteq> m_wakeupFd (loop_of w l) \<longrightarrow>
    succeeds (\<lambda>w'. conn_inv p w' \<and> m_state (conn_of w' p) = Connecting \<and> pending_out p w' = [] \<and>
      contents (m_inputBuffer (conn_of w' p)) = [] \<and> isNoneEvent (conn_chan p w') \<and>
      m_highWaterMark (conn_of w' p) = 2 ^ 26 \<and>
      m_readCallback (conn_chan p w') = Some (TcpConnection_handleRead_cb p) \<and>
      m_writeCallback (conn_chan p w') = Some (TcpConnection_handleWrite_cb p) \<and>
      channel.m_closeCallback (conn_chan p w') = Some (TcpConnection_handleClose_cb p) \<and>
      m_errorCallback (conn_chan p w') = Some (TcpConnection_handleError_cb p) \<and>
      (\<forall>q. q \<noteq> p \<longrightarrow> conn_of w' q = conn_of w q) \<and> (\<forall>x. x \<noteq> c \<longrightarrow> chan w' x = chan w x))
     (TcpConnection_ctor os p c (Some l) name fd localAddr peer w))"
proof -
  obtain b where b: "Buffer_ctor kInitialSize = Inr b" "buffer_ok b" "contents b = []"
    using Buffer_ctor_ok [of kInitialSize] by (auto simp: succeeds_def kInitialSize_def max_vector_def)
  show ?thesis
    by (simp add: TcpConnection_ctor_def Let_def b conn_inv_def conn_chan_def pending_out_def Channel_ctor_def
        isNoneEvent_def isWriting_def kNoneEvent_def kDefaultHighWaterMark_def setReadCallback_def
        setWriteCallback_def setCloseCallback_def setErrorCallback_def)
qed

theorem TcpConnection_ctor_correct_witness:
  "succeeds (\<lambda>w'. conn_inv 4 w' \<and> m_state (conn_of w' 4) = Connecting)
     (TcpConnection_ctor sim_os 4 8 (Some 0) ''c'' 6 (m_localAddr (conn_of calm 4)) (m_peerAddr (conn_of calm 4)) calm)"
proof -
  have "6 \<noteq> m_wakeupFd (loop_of calm 0)"
    by (simp add: calm_def conn_world_def)
  then show ?thesis
    using TcpConnection_ctor_correct [of sim_os 4 8 "''c''" 6 "m_localAddr (conn_of calm 4)"
      "m_peerAddr (conn_of calm 4)" calm 0] by (auto elim: succeeds_mono)
qed

end
