(* ===== verification/TcpServer.thy ===== *)
theory TcpServer
  imports Acceptor EventLoopThreadPool TcpConnection
begin

text \<open>
  \<open>TcpServer\<close> (TcpServer.h, TcpServer.cpp): the acceptor, the pool of loops and the map of connections,
  and what the closures and callbacks of the whole program do when a loop runs them. The world gains
  the server (there is one) and the counter of created threads.

  A connection is alive while the map or a queued closure holds a \<open>shared_ptr\<close> to it. The addresses a
  new connection and its channel get are arguments.
\<close>

section \<open>The class\<close>

datatype server_option = NoReusePort | ReusePort

record tcpserver =
  m_srvLoop :: loop_ptr
  m_ipPort :: string
  m_srvName :: string
  m_acceptor :: acceptor
  m_threadPool :: pool
  m_srvConnectionCallback :: "nat option"
  m_srvMessageCallback :: "nat option"
  m_srvWriteCompleteCallback :: "nat option"
  m_threadInitCallback :: "nat option"
  m_srvStarted :: bool
  m_nextConnId :: int32
  m_connections :: "string \<rightharpoonup> conn_ptr"

record 'k ssys = "'k csys" +
  server_of :: tcpserver
  numCreated :: int32

definition upd_server :: "(tcpserver \<Rightarrow> tcpserver) \<Rightarrow> ('k, 'z) ssys_scheme \<Rightarrow> ('k, 'z) ssys_scheme" where
  "upd_server f w = w\<lparr>server_of := f (server_of w)\<rparr>"

text \<open>The name of the two callbacks the server itself installs.\<close>

definition server_cb :: nat where "server_cb = 0"

text \<open>The constructor, with the accept channel at \<open>c\<close>; \<open>None\<close> is a null loop.\<close>

definition TcpServer_ctor ::
    "'k os \<Rightarrow> chan_ptr \<Rightarrow> loop_ptr option \<Rightarrow> inet_address \<Rightarrow> string \<Rightarrow> server_option \<Rightarrow>
       ('k, 'z) ssys_scheme \<Rightarrow> ('k, 'z) ssys_scheme result" where
  "TcpServer_ctor os c inLoop inListenAddr inName inOption w =
     (case inLoop of
        None \<Rightarrow> Inl Exit
      | Some l \<Rightarrow>
          andThen (toIpPort inListenAddr) (\<lambda>ipPort.
          andThen (Acceptor_ctor os c l inListenAddr (inOption = ReusePort) w) (\<lambda>(a, w1).
            Inr (w1\<lparr>server_of := \<lparr>m_srvLoop = l, m_ipPort = ipPort, m_srvName = inName,
                   m_acceptor = setNewConnectionCallback (Some server_cb) a,
                   m_threadPool = EventLoopThreadPool_ctor l inName,
                   m_srvConnectionCallback = None, m_srvMessageCallback = None,
                   m_srvWriteCompleteCallback = None, m_threadInitCallback = None,
                   m_srvStarted = False, m_nextConnId = 1, m_connections = Map.empty\<rparr>\<rparr>))))"

definition setThreadInitCallback :: "nat option \<Rightarrow> ('k, 'z) ssys_scheme \<Rightarrow> ('k, 'z) ssys_scheme" where
  "setThreadInitCallback inCb w = upd_server (\<lambda>s. s\<lparr>m_threadInitCallback := inCb\<rparr>) w"

definition srv_setConnectionCallback :: "nat option \<Rightarrow> ('k, 'z) ssys_scheme \<Rightarrow> ('k, 'z) ssys_scheme" where
  "srv_setConnectionCallback inCb w = upd_server (\<lambda>s. s\<lparr>m_srvConnectionCallback := inCb\<rparr>) w"

definition srv_setMessageCallback :: "nat option \<Rightarrow> ('k, 'z) ssys_scheme \<Rightarrow> ('k, 'z) ssys_scheme" where
  "srv_setMessageCallback inCb w = upd_server (\<lambda>s. s\<lparr>m_srvMessageCallback := inCb\<rparr>) w"

definition srv_setWriteCompleteCallback :: "nat option \<Rightarrow> ('k, 'z) ssys_scheme \<Rightarrow> ('k, 'z) ssys_scheme" where
  "srv_setWriteCompleteCallback inCb w = upd_server (\<lambda>s. s\<lparr>m_srvWriteCompleteCallback := inCb\<rparr>) w"

definition TcpServer_setThreadNum :: "int \<Rightarrow> ('k, 'z) ssys_scheme \<Rightarrow> ('k, 'z) ssys_scheme" where
  "TcpServer_setThreadNum inNumThreads w =
     upd_server (\<lambda>s. s\<lparr>m_threadPool := setThreadNum inNumThreads (m_threadPool s)\<rparr>) w"

text \<open>\<open>server_listen\<close> is the closure \<open>start\<close> runs in the base loop.\<close>

definition server_listen :: "'k os \<Rightarrow> ('k, 'z) ssys_scheme \<Rightarrow> ('k, 'z) ssys_scheme result" where
  "server_listen os w =
     andThen (Acceptor_listen os (m_acceptor (server_of w)) w) (\<lambda>(a, w1).
       Inr (upd_server (\<lambda>s. s\<lparr>m_acceptor := a\<rparr>) w1))"

definition TcpServer_start ::
    "'k os \<Rightarrow> (nat \<Rightarrow> loop_ptr \<Rightarrow> ('k, 'z) ssys_scheme \<Rightarrow> ('k, 'z) ssys_scheme result) \<Rightarrow>
       (nat \<Rightarrow> loop_ptr \<times> chan_ptr \<times> int) \<Rightarrow> ('k, 'z) ssys_scheme \<Rightarrow> ('k, 'z) ssys_scheme result" where
  "TcpServer_start os init place w =
     (if \<not> m_srvStarted (server_of w) then
        let w1 = upd_server (\<lambda>s. s\<lparr>m_srvStarted := True\<rparr>) w in
        andThen (EventLoopThreadPool_start os init place (m_threadInitCallback (server_of w1))
                   (m_threadPool (server_of w1)) (numCreated w1) w1) (\<lambda>(pool1, num, w2).
          let w3 = upd_server (\<lambda>s. s\<lparr>m_threadPool := pool1\<rparr>) (w2\<lparr>numCreated := num\<rparr>) in
          runInLoop os (m_srvLoop (server_of w3)) Listen_fn (server_listen os) w3)
      else Inr w)"

definition connName :: "tcpserver \<Rightarrow> int32 \<Rightarrow> string" where
  "connName s num = m_srvName s @ ''-'' @ m_ipPort s @ ''#'' @ to_string_int (sint num)"

definition TcpServer_newConnection ::
    "'k os \<Rightarrow> (('k, 'z) ssys_scheme) conn_hooks \<Rightarrow> conn_ptr \<Rightarrow> chan_ptr \<Rightarrow> int \<Rightarrow> inet_address \<Rightarrow>
       ('k, 'z) ssys_scheme \<Rightarrow> ('k, 'z) ssys_scheme result" where
  "TcpServer_newConnection os hooks p c inSockfd inPeerAddr w =
     andThen (getNextLoop (m_threadPool (server_of w))) (\<lambda>(ioLoop, pool1).
       let name = connName (server_of w) (m_nextConnId (server_of w));
           w1 = upd_server (\<lambda>s. s\<lparr>m_threadPool := pool1, m_nextConnId := m_nextConnId s + 1\<rparr>) w;
           (local, k1) = (case sys_getsockname os inSockfd (kern w1) of
               (Inr a, k') \<Rightarrow> (a, k') | (Inl e, k') \<Rightarrow> (\<lparr>sin_family = 0, sin_port = 0, sin_addr = 0\<rparr>, k'))
       in andThen (TcpConnection_ctor os p c (Some ioLoop) name inSockfd (InetAddress_of local) inPeerAddr (w1\<lparr>kern := k1\<rparr>))
            (\<lambda>w2.
              let w3 = upd_server (\<lambda>s. s\<lparr>m_connections := (m_connections s)(getName p w2 \<mapsto> p)\<rparr>) w2;
                  w4 = setConnectionCallback p (m_srvConnectionCallback (server_of w3)) w3;
                  w5 = setMessageCallback p (m_srvMessageCallback (server_of w4)) w4;
                  w6 = setWriteCompleteCallback p (m_srvWriteCompleteCallback (server_of w5)) w5;
                  w7 = conn_setCloseCallback p (Some server_cb) w6
              in runInLoop os ioLoop (ConnectEstablished_fn p) (connectEstablished os hooks p) w7))"

definition removeConnectionInLoop :: "'k os \<Rightarrow> conn_ptr \<Rightarrow> ('k, 'z) ssys_scheme \<Rightarrow> ('k, 'z) ssys_scheme" where
  "removeConnectionInLoop os p w =
     (let w1 = upd_server (\<lambda>s. s\<lparr>m_connections := (m_connections s)(getName p w := None)\<rparr>) w
      in queueInLoop os (getLoop p w1) (ConnectDestroyed_fn p) w1)"

definition removeConnection :: "'k os \<Rightarrow> conn_ptr \<Rightarrow> ('k, 'z) ssys_scheme \<Rightarrow> ('k, 'z) ssys_scheme result" where
  "removeConnection os p w =
     runInLoop os (m_srvLoop (server_of w)) (RemoveConnectionInLoop_fn p) (\<lambda>w. Inr (removeConnectionInLoop os p w)) w"

text \<open>
  The destructors of the connection and of the server are the default ones. That of a connection
  closes its socket (and destroys its channel, whose destructor is empty). That of the server destroys
  its members from the last to the first, so the map goes first, and connections nobody else holds are
  destroyed in the calling thread: \<open>drop_connections\<close>, where \<open>ps\<close> are the connections of the map in its
  order. After that the pool ends its threads (the handshake of EventLoopThread) and the acceptor is
  destroyed (\<open>Acceptor_dtor\<close>).
\<close>

definition TcpConnection_dtor :: "'k os \<Rightarrow> conn_ptr \<Rightarrow> ('k, 'z) csys_scheme \<Rightarrow> ('k, 'z) csys_scheme" where
  "TcpConnection_dtor os p w = w\<lparr>kern := Socket_dtor os (m_socket (conn_of w p)) (kern w)\<rparr>"

text \<open>Who holds a \<open>shared_ptr\<close> to a connection while a loop handles events: the map, under the
  connection's own name, or a closure queued in the base loop or in the connection's loop.\<close>

definition holds_conn :: "conn_ptr \<Rightarrow> closure \<Rightarrow> bool" where
  "holds_conn p f \<longleftrightarrow> f \<in> {WriteComplete_fn p, ConnectEstablished_fn p, ConnectDestroyed_fn p, RemoveConnectionInLoop_fn p} \<or>
     (case f of HighWaterMark_fn q n \<Rightarrow> q = p | _ \<Rightarrow> False)"

definition alive :: "conn_ptr \<Rightarrow> ('k, 'z) ssys_scheme \<Rightarrow> bool" where
  "alive p w \<longleftrightarrow> m_connections (server_of w) (m_name (conn_of w p)) = Some p \<or>
     list_ex (holds_conn p) (m_pendingFunctors (loop_of w (m_srvLoop (server_of w)))) \<or>
     list_ex (holds_conn p) (m_pendingFunctors (loop_of w (m_tcLoop (conn_of w p))))"

definition drop_connections :: "'k os \<Rightarrow> conn_ptr list \<Rightarrow> ('k, 'z) ssys_scheme \<Rightarrow> ('k, 'z) ssys_scheme" where
  "drop_connections os ps w =
     fold (\<lambda>p w. if alive p w then w else TcpConnection_dtor os p w) ps
       (upd_server (\<lambda>s. s\<lparr>m_connections := Map.empty\<rparr>) w)"

definition getIpPort :: "('k, 'z) ssys_scheme \<Rightarrow> string" where
  "getIpPort w = m_ipPort (server_of w)"

definition srv_getName :: "('k, 'z) ssys_scheme \<Rightarrow> string" where
  "srv_getName w = m_srvName (server_of w)"

definition srv_getLoop :: "('k, 'z) ssys_scheme \<Rightarrow> loop_ptr" where
  "srv_getLoop w = m_srvLoop (server_of w)"

section \<open>The program\<close>

text \<open>The hooks of the connections: the user's, and the close callback the server installs.\<close>

definition server_hooks :: "'k os \<Rightarrow> (('k, 'z) ssys_scheme) conn_hooks \<Rightarrow> (('k, 'z) ssys_scheme) conn_hooks" where
  "server_hooks os user = user\<lparr>call_close := (\<lambda>cb p. if cb = server_cb then removeConnection os p else call_close user cb p)\<rparr>"

text \<open>What a closure does when a loop runs it; \<open>user_fn\<close> runs the closures of the user.\<close>

definition run_closure ::
    "'k os \<Rightarrow> (('k, 'z) ssys_scheme) conn_hooks \<Rightarrow> (nat \<Rightarrow> ('k, 'z) ssys_scheme \<Rightarrow> ('k, 'z) ssys_scheme result) \<Rightarrow>
       closure \<Rightarrow> ('k, 'z) ssys_scheme \<Rightarrow> ('k, 'z) ssys_scheme result" where
  "run_closure os hooks user_fn f w =
     (case f of
        SendInLoop_fn p bs \<Rightarrow> sendInLoop os p bs w
      | WriteComplete_fn p \<Rightarrow> call_user (m_writeCompleteCallback (conn_of w p)) (\<lambda>cb. call_writeComplete hooks cb p) w
      | HighWaterMark_fn p n \<Rightarrow> call_user (m_highWaterMarkCallback (conn_of w p)) (\<lambda>cb. call_highWaterMark hooks cb p n) w
      | ShutdownInLoop_fn p \<Rightarrow> shutdownInLoop os p w
      | ConnectEstablished_fn p \<Rightarrow> connectEstablished os hooks p w
      | ConnectDestroyed_fn p \<Rightarrow> connectDestroyed os hooks p w
      | RemoveConnectionInLoop_fn p \<Rightarrow> Inr (removeConnectionInLoop os p w)
      | Listen_fn \<Rightarrow> server_listen os w
      | User_fn n \<Rightarrow> user_fn n w)"

text \<open>What a callback of a channel does; \<open>new w\<close> are the addresses \<open>operator new\<close> returns for a
  connection and its channel.\<close>

definition invoke_callback ::
    "'k os \<Rightarrow> (('k, 'z) ssys_scheme) conn_hooks \<Rightarrow> inet_address \<Rightarrow> (('k, 'z) ssys_scheme \<Rightarrow> conn_ptr \<times> chan_ptr) \<Rightarrow>
       callback \<Rightarrow> timestamp \<Rightarrow> ('k, 'z) ssys_scheme \<Rightarrow> ('k, 'z) ssys_scheme result" where
  "invoke_callback os hooks default_addr new cb t w =
     (case cb of
        EventLoop_handleRead_cb l \<Rightarrow> Inr (EventLoop_handleRead os l w)
      | Acceptor_handleRead_cb \<Rightarrow>
          Acceptor_handleRead os default_addr
            (\<lambda>cb sockfd peerAddr w1. let (p, c) = new w1 in TcpServer_newConnection os hooks p c sockfd peerAddr w1)
            (m_acceptor (server_of w)) w
      | TcpConnection_handleRead_cb p \<Rightarrow> TcpConnection_handleRead os hooks p t w
      | TcpConnection_handleWrite_cb p \<Rightarrow> TcpConnection_handleWrite os p w
      | TcpConnection_handleClose_cb p \<Rightarrow> TcpConnection_handleClose os hooks p w
      | TcpConnection_handleError_cb p \<Rightarrow> TcpConnection_handleError os p w)"

text \<open>A loop of the program, run by its thread.\<close>

definition program_loop ::
    "'k os \<Rightarrow> (('k, 'z) ssys_scheme) conn_hooks \<Rightarrow> (nat \<Rightarrow> ('k, 'z) ssys_scheme \<Rightarrow> ('k, 'z) ssys_scheme result) \<Rightarrow>
       inet_address \<Rightarrow> (('k, 'z) ssys_scheme \<Rightarrow> conn_ptr \<times> chan_ptr) \<Rightarrow> loop_ptr \<Rightarrow>
       ('k, 'z) ssys_scheme \<Rightarrow> ('k, 'z) ssys_scheme result option" where
  "program_loop os user user_fn default_addr new l w =
     EventLoop_loop os alive (invoke_callback os (server_hooks os user) default_addr new)
       (run_closure os (server_hooks os user) user_fn) l w"

section \<open>Frame rules\<close>

lemma upd_server_simps [simp]:
  "server_of (upd_server f w) = f (server_of w)" "chan (upd_server f w) = chan w" "kern (upd_server f w) = kern w"
  "poller_of (upd_server f w) = poller_of w" "loop_of (upd_server f w) = loop_of w"
  "cur_thread (upd_server f w) = cur_thread w" "conn_of (upd_server f w) = conn_of w"
  "t_loopInThisThread (upd_server f w) = t_loopInThisThread w" "numCreated (upd_server f w) = numCreated w"
  by (simp_all add: upd_server_def)

lemma server_frame [simp]:
  fixes w :: "('k, 'z) ssys_scheme"
  shows "server_of (queueInLoop os l f w) = server_of w" "server_of (upd_conn p g w) = server_of w"
    "server_of (upd_chan c h w) = server_of w" "server_of (setState p st w) = server_of w"
  by (simp_all add: queueInLoop_def upd_loop_def wakeup_def Let_def upd_conn_def upd_chan_def setState_def)

lemma change_mask_server:
  fixes w w' :: "('k, 'z) ssys_scheme"
  assumes "change_mask os g c w = Inr w'"
  shows "server_of w' = server_of w"
  using change_mask_touches [OF assms] by (auto simp: touches_def sys_touch_def upd_chan_def)

lemma Channel_remove_server:
  fixes w w' :: "('k, 'z) ssys_scheme"
  assumes "Channel_remove os c w = Inr w'"
  shows "server_of w' = server_of w"
proof -
  have "touches (m_chLoop (chan w c)) c w w'"
    using assms by (auto simp: Channel_remove_def EventLoop_removeChannel_def intro: removeChannel_touches)
  then show ?thesis by (auto simp: touches_def sys_touch_def)
qed

section \<open>Accepting a connection\<close>

text \<open>The objects of a connection the server has just made, before it is established.\<close>

definition new_chan :: "conn_ptr \<Rightarrow> loop_ptr \<Rightarrow> int \<Rightarrow> channel" where
  "new_chan p l fd = setErrorCallback (TcpConnection_handleError_cb p) (setCloseCallback (TcpConnection_handleClose_cb p)
     (setWriteCallback (TcpConnection_handleWrite_cb p) (setReadCallback (TcpConnection_handleRead_cb p) (Channel_ctor l fd))))"

lemma TcpConnection_ctor_world:
  fixes w :: "('k, 'z) ssys_scheme"
  shows "succeeds (\<lambda>w'. (\<forall>q. q \<noteq> p \<longrightarrow> conn_of w' q = conn_of w q) \<and> chan w' = (chan w)(c := new_chan p l fd) \<and>
     m_tcLoop (conn_of w' p) = l \<and> m_name (conn_of w' p) = name \<and> m_state (conn_of w' p) = Connecting \<and>
     m_socket (conn_of w' p) = fd \<and> m_channel (conn_of w' p) = c \<and> m_peerAddr (conn_of w' p) = peer \<and>
     buffer_ok (m_inputBuffer (conn_of w' p)) \<and> buffer_ok (m_outputBuffer (conn_of w' p)) \<and>
     contents (m_outputBuffer (conn_of w' p)) = [] \<and> kern w' = sys_setsockopt os fd SOL_SOCKET SO_KEEPALIVE 1 (kern w) \<and>
     poller_of w' = poller_of w \<and> loop_of w' = loop_of w \<and> cur_thread w' = cur_thread w \<and> server_of w' = server_of w)
   (TcpConnection_ctor os p c (Some l) name fd localAddr peer w)"
proof -
  obtain b where b: "Buffer_ctor kInitialSize = Inr b" "buffer_ok b" "contents b = []"
    using Buffer_ctor_ok [of kInitialSize] by (auto simp: succeeds_def kInitialSize_def max_vector_def)
  show ?thesis
    by (simp add: TcpConnection_ctor_def Let_def b new_chan_def)
qed

text \<open>What \<open>newConnection\<close> has done before the connection is established.\<close>

definition connection_made ::
    "'k os \<Rightarrow> conn_ptr \<Rightarrow> chan_ptr \<Rightarrow> int \<Rightarrow> inet_address \<Rightarrow> loop_ptr \<Rightarrow> pool \<Rightarrow>
       ('k, 'z) ssys_scheme \<Rightarrow> ('k, 'z) ssys_scheme \<Rightarrow> bool" where
  "connection_made os p c fd peer l pool1 w w1 \<longleftrightarrow>
     (let s = server_of w; t = conn_of w1 p; name = connName s (m_nextConnId s) in
      m_tcLoop t = l \<and> m_name t = name \<and> m_state t = Connecting \<and> m_socket t = fd \<and> m_channel t = c \<and> m_peerAddr t = peer \<and>
      buffer_ok (m_inputBuffer t) \<and> buffer_ok (m_outputBuffer t) \<and> pending_out p w1 = [] \<and>
      m_connectionCallback t = m_srvConnectionCallback s \<and> m_messageCallback t = m_srvMessageCallback s \<and>
      m_writeCompleteCallback t = m_srvWriteCompleteCallback s \<and> tcpconn.m_closeCallback t = Some server_cb \<and>
      (\<forall>q. q \<noteq> p \<longrightarrow> conn_of w1 q = conn_of w q) \<and> chan w1 = (chan w)(c := new_chan p l fd) \<and>
      server_of w1 = s\<lparr>m_threadPool := pool1, m_nextConnId := m_nextConnId s + 1,
        m_connections := (m_connections s)(name \<mapsto> p)\<rparr> \<and>
      poller_of w1 = poller_of w \<and> loop_of w1 = loop_of w \<and> cur_thread w1 = cur_thread w \<and>
      kern w1 = sys_setsockopt os fd SOL_SOCKET SO_KEEPALIVE 1 (snd (sys_getsockname os fd (kern w))))"

lemma newConnection_makes:
  fixes w :: "('k, 'z) ssys_scheme"
  assumes "getNextLoop (m_threadPool (server_of w)) = Inr (l, pool1)"
  shows "\<exists>w1 :: ('k, 'z) ssys_scheme. connection_made os p c fd peer l pool1 w w1 \<and>
     TcpServer_newConnection os hooks p c fd peer w =
       runInLoop os l (ConnectEstablished_fn p) (connectEstablished os hooks p) w1"
proof -
  define w0 where "w0 = (upd_server (\<lambda>s. s\<lparr>m_threadPool := pool1, m_nextConnId := m_nextConnId s + 1\<rparr>) w)
     \<lparr>kern := snd (sys_getsockname os fd (kern w))\<rparr>"
  obtain local where loc: "(case sys_getsockname os fd (kern w) of (Inr a, k') \<Rightarrow> (a, k')
      | (Inl e, k') \<Rightarrow> (\<lparr>sin_family = 0, sin_port = 0, sin_addr = 0\<rparr>, k')) = (local, snd (sys_getsockname os fd (kern w)))"
    by (cases "sys_getsockname os fd (kern w)"; cases "fst (sys_getsockname os fd (kern w))") auto
  let ?name = "connName (server_of w) (m_nextConnId (server_of w))"
  obtain w2 where w2: "TcpConnection_ctor os p c (Some l) ?name fd (InetAddress_of local) peer w0 = Inr w2"
    and other: "\<forall>q. q \<noteq> p \<longrightarrow> conn_of w2 q = conn_of w0 q" and P: "chan w2 = (chan w0)(c := new_chan p l fd)"
      "m_tcLoop (conn_of w2 p) = l" "m_name (conn_of w2 p) = ?name" "m_state (conn_of w2 p) = Connecting"
      "m_socket (conn_of w2 p) = fd" "m_channel (conn_of w2 p) = c" "m_peerAddr (conn_of w2 p) = peer"
      "buffer_ok (m_inputBuffer (conn_of w2 p))" "buffer_ok (m_outputBuffer (conn_of w2 p))"
      "contents (m_outputBuffer (conn_of w2 p)) = []" "kern w2 = sys_setsockopt os fd SOL_SOCKET SO_KEEPALIVE 1 (kern w0)"
      "poller_of w2 = poller_of w0" "loop_of w2 = loop_of w0" "cur_thread w2 = cur_thread w0" "server_of w2 = server_of w0"
    using TcpConnection_ctor_world [where p = p and w = w0 and c = c and l = l and fd = fd and name = ?name
      and peer = peer and os = os and localAddr = "InetAddress_of local"] by (auto simp: succeeds_def)
  define w7 where "w7 = conn_setCloseCallback p (Some server_cb)
    (setWriteCompleteCallback p (m_srvWriteCompleteCallback (server_of w))
      (setMessageCallback p (m_srvMessageCallback (server_of w))
        (setConnectionCallback p (m_srvConnectionCallback (server_of w))
          (upd_server (\<lambda>s. s\<lparr>m_connections := (m_connections s)(getName p w2 \<mapsto> p)\<rparr>) w2))))"
  have "TcpServer_newConnection os hooks p c fd peer w
      = runInLoop os l (ConnectEstablished_fn p) (connectEstablished os hooks p) w7"
    unfolding TcpServer_newConnection_def assms andThen_Inr prod.case Let_def
    using loc w2 P(15)
    by (simp add: w0_def [symmetric] w7_def setConnectionCallback_def setMessageCallback_def
        setWriteCompleteCallback_def conn_setCloseCallback_def) (simp add: w0_def)
  moreover have "connection_made os p c fd peer l pool1 w w7"
    using P other
    by (simp add: connection_made_def Let_def w7_def setConnectionCallback_def setMessageCallback_def
        setWriteCompleteCallback_def conn_setCloseCallback_def getName_def pending_out_def) (simp add: w0_def)
  ultimately show ?thesis by blast
qed

section \<open>The map of connections\<close>

lemma connName_inject: "connName s a = connName s b \<longleftrightarrow> a = b"
  by (auto simp: connName_def dest: signed_word_eqI)

text \<open>What the server's bookkeeping rests on: the server itself, and the names and loops of connections.\<close>

definition server_kept :: "('k, 'z) ssys_scheme \<Rightarrow> ('k, 'z) ssys_scheme \<Rightarrow> bool" where
  "server_kept w w' \<longleftrightarrow> server_of w' = server_of w \<and>
     (\<forall>q. m_name (conn_of w' q) = m_name (conn_of w q) \<and> m_tcLoop (conn_of w' q) = m_tcLoop (conn_of w q))"

definition hooks_respect :: "(('k, 'z) ssys_scheme) conn_hooks \<Rightarrow> bool" where
  "hooks_respect hooks \<longleftrightarrow> (\<forall>cb q w. holds (server_kept w) (call_connection hooks cb q w))"

lemma server_kept_trans: "server_kept w w1 \<Longrightarrow> server_kept w1 w2 \<Longrightarrow> server_kept w w2"
  by (simp add: server_kept_def)

lemma change_mask_kept: "change_mask os g c w = Inr w' \<Longrightarrow> server_kept w w'"
  using holdsD [OF change_mask_changed] change_mask_server by (fastforce simp: server_kept_def mask_changed_def)

lemma connectEstablished_kept:
  fixes w :: "('k, 'z) ssys_scheme"
  assumes "hooks_respect hooks"
  shows "holds (server_kept w) (connectEstablished os hooks p w)"
proof -
  define w2 where "w2 = upd_chan (m_channel (conn_of w p)) (Channel_tie p) (setState p Connected w)"
  have w2: "server_kept w w2"
    by (simp add: server_kept_def w2_def)
  have "holds (server_kept w) (call_user cb (\<lambda>cb. call_connection hooks cb p) w3)" if "server_kept w w3" for cb w3
  proof (cases cb)
    case (Some f)
    have "holds (server_kept w3) (call_connection hooks f p w3)"
      using assms by (simp add: hooks_respect_def)
    then show ?thesis
      unfolding call_user_def Some option.case by (rule holds_mono) (rule server_kept_trans [OF that])
  qed (simp add: call_user_def that)
  then have "holds (server_kept w) (andThen (enableReading os (m_channel (conn_of w p)) w2) (\<lambda>w3.
      call_user (m_connectionCallback (conn_of w3 p)) (\<lambda>cb. call_connection hooks cb p) w3))"
    by (intro holds_andThen [where P = "server_kept w"])
      (auto simp: holds_def channel_ops_change_mask intro: server_kept_trans [OF w2] change_mask_kept)
  then show ?thesis
    by (simp add: connectEstablished_def Let_def w2_def)
qed

datatype server_op = Accept conn_ptr chan_ptr int inet_address | Remove conn_ptr

fun server_run ::
    "'k os \<Rightarrow> (('k, 'z) ssys_scheme) conn_hooks \<Rightarrow> server_op list \<Rightarrow> ('k, 'z) ssys_scheme \<Rightarrow> ('k, 'z) ssys_scheme result" where
  "server_run os hooks [] w = Inr w"
| "server_run os hooks (Accept p c fd peer # ops) w =
     andThen (TcpServer_newConnection os hooks p c fd peer w) (server_run os hooks ops)"
| "server_run os hooks (Remove p # ops) w = server_run os hooks ops (removeConnectionInLoop os p w)"

text \<open>The abstract server: the connections accepted so far, in order, and the set of the live ones.\<close>

fun accepted :: "server_op list \<Rightarrow> conn_ptr list" where
  "accepted [] = []"
| "accepted (Accept p c fd peer # ops) = p # accepted ops"
| "accepted (Remove p # ops) = accepted ops"

fun live :: "server_op list \<Rightarrow> conn_ptr set \<Rightarrow> conn_ptr set" where
  "live [] L = L"
| "live (Accept p c fd peer # ops) L = live ops (insert p L)"
| "live (Remove p # ops) L = live ops (L - {p})"

text \<open>New connections get new addresses; only accepted connections are removed, perhaps repeatedly.\<close>

fun ops_ok :: "conn_ptr list \<Rightarrow> server_op list \<Rightarrow> bool" where
  "ops_ok ps [] \<longleftrightarrow> True"
| "ops_ok ps (Accept p c fd peer # ops) \<longleftrightarrow> p \<notin> set ps \<and> ops_ok (ps @ [p]) ops"
| "ops_ok ps (Remove p # ops) \<longleftrightarrow> p \<in> set ps \<and> ops_ok ps ops"

definition server_inv :: "tcpserver \<Rightarrow> conn_ptr list \<Rightarrow> conn_ptr set \<Rightarrow> ('k, 'z) ssys_scheme \<Rightarrow> bool" where
  "server_inv s0 ps L w \<longleftrightarrow>
     connName (server_of w) = connName s0 \<and> m_nextConnId (server_of w) = of_nat (Suc (length ps)) \<and>
     pool_ok (m_threadPool (server_of w)) \<and> getAllLoops (m_threadPool (server_of w)) = getAllLoops (m_threadPool s0) \<and>
     (\<forall>i<length ps. m_name (conn_of w (ps ! i)) = connName s0 (of_nat (Suc i)) \<and>
        m_tcLoop (conn_of w (ps ! i)) \<in> set (getAllLoops (m_threadPool s0))) \<and>
     L \<subseteq> set ps \<and> (\<forall>n q. m_connections (server_of w) n = Some q \<longleftrightarrow> q \<in> L \<and> m_name (conn_of w q) = n)"

lemma server_inv_kept: "server_inv s0 ps L w \<Longrightarrow> server_kept w w' \<Longrightarrow> server_inv s0 ps L w'"
  by (simp add: server_inv_def server_kept_def)

lemma connection_id_inject:
  "i \<le> n \<Longrightarrow> j \<le> n \<Longrightarrow> n < 2 ^ 32 \<Longrightarrow> (of_nat i :: int32) = of_nat j \<longleftrightarrow> i = j"
  by (auto simp: word_unat_eq_iff unat_of_nat take_bit_nat_eq_self)

lemma server_inv_made:
  assumes inv: "server_inv s0 ps L w" and new: "p \<notin> set ps" and len: "Suc (length ps) < 2 ^ 32"
    and next1: "getNextLoop (m_threadPool (server_of w)) = Inr (l, pool1)"
    and made: "connection_made os p c fd peer l pool1 w w1"
  shows "server_inv s0 (ps @ [p]) (insert p L) w1"
proof -
  let ?s = "server_of w" and ?n = "connName s0 (of_nat (Suc (length ps)))"
  have pool: "l \<in> set (getAllLoops (m_threadPool s0))" "pool_ok pool1" "getAllLoops pool1 = getAllLoops (m_threadPool s0)"
    using getNextLoop_member [of "m_threadPool ?s"] inv next1 by (simp_all add: server_inv_def)
  have M: "m_name (conn_of w1 p) = ?n" "m_tcLoop (conn_of w1 p) = l" "\<forall>q. q \<noteq> p \<longrightarrow> conn_of w1 q = conn_of w q"
      "server_of w1 = ?s\<lparr>m_threadPool := pool1, m_nextConnId := m_nextConnId ?s + 1, m_connections := (m_connections ?s)(?n \<mapsto> p)\<rparr>"
    using made inv by (simp_all add: connection_made_def Let_def server_inv_def)
  have names: "m_name (conn_of w q) \<noteq> ?n" if "q \<in> set ps" for q
  proof -
    obtain i where "i < length ps" "q = ps ! i" using \<open>q \<in> set ps\<close> by (auto simp: in_set_conv_nth)
    then show ?thesis
      using inv connection_id_inject [of "Suc i" "Suc (length ps)" "Suc (length ps)"] len
      by (auto simp: server_inv_def connName_inject)
  qed
  have other: "q \<noteq> p" if "q \<in> set ps" for q using that new by blast
  have L: "L \<subseteq> set ps" "\<And>n q. m_connections ?s n = Some q \<longleftrightarrow> q \<in> L \<and> m_name (conn_of w q) = n"
    using inv by (simp_all add: server_inv_def)
  have "m_connections (server_of w1) n = Some q \<longleftrightarrow> q \<in> insert p L \<and> m_name (conn_of w1 q) = n" for n q
  proof (cases "q = p")
    case True
    then show ?thesis using L new M(1,4) by auto
  next
    case False
    then show ?thesis using L M(3,4) names by auto
  qed
  moreover have "connName (server_of w1) = connName s0"
    using inv M(4) by (simp add: server_inv_def connName_def fun_eq_iff)
  moreover have "\<forall>i<length (ps @ [p]). m_name (conn_of w1 ((ps @ [p]) ! i)) = connName s0 (of_nat (Suc i)) \<and>
        m_tcLoop (conn_of w1 ((ps @ [p]) ! i)) \<in> set (getAllLoops (m_threadPool s0))"
    using inv M(1-3) pool(1) other by (auto simp: server_inv_def nth_append less_Suc_eq)
  ultimately show ?thesis
    using inv pool M(4) L(1) by (auto simp: server_inv_def)
qed

lemma server_inv_accept:
  assumes inv: "server_inv s0 ps L w" and new: "p \<notin> set ps" and len: "Suc (length ps) < 2 ^ 32" and hooks: "hooks_respect hooks"
  shows "holds (server_inv s0 (ps @ [p]) (insert p L)) (TcpServer_newConnection os hooks p c fd peer w)"
proof -
  obtain l pool1 where l: "getNextLoop (m_threadPool (server_of w)) = Inr (l, pool1)"
    using getNextLoop_member [of "m_threadPool (server_of w)"] inv by (auto simp: succeeds_def server_inv_def)
  obtain w1 where w1: "connection_made os p c fd peer l pool1 w w1"
      "TcpServer_newConnection os hooks p c fd peer w = runInLoop os l (ConnectEstablished_fn p) (connectEstablished os hooks p) w1"
    using newConnection_makes [OF l] by blast
  have inv1: "server_inv s0 (ps @ [p]) (insert p L) w1"
    by (rule server_inv_made [OF inv new len l w1(1)])
  have "holds (server_inv s0 (ps @ [p]) (insert p L)) (connectEstablished os hooks p w1)"
    by (rule holds_mono [OF connectEstablished_kept [OF hooks]]) (rule server_inv_kept [OF inv1])
  moreover have "server_kept w1 (queueInLoop os l (ConnectEstablished_fn p) w1)"
    by (simp add: server_kept_def)
  ultimately show ?thesis
    using server_inv_kept [OF inv1] by (simp add: w1(2) runInLoop_def)
qed

lemma server_inv_remove:
  assumes inv: "server_inv s0 ps L w" and old: "p \<in> set ps" and len: "length ps < 2 ^ 32"
  shows "server_inv s0 ps (L - {p}) (removeConnectionInLoop os p w)"
proof -
  let ?w = "removeConnectionInLoop os p w"
  have names: "m_name (conn_of w q) \<noteq> m_name (conn_of w p)" if q: "q \<in> set ps" "q \<noteq> p" for q
  proof -
    obtain i j where "i < length ps" "q = ps ! i" "j < length ps" "p = ps ! j" "i \<noteq> j"
      using q old by (metis in_set_conv_nth)
    then show ?thesis
      using inv connection_id_inject [of "Suc i" "length ps" "Suc j"] len
      by (simp add: server_inv_def connName_inject)
  qed
  have s: "server_of ?w = (server_of w)\<lparr>m_connections := (m_connections (server_of w))(m_name (conn_of w p) := None)\<rparr>"
      "conn_of ?w = conn_of w"
    by (simp_all add: removeConnectionInLoop_def Let_def getName_def)
  have "m_connections (server_of ?w) n = Some q \<longleftrightarrow> q \<in> L - {p} \<and> m_name (conn_of ?w q) = n" for n q
    using inv names [of q] by (auto simp: s server_inv_def)
  then show ?thesis
    using inv by (auto simp: server_inv_def s connName_def fun_eq_iff)
qed

lemma server_run_inv:
  assumes "hooks_respect hooks"
  shows "server_inv s0 ps L w \<Longrightarrow> ops_ok ps ops \<Longrightarrow> length ps + length (accepted ops) < 2 ^ 32 \<Longrightarrow>
     holds (server_inv s0 (ps @ accepted ops) (live ops L)) (server_run os hooks ops w)"
proof (induction ops arbitrary: ps L w)
  case (Cons op ops)
  show ?case
  proof (cases op)
    case (Accept p c fd peer)
    have "holds (server_inv s0 (ps @ [p]) (insert p L)) (TcpServer_newConnection os hooks p c fd peer w)"
      using Cons.prems Accept by (intro server_inv_accept assms) auto
    then have "holds (server_inv s0 ((ps @ [p]) @ accepted ops) (live ops (insert p L)))
        (andThen (TcpServer_newConnection os hooks p c fd peer w) (server_run os hooks ops))"
      by (rule holds_andThen) (rule Cons.IH, use Cons.prems Accept in auto)
    then show ?thesis by (simp add: Accept)
  next
    case (Remove p)
    have "server_inv s0 ps (L - {p}) (removeConnectionInLoop os p w)"
      using Cons.prems Remove by (intro server_inv_remove) auto
    then show ?thesis
      using Cons.IH Cons.prems Remove by auto
  qed
qed simp

text \<open>With the io loops in other threads the run returns.\<close>

definition remote_loops :: "('k, 'z) ssys_scheme \<Rightarrow> bool" where
  "remote_loops w \<longleftrightarrow> pool_ok (m_threadPool (server_of w)) \<and>
     (\<forall>l \<in> set (getAllLoops (m_threadPool (server_of w))). \<not> isInLoopThread l w)"

lemma newConnection_remote:
  assumes "remote_loops w"
  shows "succeeds remote_loops (TcpServer_newConnection os hooks p c fd peer w)"
proof -
  obtain l pool1 where l: "getNextLoop (m_threadPool (server_of w)) = Inr (l, pool1)" "pool_ok pool1"
      "l \<in> set (getAllLoops (m_threadPool (server_of w)))" "getAllLoops pool1 = getAllLoops (m_threadPool (server_of w))"
    using getNextLoop_member [of "m_threadPool (server_of w)"] assms by (auto simp: succeeds_def remote_loops_def)
  obtain w1 where w1: "connection_made os p c fd peer l pool1 w w1"
      "TcpServer_newConnection os hooks p c fd peer w = runInLoop os l (ConnectEstablished_fn p) (connectEstablished os hooks p) w1"
    using newConnection_makes [OF l(1)] by blast
  have "m_threadPool (server_of w1) = pool1" "loop_of w1 = loop_of w" "cur_thread w1 = cur_thread w"
    using w1(1) by (simp_all add: connection_made_def Let_def)
  then show ?thesis
    using assms l(2-4) w1(2) by (auto simp: remote_loops_def runInLoop_def isInLoopThread_def)
qed

lemma server_run_remote: "remote_loops w \<Longrightarrow> succeeds remote_loops (server_run os hooks ops w)"
proof (induction ops arbitrary: w)
  case (Cons op ops)
  have "remote_loops (removeConnectionInLoop os p w)" for p
    using Cons.prems by (simp add: remote_loops_def removeConnectionInLoop_def Let_def isInLoopThread_def)
  then show ?case
    using Cons by (cases op) (auto intro: succeeds_andThen [OF newConnection_remote])
qed simp

section \<open>Establishing and tearing down\<close>

lemma connectEstablished_watches:
  fixes w :: "('k, 'z) ssys_scheme"
  assumes ok: "registry_ok os interest (m_channel (conn_of w p)) w" and fresh: "m_events (conn_chan p w) = 0"
  shows "\<exists>w2 :: ('k, 'z) ssys_scheme. m_state (conn_of w2 p) = Connected \<and>
     channel_watched interest (m_channel (conn_of w p)) w2 = Some kReadEvent \<and>
     m_tied (conn_chan p w2) \<and> m_tie (conn_chan p w2) = Some p \<and> server_kept w w2 \<and>
     registry_ok os interest (m_channel (conn_of w p)) w2 \<and> conn_of w2 = (conn_of w)(p := (conn_of w p)\<lparr>m_state := Connected\<rparr>) \<and>
     loop_of w2 = loop_of w \<and> cur_thread w2 = cur_thread w \<and>
     connectEstablished os hooks p w = call_user (m_connectionCallback (conn_of w p)) (\<lambda>cb. call_connection hooks cb p) w2"
proof -
  let ?c = "m_channel (conn_of w p)"
  define w1 where "w1 = upd_chan ?c (Channel_tie p) (setState p Connected w)"
  have ok1: "registry_ok os interest ?c w1"
    by (rule registry_ok_fields [OF ok]) (simp_all add: w1_def Channel_tie_def)
  obtain w2 where w2: "change_mask os (\<lambda>m. m OR kReadEvent) ?c w1 = Inr w2" "channel_watched interest ?c w2 = Some kReadEvent"
      "registry_ok os interest ?c w2"
    using change_mask_registers [OF ok1, of "\<lambda>m. m OR kReadEvent"] fresh read_mask_nonzero [of 0]
    by (auto simp: succeeds_def w1_def conn_chan_def Channel_tie_def)
  have m: "mask_changed (\<lambda>m. m OR kReadEvent) ?c w1 w2"
    using holdsD [OF change_mask_changed w2(1)] .
  then have "conn_of w2 = conn_of w1" "loop_of w2 = loop_of w1" "cur_thread w2 = cur_thread w1" "m_tied (chan w2 ?c)" "m_tie (chan w2 ?c) = Some p"
    by (auto simp: mask_changed_def setChannelStatus_def w1_def Channel_tie_def)
  moreover have "server_kept w w2"
    using server_kept_trans [of w w1 w2] change_mask_kept [OF w2(1)] by (simp add: server_kept_def w1_def)
  ultimately show ?thesis
    using w2 by (intro exI [of _ w2])
      (simp add: connectEstablished_def Let_def channel_ops_change_mask conn_chan_def flip: w1_def, simp add: w1_def)
qed

lemma made_channel_ready:
  fixes w w1 w' :: "('k, 'z) ssys_scheme"
  assumes ct: "epoll_contract os interest" and nt: "listen_calls_neutral os interest" and new: "new_place interest l c fd w"
    and made: "connection_made os p c fd peer l pool1 w w1"
    and same: "chan w' = chan w1" "poller_of w' = poller_of w1" "interest (kern w') = interest (kern w1)" "conn_of w' = conn_of w1"
  shows "registry_ok os interest (m_channel (conn_of w' p)) w'" "m_events (conn_chan p w') = 0"
proof -
  have M: "m_channel (conn_of w1 p) = c" "chan w1 = (chan w)(c := new_chan p l fd)" "poller_of w1 = poller_of w"
      "kern w1 = sys_setsockopt os fd SOL_SOCKET SO_KEEPALIVE 1 (snd (sys_getsockname os fd (kern w)))"
    using made by (simp_all add: connection_made_def Let_def)
  have "interest (kern w1) = interest (kern w)"
    using nt by (simp add: M(4) listen_calls_neutral_def)
  then show "registry_ok os interest (m_channel (conn_of w' p)) w'"
    using new_channel_registry [OF ct new, of w' "new_chan p l fd"] same M
    by (simp add: new_chan_def setReadCallback_def setWriteCallback_def setCloseCallback_def setErrorCallback_def
        Channel_ctor_def status_values)
  show "m_events (conn_chan p w') = 0"
    using same M by (simp add: conn_chan_def new_chan_def setReadCallback_def setWriteCallback_def setCloseCallback_def
        setErrorCallback_def Channel_ctor_def)
qed

text \<open>A connection callback of the user that looks on, queues closures and returns.\<close>

definition onlooker :: "('k \<Rightarrow> int \<Rightarrow> int \<Rightarrow> epoll_event option) \<Rightarrow> (('k, 'z) ssys_scheme) conn_hooks \<Rightarrow> bool" where
  "onlooker interest hooks \<longleftrightarrow> (\<forall>cb q w. succeeds (\<lambda>w'. chan w' = chan w \<and> poller_of w' = poller_of w \<and>
     interest (kern w') = interest (kern w) \<and> conn_of w' = conn_of w \<and> server_of w' = server_of w \<and>
     cur_thread w' = cur_thread w \<and> (\<forall>l. m_threadId (loop_of w' l) = m_threadId (loop_of w l) \<and>
       (\<exists>fs. m_pendingFunctors (loop_of w' l) = m_pendingFunctors (loop_of w l) @ fs)))
     (call_connection hooks cb q w))"

lemma onlooker_call:
  assumes "onlooker interest hooks"
  shows "succeeds (\<lambda>w'. chan w' = chan w \<and> poller_of w' = poller_of w \<and>
     interest (kern w') = interest (kern w) \<and> conn_of w' = conn_of w \<and> server_of w' = server_of w \<and>
     cur_thread w' = cur_thread w \<and> (\<forall>l. m_threadId (loop_of w' l) = m_threadId (loop_of w l) \<and>
       (\<exists>fs. m_pendingFunctors (loop_of w' l) = m_pendingFunctors (loop_of w l) @ fs)))
     (call_user cb (\<lambda>cb. call_connection hooks cb q) w)"
  using assms by (cases cb) (simp_all add: call_user_def onlooker_def)

text \<open>\<open>handleClose\<close> in the thread of an io loop that is not the base loop.\<close>

definition closed_remotely ::
    "('k \<Rightarrow> int \<Rightarrow> int \<Rightarrow> epoll_event option) \<Rightarrow> 'k os \<Rightarrow> conn_ptr \<Rightarrow> ('k, 'z) ssys_scheme \<Rightarrow> ('k, 'z) ssys_scheme \<Rightarrow> bool" where
  "closed_remotely interest os p w w1 \<longleftrightarrow>
     registry_ok os interest (m_channel (conn_of w p)) w1 \<and>
     channel_watched interest (m_channel (conn_of w p)) w1 =
       (if channel_watched interest (m_channel (conn_of w p)) w = None then Some 0 else None) \<and>
     conn_of w1 = (conn_of w)(p := (conn_of w p)\<lparr>m_state := Disconnected\<rparr>) \<and>
     (\<forall>x. x \<noteq> m_channel (conn_of w p) \<longrightarrow> chan w1 x = chan w x) \<and> server_of w1 = server_of w \<and>
     m_chLoop (conn_chan p w1) = m_chLoop (conn_chan p w) \<and> m_fd (conn_chan p w1) = m_fd (conn_chan p w) \<and> dispatch_fields (conn_chan p w1) = dispatch_fields (conn_chan p w) \<and>
     cur_thread w1 = cur_thread w \<and> (\<forall>l. m_threadId (loop_of w1 l) = m_threadId (loop_of w l)) \<and>
     (\<exists>fs. m_pendingFunctors (loop_of w1 (m_srvLoop (server_of w))) =
        m_pendingFunctors (loop_of w (m_srvLoop (server_of w))) @ fs @ [RemoveConnectionInLoop_fn p])"

lemma handleClose_remote:
  fixes w :: "('k, 'z) ssys_scheme"
  assumes ok: "registry_ok os interest (m_channel (conn_of w p)) w"
    and nt: "socket_calls_neutral os interest" and look: "onlooker interest user"
    and cb: "tcpconn.m_closeCallback (conn_of w p) = Some server_cb" and remote: "\<not> isInLoopThread (m_srvLoop (server_of w)) w"
  shows "succeeds (closed_remotely interest os p w) (TcpConnection_handleClose os (server_hooks os user) p w)"
proof -
  let ?c = "m_channel (conn_of w p)" and ?w0 = "setState p Disconnected w" and ?b = "m_srvLoop (server_of w)"
  obtain wA where wA: "change_mask os (\<lambda>_. 0) ?c ?w0 = Inr wA" "registry_ok os interest ?c wA"
      "channel_watched interest ?c wA = (if channel_watched interest ?c w = None then Some 0 else None)"
    and m: "mask_changed (\<lambda>_. 0) ?c ?w0 wA"
    and close: "TcpConnection_handleClose os (server_hooks os user) p w =
       andThen (call_user (m_connectionCallback (conn_of w p)) (\<lambda>cb. call_connection (server_hooks os user) cb p) wA)
         (\<lambda>w3. call_user (tcpconn.m_closeCallback (conn_of w3 p)) (\<lambda>cb. call_close (server_hooks os user) cb p) w3)"
    by (rule handleClose_switches_off [OF ok])
  obtain wB where wB: "call_user (m_connectionCallback (conn_of w p)) (\<lambda>cb. call_connection user cb p) wA = Inr wB"
      "chan wB = chan wA" "poller_of wB = poller_of wA" "interest (kern wB) = interest (kern wA)" "conn_of wB = conn_of wA"
      "server_of wB = server_of wA" "cur_thread wB = cur_thread wA" "\<And>l. m_threadId (loop_of wB l) = m_threadId (loop_of wA l)"
      "\<And>l. \<exists>fs. m_pendingFunctors (loop_of wB l) = m_pendingFunctors (loop_of wA l) @ fs"
    using onlooker_call [OF look, of wA "m_connectionCallback (conn_of w p)" p] by (auto simp: succeeds_def)
  let ?w1 = "queueInLoop os ?b (RemoveConnectionInLoop_fn p) wB"
  have A: "conn_of wA = conn_of ?w0" "loop_of wA = loop_of w" "cur_thread wA = cur_thread w" "server_of wA = server_of w"
      "\<And>x. x \<noteq> ?c \<Longrightarrow> chan wA x = chan w x" "m_chLoop (chan wA ?c) = m_chLoop (chan w ?c)"
      "m_fd (chan wA ?c) = m_fd (chan w ?c)" "dispatch_fields (chan wA ?c) = dispatch_fields (chan w ?c)"
    using m change_mask_server [OF wA(1)] by (auto simp: mask_changed_def setChannelStatus_def dispatch_fields_def)
  have "call_connection (server_hooks os user) = call_connection user"
    by (simp add: server_hooks_def)
  moreover have "removeConnection os p wB = Inr ?w1"
    using remote wB(6,7,8) A by (simp add: removeConnection_def runInLoop_def isInLoopThread_def)
  ultimately have "TcpConnection_handleClose os (server_hooks os user) p w = Inr ?w1"
    using close wB(1,5) A(1) cb by (simp add: call_user_def server_hooks_def)
  moreover have "registry_ok os interest ?c ?w1"
    by (rule registry_ok_same [OF wA(2)]) (simp_all add: wB(2-4) queueInLoop_interest [OF nt])
  moreover have "channel_watched interest ?c ?w1 = channel_watched interest ?c wA"
    by (simp add: channel_watched_def watched_def wB(2-4) queueInLoop_interest [OF nt])
  moreover have "\<exists>fs. m_pendingFunctors (loop_of ?w1 ?b) = m_pendingFunctors (loop_of w ?b) @ fs @ [RemoveConnectionInLoop_fn p]"
    using wB(9) [of ?b] A(2) by auto
  ultimately show ?thesis
    using A wA(3) wB by (simp add: closed_remotely_def conn_chan_def)
qed

text \<open>With a connection callback that does nothing, the world after it is known exactly.\<close>

lemma handleClose_quiet:
  fixes w :: "('k, 'z) ssys_scheme"
  assumes ok: "registry_ok os interest (m_channel (conn_of w p)) w" and quiet: "\<And>cb v. call_connection user cb p v = Inr v"
    and cb: "tcpconn.m_closeCallback (conn_of w p) = Some server_cb" and remote: "\<not> isInLoopThread (m_srvLoop (server_of w)) w"
  obtains w1 where "change_mask os (\<lambda>_. 0) (m_channel (conn_of w p)) (setState p Disconnected w) = Inr w1"
    "registry_ok os interest (m_channel (conn_of w p)) w1"
    "channel_watched interest (m_channel (conn_of w p)) w1 =
       (if channel_watched interest (m_channel (conn_of w p)) w = None then Some 0 else None)"
    "mask_changed (\<lambda>_. 0) (m_channel (conn_of w p)) (setState p Disconnected w) w1" "server_of w1 = server_of w"
    "TcpConnection_handleClose os (server_hooks os user) p w =
       Inr (queueInLoop os (m_srvLoop (server_of w)) (RemoveConnectionInLoop_fn p) w1)"
proof -
  let ?hooks = "server_hooks os user"
  obtain w1 where w1: "change_mask os (\<lambda>_. 0) (m_channel (conn_of w p)) (setState p Disconnected w) = Inr w1"
      "registry_ok os interest (m_channel (conn_of w p)) w1"
      "channel_watched interest (m_channel (conn_of w p)) w1 =
         (if channel_watched interest (m_channel (conn_of w p)) w = None then Some 0 else None)"
    and m: "mask_changed (\<lambda>_. 0) (m_channel (conn_of w p)) (setState p Disconnected w) w1"
    and close: "TcpConnection_handleClose os ?hooks p w =
       andThen (call_user (m_connectionCallback (conn_of w p)) (\<lambda>cb. call_connection ?hooks cb p) w1)
         (\<lambda>w3. call_user (tcpconn.m_closeCallback (conn_of w3 p)) (\<lambda>cb. call_close ?hooks cb p) w3)"
    by (rule handleClose_switches_off [OF ok])
  have srv: "server_of w1 = server_of w"
    using change_mask_server [OF w1(1)] by simp
  have "conn_of w1 = conn_of (setState p Disconnected w)" "loop_of w1 = loop_of w" "cur_thread w1 = cur_thread w"
    using m by (simp_all add: mask_changed_def)
  then have "TcpConnection_handleClose os ?hooks p w =
      Inr (queueInLoop os (m_srvLoop (server_of w)) (RemoveConnectionInLoop_fn p) w1)"
    unfolding close using srv cb remote quiet
    by (simp add: call_user_def server_hooks_def removeConnection_def runInLoop_def isInLoopThread_def split: option.split)
  then show ?thesis
    by (rule that [OF w1 m srv])
qed

lemma remove_runs:
  "run_closure os hooks ufn (RemoveConnectionInLoop_fn p) w = Inr (removeConnectionInLoop os p w)"
  by (simp add: run_closure_def)

lemma removed_facts:
  fixes w w' :: "('k, 'z) ssys_scheme"
  assumes w': "w' = removeConnectionInLoop os p w" and nt: "socket_calls_neutral os interest"
  shows "server_of w' = (server_of w)\<lparr>m_connections := (m_connections (server_of w))(m_name (conn_of w p) := None)\<rparr>"
    "conn_of w' = conn_of w" "chan w' = chan w" "poller_of w' = poller_of w" "interest (kern w') = interest (kern w)"
    "last (m_pendingFunctors (loop_of w' (m_tcLoop (conn_of w p)))) = ConnectDestroyed_fn p"
  by (simp_all add: w' removeConnectionInLoop_def Let_def getName_def getLoop_def queueInLoop_interest [OF nt])

lemma destroyed_runs:
  fixes w :: "('k, 'z) ssys_scheme"
  assumes ok: "registry_ok os interest (m_channel (conn_of w p)) w" and st: "m_state (conn_of w p) = Disconnected"
  shows "succeeds (\<lambda>w'. channel_watched interest (m_channel (conn_of w p)) w' = None \<and>
       \<not> hasChannel (m_chLoop (conn_chan p w)) (m_channel (conn_of w p)) w' \<and> server_of w' = server_of w \<and>
       conn_of w' = conn_of w \<and> loop_of w' = loop_of w \<and> (\<forall>x. x \<noteq> m_channel (conn_of w p) \<longrightarrow> chan w' x = chan w x))
     (run_closure os hooks ufn (ConnectDestroyed_fn p) w)"
proof -
  let ?c = "m_channel (conn_of w p)"
  have eq: "run_closure os hooks ufn (ConnectDestroyed_fn p) w = Channel_remove os ?c w"
    by (simp add: run_closure_def connectDestroyed_def st)
  from succeeds_with [OF succeeds_and_holds [OF Channel_remove_unregisters [OF ok] Channel_remove_changed]]
  show ?thesis
    unfolding eq by (rule succeeds_mono) (auto simp: mask_changed_def conn_chan_def dest: Channel_remove_server)
qed

section \<open>A concrete server\<close>

text \<open>The server on base loop 0 (thread 7), with io loops 10 and 11 (threads 20 and 21); no connection yet.\<close>

definition server_world :: "simk ssys" where
  "server_world = \<lparr>kern = boot, chan = (\<lambda>_. Channel_ctor 9 0),
     poller_of = (\<lambda>l. \<lparr>m_channels = (\<lambda>_. None), m_epollfd = 30 + int l, m_eventList = []\<rparr>),
     loop_of = (\<lambda>l. \<lparr>m_looping = True, m_quit = False, m_threadId = (if l = 0 then 7 else 10 + int l), m_pollReturnTime = 0,
       m_wakeupFd = 5, m_wakeupChannel = 2, m_activeChannels = [], m_callingPendingFunctors = False,
       m_pendingFunctors = []\<rparr>),
     cur_thread = 7, t_loopInThisThread = (\<lambda>_. None), conn_of = conn_of calm,
     server_of = \<lparr>m_srvLoop = 0, m_ipPort = ''1.2.3.4:80'', m_srvName = ''s'',
       m_acceptor = \<lparr>m_acLoop = 0, m_acceptSocket = 9, m_acceptChannel = 3, m_newConnectionCallback = Some server_cb,
         m_listenning = True\<rparr>,
       m_threadPool = (EventLoopThreadPool_ctor 0 ''s'')\<lparr>m_loops := [10, 11]\<rparr>, m_srvConnectionCallback = Some 1,
       m_srvMessageCallback = Some 1, m_srvWriteCompleteCallback = None, m_threadInitCallback = None,
       m_srvStarted = True, m_nextConnId = 1, m_connections = Map.empty\<rparr>, numCreated = 2\<rparr>"

lemma server_world_simps [simp]:
  "kern server_world = boot" "chan server_world = (\<lambda>_. Channel_ctor 9 0)" "cur_thread server_world = 7"
  "m_threadId (loop_of server_world l) = (if l = 0 then 7 else 10 + int l)"
  "m_connections (server_of server_world) = Map.empty" "m_nextConnId (server_of server_world) = 1"
  "m_threadPool (server_of server_world) = (EventLoopThreadPool_ctor 0 ''s'')\<lparr>m_loops := [10, 11]\<rparr>"
  "m_srvConnectionCallback (server_of server_world) = Some 1" "m_srvLoop (server_of server_world) = 0"
  "m_channels (poller_of server_world l) = (\<lambda>_. None)" "m_epollfd (poller_of server_world l) = 30 + int l"
  by (simp_all add: server_world_def)

lemma server_world_pool:
  "pool_ok (m_threadPool (server_of server_world))"
  "getAllLoops (m_threadPool (server_of server_world)) = [10, 11]"
  "getNextLoop (m_threadPool (server_of server_world)) = Inr (10, (EventLoopThreadPool_ctor 0 ''s'')\<lparr>m_loops := [10, 11], m_next := 1\<rparr>)"
  by (simp_all add: pool_ok_def getAllLoops_def getNextLoop_def EventLoopThreadPool_ctor_def word_le_nat_alt)

lemma server_world_place: "new_place k_interest l c fd server_world"
  by (simp add: new_place_def poller_inv_def Channel_ctor_def status_values boot_def)

section \<open>Properties\<close>

text \<open>
  C12: The map of connections is the set of the live ones: after any sequence of accepted connections
  and removals (a connection may even be removed twice), starting from an empty server, the map holds
  exactly the connections accepted and not removed since, each under its own name; no two connections
  ever get the same name, and every one sits on a loop of the pool. When the io loops run in other
  threads the run returns. (The bound is the 32-bit counter of names.)
\<close>

theorem connections_match_live:
  assumes "hooks_respect hooks" and "m_connections (server_of w) = Map.empty" and "m_nextConnId (server_of w) = 1"
    and "pool_ok (m_threadPool (server_of w))" and "ops_ok [] ops" and "length (accepted ops) < 2 ^ 32"
  shows "holds (\<lambda>w'. (\<forall>n q. m_connections (server_of w') n = Some q \<longleftrightarrow> q \<in> live ops {} \<and> getName q w' = n) \<and>
       inj_on (\<lambda>i. getName (accepted ops ! i) w') {..<length (accepted ops)} \<and>
       (\<forall>q \<in> set (accepted ops). getLoop q w' \<in> set (getAllLoops (m_threadPool (server_of w)))))
     (server_run os hooks ops w) \<and>
   (remote_loops w \<longrightarrow> succeeds (\<lambda>_. True) (server_run os hooks ops w))"
proof (intro conjI impI)
  show "succeeds (\<lambda>_. True) (server_run os hooks ops w)" if "remote_loops w"
    by (rule succeeds_mono [OF server_run_remote [OF that]]) simp
  have "server_inv (server_of w) [] {} w"
    using assms(2-4) by (simp add: server_inv_def)
  from server_run_inv [OF assms(1) this assms(5)]
  have "holds (server_inv (server_of w) (accepted ops) (live ops {})) (server_run os hooks ops w)"
    using assms(6) by simp
  then show "holds (\<lambda>w'. (\<forall>n q. m_connections (server_of w') n = Some q \<longleftrightarrow> q \<in> live ops {} \<and> getName q w' = n) \<and>
       inj_on (\<lambda>i. getName (accepted ops ! i) w') {..<length (accepted ops)} \<and>
       (\<forall>q \<in> set (accepted ops). getLoop q w' \<in> set (getAllLoops (m_threadPool (server_of w)))))
     (server_run os hooks ops w)"
  proof (rule holds_mono)
    fix w' assume inv: "server_inv (server_of w) (accepted ops) (live ops {}) w'"
    have "inj_on (\<lambda>i. getName (accepted ops ! i) w') {..<length (accepted ops)}"
      using inv connection_id_inject [of _ "length (accepted ops)"] assms(6)
      by (auto simp: inj_on_def server_inv_def getName_def connName_inject)
    then show "(\<forall>n q. m_connections (server_of w') n = Some q \<longleftrightarrow> q \<in> live ops {} \<and> getName q w' = n) \<and>
       inj_on (\<lambda>i. getName (accepted ops ! i) w') {..<length (accepted ops)} \<and>
       (\<forall>q \<in> set (accepted ops). getLoop q w' \<in> set (getAllLoops (m_threadPool (server_of w))))"
      using inv by (auto simp: server_inv_def getName_def getLoop_def in_set_conv_nth)
  qed
qed

lemma silent_respect: "hooks_respect silent_hooks"
  by (simp add: hooks_respect_def silent_hooks_def server_kept_def)

theorem connections_match_live_witness:
  "succeeds (\<lambda>w'. \<forall>n q. m_connections (server_of w') n = Some q \<longleftrightarrow> q = 6 \<and> getName q w' = n)
     (server_run sim_os silent_hooks [Accept 5 15 40 (InetAddress_of \<lparr>sin_family = 2, sin_port = 0, sin_addr = 0\<rparr>),
        Accept 6 16 41 (InetAddress_of \<lparr>sin_family = 2, sin_port = 0, sin_addr = 0\<rparr>), Remove 5, Remove 5] server_world)"
    (is "succeeds ?P (server_run _ _ ?ops _)")
proof -
  have "remote_loops server_world"
    using server_world_pool by (simp add: remote_loops_def isInLoopThread_def)
  then have "holds (\<lambda>w'. \<forall>n q. m_connections (server_of w') n = Some q \<longleftrightarrow> q \<in> live ?ops {} \<and> getName q w' = n)
      (server_run sim_os silent_hooks ?ops server_world)"
    and "succeeds (\<lambda>_. True) (server_run sim_os silent_hooks ?ops server_world)"
    using connections_match_live [OF silent_respect, of server_world ?ops sim_os] server_world_pool
    by (auto elim: holds_mono)
  then show ?thesis
    by (auto simp: succeeds_def holds_def)
qed

text \<open>
  From accept to established: \<open>newConnection\<close> takes the next loop in turn, enters the connection in
  the map under a new name and hands \<open>connectEstablished\<close> to that loop: run at once when the loop is
  the caller's, and queued last otherwise, to be run by the loop's thread. When the connection callback
  of the user is called the connection is Connected, the kernel watches its socket for input, the
  channel is tied to it, and its callbacks are those of the server.
\<close>

theorem accepted_connection_established:
  fixes w :: "('k, 'z) ssys_scheme"
  assumes "epoll_contract os interest" and "listen_calls_neutral os interest" and "socket_calls_neutral os interest"
    and "getNextLoop (m_threadPool (server_of w)) = Inr (l, pool1)" and "new_place interest l c fd w"
  shows "\<exists>w1 w2 :: ('k, 'z) ssys_scheme. connection_made os p c fd peer l pool1 w w1 \<and>
     m_state (conn_of w2 p) = Connected \<and> channel_watched interest c w2 = Some kReadEvent \<and>
     m_tie (conn_chan p w2) = Some p \<and> server_of w2 = server_of w1 \<and>
     (if isInLoopThread l w
      then TcpServer_newConnection os hooks p c fd peer w =
        call_user (m_srvConnectionCallback (server_of w)) (\<lambda>cb. call_connection hooks cb p) w2
      else succeeds (\<lambda>w'. m_pendingFunctors (loop_of w' l) = m_pendingFunctors (loop_of w l) @ [ConnectEstablished_fn p] \<and>
          run_closure os hooks ufn (ConnectEstablished_fn p) (w'\<lparr>cur_thread := m_threadId (loop_of w l)\<rparr>) =
            call_user (m_srvConnectionCallback (server_of w)) (\<lambda>cb. call_connection hooks cb p) w2)
        (TcpServer_newConnection os hooks p c fd peer w))"
proof -
  obtain w1 where w1: "connection_made os p c fd peer l pool1 w w1"
      "TcpServer_newConnection os hooks p c fd peer w = runInLoop os l (ConnectEstablished_fn p) (connectEstablished os hooks p) w1"
    using newConnection_makes [OF assms(4)] by blast
  note ready = made_channel_ready [OF assms(1,2,5) w1(1)]
  have M: "m_channel (conn_of w1 p) = c" "m_connectionCallback (conn_of w1 p) = m_srvConnectionCallback (server_of w)"
      "loop_of w1 = loop_of w" "cur_thread w1 = cur_thread w"
    using w1(1) by (simp_all add: connection_made_def Let_def)
  define v where "v = (if isInLoopThread l w then w1
    else (queueInLoop os l (ConnectEstablished_fn p) w1)\<lparr>cur_thread := m_threadId (loop_of w l)\<rparr>)"
  have v: "chan v = chan w1" "poller_of v = poller_of w1" "interest (kern v) = interest (kern w1)" "conn_of v = conn_of w1"
      "server_of v = server_of w1"
    by (simp_all add: v_def queueInLoop_interest [OF assms(3)])
  obtain w2 where w2: "m_state (conn_of w2 p) = Connected" "channel_watched interest c w2 = Some kReadEvent"
      "m_tie (conn_chan p w2) = Some p" "server_kept v w2"
      "connectEstablished os hooks p v = call_user (m_srvConnectionCallback (server_of w)) (\<lambda>cb. call_connection hooks cb p) w2"
    using connectEstablished_watches [OF ready [OF v(1-4)], of hooks] M by (auto simp: v(4))
  have "server_of w2 = server_of w1"
    using w2(4) v(5) by (simp add: server_kept_def)
  then show ?thesis
    using w1 w2 M(3,4) by (intro exI [of _ w1] exI [of _ w2])
      (auto simp: v_def runInLoop_def isInLoopThread_def run_closure_def)
qed

theorem accepted_connection_established_witness:
  "succeeds (\<lambda>w'. m_pendingFunctors (loop_of w' 10) = [ConnectEstablished_fn 5] \<and>
       succeeds (\<lambda>w2. m_state (conn_of w2 5) = Connected \<and> channel_watched k_interest 15 w2 = Some kReadEvent)
         (run_closure sim_os silent_hooks (\<lambda>_. Inr) (ConnectEstablished_fn 5) (w'\<lparr>cur_thread := 20\<rparr>)))
     (TcpServer_newConnection sim_os silent_hooks 5 15 40 (InetAddress_of \<lparr>sin_family = 2, sin_port = 0, sin_addr = 0\<rparr>)
       server_world)"
proof -
  let ?peer = "InetAddress_of \<lparr>sin_family = 2, sin_port = 0, sin_addr = 0\<rparr>"
  have silent: "call_user cb (\<lambda>cb. call_connection silent_hooks cb 5) v = Inr v" for cb and v :: "simk ssys"
    by (simp add: call_user_def silent_hooks_def split: option.split)
  have "m_pendingFunctors (loop_of server_world 10) = []"
    by (simp add: server_world_def)
  then show ?thesis
    using accepted_connection_established [OF sim_epoll sim_listen_neutral sim_neutral server_world_pool(3) server_world_place,
        of 5 15 40 ?peer silent_hooks "\<lambda>_. Inr"]
    by (auto simp: isInLoopThread_def silent elim!: succeeds_mono)
qed

text \<open>
  C13: Tearing a connection down across the threads: when its peer closes it, \<open>handleClose\<close> in the io
  thread silences it and queues its removal in the base loop, changing no other connection; the base
  thread then erases exactly its entry of the map and queues \<open>connectDestroyed\<close> in the io loop; and when
  the io thread has run that, neither the kernel nor the poller knows the channel any more, although
  the object is still there: nothing can reach the channel once the last \<open>shared_ptr\<close> goes.
\<close>

theorem teardown_complete:
  fixes w :: "('k, 'z) ssys_scheme" and p :: conn_ptr
  defines "c \<equiv> m_channel (conn_of w p)" and "name \<equiv> m_name (conn_of w p)" and "b \<equiv> m_srvLoop (server_of w)"
    and "l \<equiv> m_tcLoop (conn_of w p)"
  assumes "registry_ok os interest c w" and "channel_watched interest c w \<noteq> None"
    and "socket_calls_neutral os interest" and "onlooker interest user"
    and "tcpconn.m_closeCallback (conn_of w p) = Some server_cb" and "\<not> isInLoopThread b w"
  shows "succeeds (\<lambda>w1. m_state (conn_of w1 p) = Disconnected \<and> channel_watched interest c w1 = None \<and>
       last (m_pendingFunctors (loop_of w1 b)) = RemoveConnectionInLoop_fn p \<and> server_of w1 = server_of w \<and>
       succeeds (\<lambda>w2. m_connections (server_of w2) = (m_connections (server_of w))(name := None) \<and>
           last (m_pendingFunctors (loop_of w2 l)) = ConnectDestroyed_fn p \<and>
           succeeds (\<lambda>w3. channel_watched interest c w3 = None \<and> \<not> hasChannel (m_chLoop (chan w c)) c w3 \<and>
               server_of w3 = server_of w2 \<and> m_state (conn_of w3 p) = Disconnected \<and>
               (\<forall>q. q \<noteq> p \<longrightarrow> conn_of w3 q = conn_of w q) \<and> (\<forall>x. x \<noteq> c \<longrightarrow> chan w3 x = chan w x))
             (run_closure os (server_hooks os user) ufn (ConnectDestroyed_fn p) (w2\<lparr>cur_thread := cur_thread w\<rparr>)))
         (run_closure os (server_hooks os user) ufn (RemoveConnectionInLoop_fn p)
            (w1\<lparr>cur_thread := m_threadId (loop_of w b)\<rparr>)))
     (TcpConnection_handleClose os (server_hooks os user) p w)"
proof (rule succeeds_mono [OF handleClose_remote [OF assms(5) [unfolded c_def] assms(7-9) assms(10) [unfolded b_def]]])
  fix w1 :: "('k, 'z) ssys_scheme"
  assume "closed_remotely interest os p w w1"
  then have *: "registry_ok os interest (m_channel (conn_of w p)) w1 \<and> channel_watched interest (m_channel (conn_of w p)) w1 = None \<and>
     conn_of w1 = (conn_of w)(p := (conn_of w p)\<lparr>m_state := Disconnected\<rparr>) \<and>
     (\<forall>x. x \<noteq> m_channel (conn_of w p) \<longrightarrow> chan w1 x = chan w x) \<and> server_of w1 = server_of w \<and>
     m_chLoop (conn_chan p w1) = m_chLoop (conn_chan p w) \<and>
     (\<forall>l. m_threadId (loop_of w1 l) = m_threadId (loop_of w l)) \<and>
     last (m_pendingFunctors (loop_of w1 (m_srvLoop (server_of w)))) = RemoveConnectionInLoop_fn p"
    using assms(6) by (auto simp: closed_remotely_def c_def)
  let ?v1 = "w1\<lparr>cur_thread := m_threadId (loop_of w b)\<rparr>"
  define w2 where "w2 = removeConnectionInLoop os p ?v1"
  let ?v2 = "w2\<lparr>cur_thread := cur_thread w\<rparr>"
  note R = removed_facts [OF w2_def assms(7)]
  have chl: "m_chLoop (chan w1 (m_channel (conn_of w p))) = m_chLoop (chan w (m_channel (conn_of w p)))"
  proof -
    have "m_chLoop (conn_chan p w1) = m_chLoop (conn_chan p w)" "m_channel (conn_of w1 p) = m_channel (conn_of w p)"
      using * by auto
    then show ?thesis by (simp add: conn_chan_def)
  qed
  have ok: "registry_ok os interest (m_channel (conn_of ?v2 p)) ?v2"
    using * registry_ok_same [of os interest c w1 ?v2] by (simp add: R c_def)
  have "succeeds (\<lambda>w3. channel_watched interest c w3 = None \<and> \<not> hasChannel (m_chLoop (chan w c)) c w3 \<and>
      server_of w3 = server_of w2 \<and> m_state (conn_of w3 p) = Disconnected \<and>
      (\<forall>q. q \<noteq> p \<longrightarrow> conn_of w3 q = conn_of w q) \<and> (\<forall>x. x \<noteq> c \<longrightarrow> chan w3 x = chan w x))
      (run_closure os (server_hooks os user) ufn (ConnectDestroyed_fn p) ?v2)"
    by (rule succeeds_mono [OF destroyed_runs [OF ok]]) (use * chl in \<open>simp_all add: R c_def conn_chan_def\<close>)
  then show "m_state (conn_of w1 p) = Disconnected \<and> channel_watched interest c w1 = None \<and>
       last (m_pendingFunctors (loop_of w1 b)) = RemoveConnectionInLoop_fn p \<and> server_of w1 = server_of w \<and>
       succeeds (\<lambda>w2. m_connections (server_of w2) = (m_connections (server_of w))(name := None) \<and>
           last (m_pendingFunctors (loop_of w2 l)) = ConnectDestroyed_fn p \<and>
           succeeds (\<lambda>w3. channel_watched interest c w3 = None \<and> \<not> hasChannel (m_chLoop (chan w c)) c w3 \<and>
               server_of w3 = server_of w2 \<and> m_state (conn_of w3 p) = Disconnected \<and>
               (\<forall>q. q \<noteq> p \<longrightarrow> conn_of w3 q = conn_of w q) \<and> (\<forall>x. x \<noteq> c \<longrightarrow> chan w3 x = chan w x))
             (run_closure os (server_hooks os user) ufn (ConnectDestroyed_fn p) (w2\<lparr>cur_thread := cur_thread w\<rparr>)))
         (run_closure os (server_hooks os user) ufn (RemoveConnectionInLoop_fn p) ?v1)"
    using * R by (simp add: remove_runs flip: w2_def) (simp add: c_def name_def b_def l_def)
qed

lemma silent_onlooker: "onlooker interest silent_hooks"
  by (simp add: onlooker_def silent_hooks_def)

theorem teardown_complete_witness:
  "\<exists>w :: simk ssys. m_connections (server_of w) (m_name (conn_of w 5)) = Some 5 \<and>
     succeeds (\<lambda>w1. m_state (conn_of w1 5) = Disconnected \<and> channel_watched k_interest 15 w1 = None \<and>
         last (m_pendingFunctors (loop_of w1 0)) = RemoveConnectionInLoop_fn 5)
       (TcpConnection_handleClose sim_os (server_hooks sim_os silent_hooks) 5 w)"
proof -
  let ?peer = "InetAddress_of \<lparr>sin_family = 2, sin_port = 0, sin_addr = 0\<rparr>"
  obtain w1 :: "simk ssys" where w1: "connection_made sim_os 5 15 40 ?peer 10
      ((EventLoopThreadPool_ctor 0 ''s'')\<lparr>m_loops := [10, 11], m_next := 1\<rparr>) server_world w1"
    using newConnection_makes [OF server_world_pool(3)] by blast
  let ?v = "w1\<lparr>cur_thread := 20\<rparr>"
  have M: "m_channel (conn_of w1 5) = 15" "tcpconn.m_closeCallback (conn_of w1 5) = Some server_cb" "loop_of w1 = loop_of server_world"
      "m_srvLoop (server_of w1) = 0" "m_connections (server_of w1) (m_name (conn_of w1 5)) = Some 5"
    using w1 by (simp_all add: connection_made_def Let_def)
  obtain w2 :: "simk ssys" where w2: "channel_watched k_interest 15 w2 = Some kReadEvent" "registry_ok sim_os k_interest 15 w2"
      "conn_of w2 = (conn_of w1)(5 := (conn_of w1 5)\<lparr>m_state := Connected\<rparr>)" "loop_of w2 = loop_of w1" "cur_thread w2 = 20"
      "server_of w2 = server_of w1"
    using connectEstablished_watches [OF made_channel_ready [OF sim_epoll sim_listen_neutral server_world_place w1, of ?v]] M(1)
    by (auto simp: server_kept_def)
  have "\<not> isInLoopThread 0 w2"
    using w2(4,5) M(3) by (simp add: isInLoopThread_def)
  then have "succeeds (\<lambda>w1. m_state (conn_of w1 5) = Disconnected \<and> channel_watched k_interest 15 w1 = None \<and>
         last (m_pendingFunctors (loop_of w1 0)) = RemoveConnectionInLoop_fn 5)
       (TcpConnection_handleClose sim_os (server_hooks sim_os silent_hooks) 5 w2)"
    by (intro succeeds_mono [OF teardown_complete [where w = w2 and p = 5 and os = sim_os and interest = k_interest
          and user = silent_hooks and ufn = "\<lambda>_. Inr"]])
      (use w2 M sim_neutral silent_onlooker in \<open>simp_all\<close>)
  then show ?thesis
    using w2 M(5) by (intro exI [of _ w2]) simp
qed

section \<open>Starting once\<close>

lemma EventLoop_ctor_server:
  fixes w :: "('k, 'z) ssys_scheme"
  shows "holds (\<lambda>w'. server_of w' = server_of w) (EventLoop_ctor os l c w)"
proof (unfold holds_def, intro allI impI)
  fix w' assume "EventLoop_ctor os l c w = Inr w'"
  then obtain w0 where w0: "change_mask os (\<lambda>m. m OR kReadEvent) c w0 = Inr w'" "server_of w0 = server_of w"
    by (auto simp: EventLoop_ctor_def andThen_eq_Inr Let_def upd_loop_def upd_chan_def upd_poller_def
        channel_ops_change_mask split: if_splits option.splits)
  show "server_of w' = server_of w"
    using change_mask_server [OF w0(1)] w0(2) by simp
qed

definition init_keeps_started :: "(nat \<Rightarrow> loop_ptr \<Rightarrow> ('k, 'z) ssys_scheme \<Rightarrow> ('k, 'z) ssys_scheme result) \<Rightarrow> bool" where
  "init_keeps_started init \<longleftrightarrow>
     (\<forall>cb l w. m_srvStarted (server_of w) \<longrightarrow> holds (\<lambda>w'. m_srvStarted (server_of w')) (init cb l w))"

lemma startLoop_started:
  fixes w :: "('k, 'z) ssys_scheme"
  assumes "init_keeps_started init" and "m_srvStarted (server_of w)"
  shows "holds (\<lambda>(loop, t', w'). m_srvStarted (server_of w')) (startLoop os init place t w)"
proof -
  obtain l c tid where pl: "place = (l, c, tid)" by (cases place) auto
  have "holds (\<lambda>w'. m_srvStarted (server_of w')) (case cb of None \<Rightarrow> Inr v | Some cb \<Rightarrow> init cb l v)"
    if "m_srvStarted (server_of v)" for cb and v :: "('k, 'z) ssys_scheme"
    using assms(1) that by (auto simp: init_keeps_started_def split: option.split)
  moreover have "holds (\<lambda>w'. m_srvStarted (server_of w')) (EventLoop_ctor os l c (w\<lparr>cur_thread := tid\<rparr>))"
    by (rule holds_mono [OF EventLoop_ctor_server]) (use assms(2) in simp)
  ultimately have "holds (\<lambda>(t', w'). m_srvStarted (server_of w')) (threadFunc_begin os init l c t1 (w\<lparr>cur_thread := tid\<rparr>))" for t1
    by (auto simp: threadFunc_begin_def holds_def andThen_eq_Inr)
  then show ?thesis
    using assms(2) by (auto simp: startLoop_def pl holds_def andThen_eq_Inr split: option.splits if_splits)
qed

lemma pool_start_started:
  fixes w :: "('k, 'z) ssys_scheme"
  assumes init: "init_keeps_started init" and st: "m_srvStarted (server_of w)"
  shows "holds (\<lambda>(p', num', w'). m_srvStarted (server_of w')) (EventLoopThreadPool_start os init place cb p num w)"
proof -
  have step: "holds (\<lambda>(p', num', w'). m_srvStarted (server_of w')) (start_thread os init place cb i s)"
    if "(\<lambda>(p', num', w'). m_srvStarted (server_of w')) s" for i and s :: "pool \<times> int32 \<times> ('k, 'z) ssys_scheme"
    using startLoop_started [OF init] that
    by (fastforce simp: start_thread_def holds_def andThen_eq_Inr split: prod.splits)
  have "holds (\<lambda>(p', num', w'). m_srvStarted (server_of w')) (foldE (start_thread os init place cb) is (p1, num, w))" for "is" p1
    by (rule holds_foldE) (use st step in auto)
  moreover have "holds (\<lambda>(p', num', w'). m_srvStarted (server_of w')) (andThen (init f (m_baseLoop p) w) (\<lambda>w1. Inr (p1, num, w1)))" for f p1
    using init st by (fastforce simp: init_keeps_started_def holds_def andThen_eq_Inr)
  ultimately show ?thesis
    by (auto simp: EventLoopThreadPool_start_def Let_def split: option.split)
qed

lemma server_listen_started:
  fixes w :: "('k, 'z) ssys_scheme"
  assumes "m_srvStarted (server_of w)"
  shows "holds (\<lambda>w'. m_srvStarted (server_of w')) (server_listen os w)"
  using assms change_mask_server
  by (fastforce simp: server_listen_def Acceptor_listen_def Let_def holds_def andThen_eq_Inr channel_ops_change_mask)

lemma TcpServer_start_started:
  assumes "init_keeps_started init"
  shows "holds (\<lambda>w'. m_srvStarted (server_of w')) (TcpServer_start os init place w)"
proof (cases "m_srvStarted (server_of w)")
  case False
  let ?w1 = "upd_server (\<lambda>s. s\<lparr>m_srvStarted := True\<rparr>) w"
  have "holds (\<lambda>(p', num', w'). m_srvStarted (server_of w'))
      (EventLoopThreadPool_start os init place (m_threadInitCallback (server_of ?w1)) (m_threadPool (server_of ?w1)) (numCreated ?w1) ?w1)"
    by (rule pool_start_started [OF assms]) simp
  then show ?thesis
    using False unfolding TcpServer_start_def Let_def
    by (simp, elim holds_andThen) (auto simp: runInLoop_def intro!: server_listen_started)
qed (simp add: TcpServer_start_def)

text \<open>
  \<open>start()\<close> starts the server once: calling it again, with whatever arguments, changes nothing more,
  as long as the thread initialization callback does not undo \<open>m_started\<close>.
\<close>

theorem start_is_idempotent:
  assumes "init_keeps_started init"
  shows "andThen (TcpServer_start os init place w) (TcpServer_start os init' place') = TcpServer_start os init place w"
proof (cases "TcpServer_start os init place w")
  case (Inr w')
  then show ?thesis
    using holdsD [OF TcpServer_start_started [OF assms] Inr] by (simp add: TcpServer_start_def)
qed simp

theorem start_is_idempotent_witness:
  "andThen (TcpServer_start sim_os (\<lambda>_ _. Inr) (\<lambda>i. (i, i, 0)) server_world) (TcpServer_start sim_os (\<lambda>_ _. Inr) (\<lambda>i. (i, i, 0)))
     = TcpServer_start sim_os (\<lambda>_ _. Inr) (\<lambda>i. (i, i, 0)) server_world"
  by (rule start_is_idempotent) (simp add: init_keeps_started_def)

section \<open>Destroying the server\<close>

lemma drop_connections_frame:
  "conn_of (drop_connections os ps w) = conn_of w" "chan (drop_connections os ps w) = chan w"
  "poller_of (drop_connections os ps w) = poller_of w" "loop_of (drop_connections os ps w) = loop_of w"
  "server_of (drop_connections os ps w) = (server_of w)\<lparr>m_connections := Map.empty\<rparr>"
proof -
  define f where "f = (\<lambda>p (w :: ('a, 'b) ssys_scheme). if alive p w then w else TcpConnection_dtor os p w)"
  have "conn_of (fold f ps v) = conn_of v \<and> chan (fold f ps v) = chan v \<and> poller_of (fold f ps v) = poller_of v \<and>
      loop_of (fold f ps v) = loop_of v \<and> server_of (fold f ps v) = server_of v" for v
    by (induction ps arbitrary: v) (simp_all add: f_def TcpConnection_dtor_def)
  then show "conn_of (drop_connections os ps w) = conn_of w" "chan (drop_connections os ps w) = chan w"
    "poller_of (drop_connections os ps w) = poller_of w" "loop_of (drop_connections os ps w) = loop_of w"
    "server_of (drop_connections os ps w) = (server_of w)\<lparr>m_connections := Map.empty\<rparr>"
    by (simp_all add: drop_connections_def f_def)
qed


definition served_world :: "simk ssys" where
  "served_world = upd_server (\<lambda>s. s\<lparr>m_connections := [''c'' \<mapsto> 5]\<rparr>)
     (server_world\<lparr>chan := (\<lambda>_. Channel_ctor 0 6), poller_of := (\<lambda>l. (poller_of server_world l)\<lparr>m_channels := [6 \<mapsto> 8]\<rparr>)\<rparr>)"


end
