(* ===== verification/Program.thy ===== *)
theory Program
  imports TcpServer
begin

text \<open>
  The program as a whole: passes of two loops in two threads, with the handlers and closures of
  TcpServer.thy, from the event on the listening socket to the established connection.
\<close>

section \<open>A pass with one event\<close>

text \<open>Waiting and reading leave the interest lists alone.\<close>

definition wait_calls_neutral :: "'k os \<Rightarrow> ('k \<Rightarrow> int \<Rightarrow> int \<Rightarrow> epoll_event option) \<Rightarrow> bool" where
  "wait_calls_neutral os interest \<longleftrightarrow>
     (\<forall>ep n t k. interest (snd (sys_epoll_wait os ep n t k)) = interest k) \<and>
     (\<forall>k. interest (snd (sys_time os k)) = interest k) \<and>
     (\<forall>fd n k. interest (snd (sys_read os fd n k)) = interest k)"

text \<open>The call of \<open>epoll_wait\<close> that loop \<open>l\<close> makes in state \<open>k\<close> reports just one event, at time \<open>now\<close>.\<close>

definition one_event ::
    "'k os \<Rightarrow> loop_ptr \<Rightarrow> chan_ptr \<Rightarrow> evmask \<Rightarrow> timestamp \<Rightarrow> 'k \<Rightarrow> ('k, 'z) ssys_scheme \<Rightarrow> bool" where
  "one_event os l c r now k2 w \<longleftrightarrow> m_eventList (poller_of w l) \<noteq> [] \<and>
     (\<exists>k1. sys_epoll_wait os (m_epollfd (poller_of w l)) (length (m_eventList (poller_of w l))) kPollTimeMs (kern w)
          = (Inr [\<lparr>ev_events = r, ev_ptr = c\<rparr>], k1) \<and> sys_time os k1 = (now, k2))"

text \<open>The registration of the channels is the same in two worlds.\<close>

definition same_registry :: "('k \<Rightarrow> int \<Rightarrow> int \<Rightarrow> epoll_event option) \<Rightarrow> ('k, 'z) ssys_scheme \<Rightarrow> ('k, 'z) ssys_scheme \<Rightarrow> bool" where
  "same_registry interest w w' \<longleftrightarrow> interest (kern w') = interest (kern w) \<and>
     (\<forall>l. m_epollfd (poller_of w' l) = m_epollfd (poller_of w l) \<and> m_channels (poller_of w' l) = m_channels (poller_of w l) \<and>
       (m_eventList (poller_of w l) \<noteq> [] \<longrightarrow> m_eventList (poller_of w' l) \<noteq> [])) \<and>
     (\<forall>x. \<exists>r. chan w' x = setRevents r (chan w x))"

lemma setRevents_fields [simp]:
  "m_chLoop (setRevents r ch) = m_chLoop ch" "m_fd (setRevents r ch) = m_fd ch" "m_events (setRevents r ch) = m_events ch"
  "m_channelStatus (setRevents r ch) = m_channelStatus ch" "m_readCallback (setRevents r ch) = m_readCallback ch"
  "m_tied (setRevents r ch) = m_tied ch" "m_revents (setRevents r ch) = r"
  by (simp_all add: setRevents_def)

lemma same_registry_fields:
  assumes "same_registry interest w w'"
  shows "m_chLoop (chan w' x) = m_chLoop (chan w x)" "m_fd (chan w' x) = m_fd (chan w x)"
    "m_events (chan w' x) = m_events (chan w x)" "m_channelStatus (chan w' x) = m_channelStatus (chan w x)"
    "interest (kern w') = interest (kern w)" "m_epollfd (poller_of w' l) = m_epollfd (poller_of w l)"
    "m_channels (poller_of w' l) = m_channels (poller_of w l)"
proof -
  obtain r where "chan w' x = setRevents r (chan w x)"
    using assms unfolding same_registry_def by blast
  then show "m_chLoop (chan w' x) = m_chLoop (chan w x)" "m_fd (chan w' x) = m_fd (chan w x)"
    "m_events (chan w' x) = m_events (chan w x)" "m_channelStatus (chan w' x) = m_channelStatus (chan w x)"
    by simp_all
qed (use assms in \<open>simp_all add: same_registry_def\<close>)

lemma same_registry_ok: "same_registry interest w w' \<Longrightarrow> registry_ok os interest c w \<Longrightarrow> registry_ok os interest c w'"
  by (simp add: registry_ok_def poller_inv_def fd_free_def same_registry_fields)

lemma same_registry_place: "same_registry interest w w' \<Longrightarrow> new_place interest l c fd w \<Longrightarrow> new_place interest l c fd w'"
  by (simp add: new_place_def poller_inv_def same_registry_fields)

lemma same_registryI:
  assumes "interest (kern w') = interest (kern w)" and "poller_of w' = poller_of w" and "chan w' = chan w"
  shows "same_registry interest w w'"
  unfolding same_registry_def
proof (intro conjI allI)
  show "\<exists>r. chan w' x = setRevents r (chan w x)" for x
    by (rule exI [of _ "m_revents (chan w x)"]) (simp add: assms setRevents_def)
qed (simp_all add: assms)

lemma same_registry_trans [trans]:
  assumes "same_registry interest u v" and "same_registry interest v w"
  shows "same_registry interest u w"
proof -
  have "\<exists>r. chan w x = setRevents r (chan u x)" for x
  proof -
    obtain r s where "chan v x = setRevents r (chan u x)" "chan w x = setRevents s (chan v x)"
      using assms unfolding same_registry_def by blast
    then have "chan w x = setRevents s (chan u x)" by (simp add: setRevents_def)
    then show ?thesis by blast
  qed
  then show ?thesis
    using assms by (simp add: same_registry_def)
qed

lemma same_rest:
  fixes w w' :: "('k, 'z) ssys_scheme"
  assumes "sys.more w' = sys.more w"
  shows "loop_of w' = loop_of w" "cur_thread w' = cur_thread w" "conn_of w' = conn_of w" "server_of w' = server_of w"
  using assms by (cases w; cases w'; simp)+

text \<open>What a pass does up to the first callback.\<close>

definition polled :: "loop_ptr \<Rightarrow> chan_ptr \<Rightarrow> evmask \<Rightarrow> timestamp \<Rightarrow> 'k \<Rightarrow> ('k, 'z) ssys_scheme \<Rightarrow> ('k, 'z) ssys_scheme \<Rightarrow> bool" where
  "polled l c r now k2 w w' \<longleftrightarrow>
     chan w' = (chan w)(c := setRevents r (chan w c)) \<and> kern w' = k2 \<and>
     (\<forall>x. m_epollfd (poller_of w' x) = m_epollfd (poller_of w x) \<and> m_channels (poller_of w' x) = m_channels (poller_of w x) \<and>
       (m_eventList (poller_of w x) \<noteq> [] \<longrightarrow> m_eventList (poller_of w' x) \<noteq> [])) \<and>
     (\<forall>x. x \<noteq> l \<longrightarrow> poller_of w' x = poller_of w x) \<and>
     loop_of w' = (loop_of w)(l := (loop_of w l)\<lparr>m_activeChannels := [c], m_pollReturnTime := now\<rparr>) \<and>
     cur_thread w' = cur_thread w \<and> conn_of w' = conn_of w \<and> server_of w' = server_of w"

lemma andThen_foldE_Nil [simp]: "andThen r (foldE f []) = r"
  by (cases r) simp_all

lemma loop_pass_single:
  fixes w :: "('k, 'z) ssys_scheme"
  assumes "one_event os l c r now k2 w"
  shows "\<exists>w3 :: ('k, 'z) ssys_scheme. polled l c r now k2 w w3 \<and>
     loop_pass os lock invoke run l w = andThen (Channel_handleEvent lock invoke c now w3) (doPendingFunctors run l)"
proof -
  obtain k1 where wait: "sys_epoll_wait os (m_epollfd (poller_of w l)) (length (m_eventList (poller_of w l))) kPollTimeMs (kern w)
          = (Inr [\<lparr>ev_events = r, ev_ptr = c\<rparr>], k1)" and time: "sys_time os k1 = (now, k2)" and ne: "m_eventList (poller_of w l) \<noteq> []"
    using assms by (auto simp: one_event_def)
  define w1 where "w1 = upd_loop l (\<lambda>e. e\<lparr>m_activeChannels := []\<rparr>) w"
  have same: "chan w1 = chan w" "kern w1 = kern w" "poller_of w1 = poller_of w" "conn_of w1 = conn_of w" "server_of w1 = server_of w"
      "cur_thread w1 = cur_thread w" "loop_of w1 = (loop_of w)(l := (loop_of w l)\<lparr>m_activeChannels := []\<rparr>)"
    by (simp_all add: w1_def upd_loop_def)
  obtain ts active w2 where poll: "EPollPoller_poll os l kPollTimeMs [] w1 = (ts, active, w2)"
    by (cases "EPollPoller_poll os l kPollTimeMs [] w1") auto
  have P: "ts = now \<and> kern w2 = k2 \<and> active = [] @ map ev_ptr [\<lparr>ev_events = r, ev_ptr = c\<rparr>] \<and> sys.more w2 = sys.more w1 \<and>
     (\<forall>x. \<exists>r. chan w2 x = setRevents r (chan w1 x)) \<and>
     (\<forall>x. x \<notin> ev_ptr ` set [\<lparr>ev_events = r, ev_ptr = c\<rparr>] \<longrightarrow> chan w2 x = chan w1 x) \<and>
     (distinct (map ev_ptr [\<lparr>ev_events = r, ev_ptr = c\<rparr>]) \<longrightarrow>
        (\<forall>ev \<in> set [\<lparr>ev_events = r, ev_ptr = c\<rparr>]. m_revents (chan w2 (ev_ptr ev)) = ev_events ev)) \<and>
     m_epollfd (poller_of w2 l) = m_epollfd (poller_of w1 l) \<and>
     m_channels (poller_of w2 l) = m_channels (poller_of w1 l) \<and>
     (\<forall>l'. l' \<noteq> l \<longrightarrow> poller_of w2 l' = poller_of w1 l') \<and>
     length (m_eventList (poller_of w2 l)) =
       (if [\<lparr>ev_events = r, ev_ptr = c\<rparr>] \<noteq> [] \<and> length [\<lparr>ev_events = r, ev_ptr = c\<rparr>] = length (m_eventList (poller_of w1 l))
        then 2 * length (m_eventList (poller_of w1 l)) else length (m_eventList (poller_of w1 l)))"
    by (rule poll_events [OF _ time _ poll]) (use wait ne in \<open>simp_all add: same Suc_le_eq\<close>)
  note R = same_rest [of w2 w1]
  define w3 where "w3 = upd_loop l (\<lambda>e. e\<lparr>m_activeChannels := [c], m_pollReturnTime := now\<rparr>) w2"
  have "\<exists>r'. chan w2 c = setRevents r' (chan w c)" and rev: "m_revents (chan w2 c) = r"
    using P same(1) by simp_all
  then obtain r' where "chan w2 c = setRevents r' (chan w c)" by blast
  with rev have "chan w2 c = setRevents r (chan w c)" by (simp add: setRevents_def)
  then have "chan w2 = (chan w)(c := setRevents r (chan w c))"
    using P same(1) by (intro ext) (simp add: setRevents_def)
  moreover have "m_epollfd (poller_of w2 x) = m_epollfd (poller_of w x) \<and> m_channels (poller_of w2 x) = m_channels (poller_of w x) \<and>
      (m_eventList (poller_of w x) \<noteq> [] \<longrightarrow> m_eventList (poller_of w2 x) \<noteq> [])" for x
    using P same(3) ne by (cases "x = l") (auto split: if_splits)
  ultimately have "polled l c r now k2 w w3"
    using P R same by (simp add: polled_def w3_def upd_loop_def)
  moreover have "loop_pass os lock invoke run l w = andThen (Channel_handleEvent lock invoke c now w3) (doPendingFunctors run l)"
  proof -
    have "m_activeChannels (loop_of w1 l) = []" "m_pollReturnTime (loop_of w3 l) = now"
      by (simp_all add: same w3_def upd_loop_def)
    then show ?thesis
      using poll P by (simp add: loop_pass_def Let_def flip: w1_def) (simp add: w3_def)
  qed
  ultimately show ?thesis by blast
qed

text \<open>An input event on a channel that is not tied runs its read callback.\<close>

lemma handleEvent_input:
  assumes "m_revents (chan w c) = EPOLLIN" and "\<not> m_tied (chan w c)" and "m_readCallback (chan w c) = Some cb"
    and "invoke cb t w = Inr w'" and "m_revents (chan w' c) = EPOLLIN"
  shows "Channel_handleEvent lock invoke c t w = Inr w'"
  using assms by (simp add: Channel_handleEvent_def handleEventWithGuard_def call_opt_def epoll_bits)

lemma doPendingFunctors_none:
  fixes w :: "('k, 'z) ssys_scheme"
  assumes "m_pendingFunctors (loop_of w l) = []"
  shows "\<exists>w' :: ('k, 'z) ssys_scheme. doPendingFunctors run l w = Inr w' \<and> conn_of w' = conn_of w \<and> server_of w' = server_of w \<and>
     chan w' = chan w \<and> poller_of w' = poller_of w \<and> kern w' = kern w \<and> cur_thread w' = cur_thread w \<and>
     loop_of w' = (loop_of w)(l := (loop_of w l)\<lparr>m_callingPendingFunctors := False\<rparr>)"
  using assms by (cases "loop_of w l") (simp add: doPendingFunctors_def upd_loop_def Let_def)

section \<open>The accepting pass\<close>

text \<open>The base loop \<open>b\<close> waits on the accept channel \<open>a\<close>; loop \<open>l\<close>, of another thread, is next in turn,
  and \<open>c\<close> is a new channel address.\<close>

definition accepting_base :: "chan_ptr \<Rightarrow> chan_ptr \<Rightarrow> loop_ptr \<Rightarrow> pool \<Rightarrow> ('k, 'z) ssys_scheme \<Rightarrow> bool" where
  "accepting_base a c l pool1 w \<longleftrightarrow>
     m_newConnectionCallback (m_acceptor (server_of w)) = Some server_cb \<and>
     m_readCallback (chan w a) = Some Acceptor_handleRead_cb \<and> \<not> m_tied (chan w a) \<and> c \<noteq> a \<and>
     getNextLoop (m_threadPool (server_of w)) = Inr (l, pool1) \<and> \<not> isInLoopThread l w \<and> l \<noteq> m_srvLoop (server_of w) \<and>
     m_pendingFunctors (loop_of w (m_srvLoop (server_of w))) = []"

lemma accepting_pass:
  fixes w :: "('k, 'z) ssys_scheme"
  assumes ev: "one_event os (m_srvLoop (server_of w)) a EPOLLIN now k2 w" and base: "accepting_base a c l pool1 w"
    and acc: "sys_accept4 os (m_acceptSocket (m_acceptor (server_of w))) k2 = (Inr (fd, addr), k3)"
  shows "\<exists>w4 w5 w6 :: ('k, 'z) ssys_scheme. polled (m_srvLoop (server_of w)) a EPOLLIN now k3 w w4 \<and>
     connection_made os p c fd (InetAddress_of addr) l pool1 w4 w5 \<and>
     loop_pass os lock (invoke_callback os hooks dflt (\<lambda>_. (p, c))) run (m_srvLoop (server_of w)) w = Inr w6 \<and>
     conn_of w6 = conn_of w5 \<and> server_of w6 = server_of w5 \<and> chan w6 = chan w5 \<and> poller_of w6 = poller_of w5 \<and>
     kern w6 = snd (sys_write os (m_wakeupFd (loop_of w l)) one_bytes (kern w5)) \<and> cur_thread w6 = cur_thread w \<and>
     loop_of w6 l = (loop_of w l)\<lparr>m_pendingFunctors := m_pendingFunctors (loop_of w l) @ [ConnectEstablished_fn p]\<rparr> \<and>
     m_pendingFunctors (loop_of w6 (m_srvLoop (server_of w))) = []"
proof -
  let ?b = "m_srvLoop (server_of w)" and ?invoke = "invoke_callback os hooks dflt (\<lambda>_. (p, c))"
  obtain w3 :: "('k, 'z) ssys_scheme" where w3: "polled ?b a EPOLLIN now k2 w w3"
      "loop_pass os lock ?invoke run ?b w = andThen (Channel_handleEvent lock ?invoke a now w3) (doPendingFunctors run ?b)"
    using loop_pass_single [OF ev] by blast
  define w4 where "w4 = w3\<lparr>kern := k3\<rparr>"
  have w4: "polled ?b a EPOLLIN now k3 w w4"
    using w3(1) by (simp add: polled_def w4_def)
  have B: "getNextLoop (m_threadPool (server_of w4)) = Inr (l, pool1)" "\<not> isInLoopThread l w4" "l \<noteq> ?b" "c \<noteq> a"
      "loop_of w4 l = loop_of w l" "m_pendingFunctors (loop_of w4 ?b) = []" "server_of w4 = server_of w"
    using base w4 by (auto simp: accepting_base_def polled_def isInLoopThread_def)
  obtain w5 :: "('k, 'z) ssys_scheme" where w5: "connection_made os p c fd (InetAddress_of addr) l pool1 w4 w5"
      "TcpServer_newConnection os hooks p c fd (InetAddress_of addr) w4 =
         runInLoop os l (ConnectEstablished_fn p) (connectEstablished os hooks p) w5"
    using newConnection_makes [OF B(1)] by blast
  have M: "loop_of w5 = loop_of w4" "cur_thread w5 = cur_thread w4" "chan w5 = (chan w4)(c := new_chan p l fd)"
    using w5(1) by (simp_all add: connection_made_def Let_def)
  let ?w = "queueInLoop os l (ConnectEstablished_fn p) w5"
  have "?invoke Acceptor_handleRead_cb now w3 = Inr ?w"
  proof -
    have "Acceptor_handleRead os dflt newConn (m_acceptor (server_of w3)) w3 = newConn server_cb fd (InetAddress_of addr) w4" for newConn
      using acc w3(1) base
      by (cases dflt) (simp add: Acceptor_handleRead_def Socket_accept_def polled_def accepting_base_def setSockAddr_def InetAddress_of_def w4_def)
    then show ?thesis
      using B(2) M by (simp add: invoke_callback_def w5(2) runInLoop_def isInLoopThread_def)
  qed
  then have "Channel_handleEvent lock ?invoke a now w3 = Inr ?w"
    by (rule handleEvent_input [rotated 3]) (use w3(1) w4 base M(3) B(4) in \<open>auto simp: polled_def accepting_base_def\<close>)
  then have pass: "loop_pass os lock ?invoke run ?b w = doPendingFunctors run ?b ?w"
    by (simp add: w3(2))
  obtain w6 :: "('k, 'z) ssys_scheme" where w6: "doPendingFunctors run ?b ?w = Inr w6" "conn_of w6 = conn_of ?w"
      "server_of w6 = server_of ?w" "chan w6 = chan ?w" "poller_of w6 = poller_of ?w" "kern w6 = kern ?w" "cur_thread w6 = cur_thread ?w"
      "loop_of w6 = (loop_of ?w)(?b := (loop_of ?w ?b)\<lparr>m_callingPendingFunctors := False\<rparr>)"
    using doPendingFunctors_none [of ?w ?b run] B(3,6) M(1) by auto
  have kern: "kern w6 = snd (sys_write os (m_wakeupFd (loop_of w l)) one_bytes (kern w5))"
    using w6(6) B(2,5) M(1,2) by (simp add: queueInLoop_def upd_loop_def wakeup_def Let_def isInLoopThread_def)
  have loops: "loop_of w6 l = (loop_of w l)\<lparr>m_pendingFunctors := m_pendingFunctors (loop_of w l) @ [ConnectEstablished_fn p]\<rparr>"
      "m_pendingFunctors (loop_of w6 ?b) = []"
    using w6(8) B(3,5,6) M(1) by simp_all
  have thread: "cur_thread w6 = cur_thread w"
    using w6(7) M(2) w4 by (simp add: polled_def)
  show ?thesis
    by (intro exI conjI, rule w4, rule w5(1), rule trans [OF pass w6(1)]) (simp_all add: w6(2-5) kern loops thread)
qed

section \<open>The establishing pass\<close>

text \<open>A loop that reads its wakeup channel, in its own thread.\<close>

definition wakeup_channel_ready :: "loop_ptr \<Rightarrow> ('k, 'z) ssys_scheme \<Rightarrow> bool" where
  "wakeup_channel_ready l w \<longleftrightarrow>
     m_readCallback (chan w (m_wakeupChannel (loop_of w l))) = Some (EventLoop_handleRead_cb l) \<and>
     \<not> m_tied (chan w (m_wakeupChannel (loop_of w l)))"

lemma polled_interest:
  fixes w w3 :: "('k, 'z) ssys_scheme"
  assumes nt: "wait_calls_neutral os interest" and ev: "one_event os l c r now k2 w"
    and p: "polled l c r now k3 w w3" and k: "interest k3 = interest k2"
  shows "same_registry interest w w3"
proof -
  obtain k1 where "sys_epoll_wait os (m_epollfd (poller_of w l)) (length (m_eventList (poller_of w l))) kPollTimeMs (kern w)
          = (Inr [\<lparr>ev_events = r, ev_ptr = c\<rparr>], k1)" "sys_time os k1 = (now, k2)"
    using ev by (auto simp: one_event_def)
  then have "interest k2 = interest (kern w)"
    using nt unfolding wait_calls_neutral_def by (metis snd_conv)
  then have i: "interest (kern w3) = interest (kern w)"
    using p k by (simp add: polled_def)
  have "\<exists>r. chan w3 x = setRevents r (chan w x)" for x
  proof (cases "x = c")
    case True
    then show ?thesis using p by (auto simp: polled_def)
  next
    case False
    then have "chan w3 x = setRevents (m_revents (chan w x)) (chan w x)"
      using p by (simp add: polled_def setRevents_def)
    then show ?thesis by blast
  qed
  then show ?thesis
    using i p by (simp add: same_registry_def polled_def)
qed

definition established :: "('k \<Rightarrow> int \<Rightarrow> int \<Rightarrow> epoll_event option) \<Rightarrow> conn_ptr \<Rightarrow> ('k, 'z) ssys_scheme \<Rightarrow> ('k, 'z) ssys_scheme \<Rightarrow> bool" where
  "established interest p v w \<longleftrightarrow>
     conn_of w = (conn_of v)(p := (conn_of v p)\<lparr>m_state := Connected\<rparr>) \<and> server_of w = server_of v \<and>
     channel_watched interest (m_channel (conn_of v p)) w = Some kReadEvent \<and>
     m_tied (chan w (m_channel (conn_of v p))) \<and> m_tie (chan w (m_channel (conn_of v p))) = Some p"

lemma connectEstablished_onlooker:
  fixes v :: "('k, 'z) ssys_scheme"
  assumes ok: "registry_ok os interest (m_channel (conn_of v p)) v" and fresh: "m_events (conn_chan p v) = 0"
    and look: "onlooker interest user"
  shows "succeeds (established interest p v) (connectEstablished os (server_hooks os user) p v)"
proof -
  obtain w2 :: "('k, 'z) ssys_scheme" where w2: "channel_watched interest (m_channel (conn_of v p)) w2 = Some kReadEvent"
      "m_tied (conn_chan p w2)" "m_tie (conn_chan p w2) = Some p" "server_kept v w2"
      "conn_of w2 = (conn_of v)(p := (conn_of v p)\<lparr>m_state := Connected\<rparr>)"
      "connectEstablished os (server_hooks os user) p v =
         call_user (m_connectionCallback (conn_of v p)) (\<lambda>cb. call_connection (server_hooks os user) cb p) w2"
    using connectEstablished_watches [OF ok fresh, of "server_hooks os user"] by blast
  have "call_connection (server_hooks os user) = call_connection user"
    by (simp add: server_hooks_def)
  then show ?thesis
    using onlooker_call [OF look, of w2 "m_connectionCallback (conn_of v p)" p] w2
    by (auto elim!: succeeds_mono simp: established_def channel_watched_def watched_def conn_chan_def server_kept_def)
qed

lemma established_loop:
  "established interest p v w \<Longrightarrow> established interest p v (upd_loop l f w)"
  by (simp add: established_def upd_loop_def channel_watched_def watched_def conn_chan_def)

text \<open>A pass that is woken up and finds one closure.\<close>

lemma woken_pass:
  fixes v :: "('k, 'z) ssys_scheme"
  assumes nt: "wait_calls_neutral os interest"
    and ev: "one_event os l (m_wakeupChannel (loop_of v l)) EPOLLIN now k2 v" and wake: "wakeup_channel_ready l v"
    and pend: "m_pendingFunctors (loop_of v l) = [f]"
  obtains v5 :: "('k, 'z) ssys_scheme" where "same_registry interest v v5" "conn_of v5 = conn_of v" "server_of v5 = server_of v"
    "cur_thread v5 = cur_thread v" "\<And>x. x \<noteq> m_wakeupChannel (loop_of v l) \<Longrightarrow> chan v5 x = chan v x"
    "loop_of v5 = (loop_of v)(l := (loop_of v l)\<lparr>m_activeChannels := [m_wakeupChannel (loop_of v l)], m_pollReturnTime := now,
       m_callingPendingFunctors := True, m_pendingFunctors := []\<rparr>)"
    "loop_pass os lock (invoke_callback os hooks dflt new) run l v =
       andThen (run f v5) (\<lambda>w. Inr (upd_loop l (\<lambda>e. e\<lparr>m_callingPendingFunctors := False\<rparr>) w))"
proof -
  let ?wc = "m_wakeupChannel (loop_of v l)" and ?invoke = "invoke_callback os hooks dflt new"
  obtain v3 :: "('k, 'z) ssys_scheme" where v3: "polled l ?wc EPOLLIN now k2 v v3"
      "loop_pass os lock ?invoke run l v = andThen (Channel_handleEvent lock ?invoke ?wc now v3) (doPendingFunctors run l)"
    using loop_pass_single [OF ev] by blast
  define v4 where "v4 = EventLoop_handleRead os l v3"
  have v4: "chan v4 = chan v3" "poller_of v4 = poller_of v3" "conn_of v4 = conn_of v3" "server_of v4 = server_of v3"
      "loop_of v4 = loop_of v3" "cur_thread v4 = cur_thread v3" "interest (kern v4) = interest (kern v3)"
    using nt by (simp_all add: v4_def EventLoop_handleRead_def wait_calls_neutral_def)
  have "Channel_handleEvent lock ?invoke ?wc now v3 = Inr v4"
    by (rule handleEvent_input [where cb = "EventLoop_handleRead_cb l"])
      (use v3(1) wake in \<open>simp_all add: v4(1) polled_def wakeup_channel_ready_def invoke_callback_def flip: v4_def\<close>)
  then have pass: "loop_pass os lock ?invoke run l v = doPendingFunctors run l v4"
    by (simp add: v3(2))
  define v5 where "v5 = upd_loop l (\<lambda>e. e\<lparr>m_pendingFunctors := []\<rparr>) (upd_loop l (\<lambda>e. e\<lparr>m_callingPendingFunctors := True\<rparr>) v4)"
  have v5: "chan v5 = chan v3" "poller_of v5 = poller_of v3" "conn_of v5 = conn_of v" "server_of v5 = server_of v"
      "cur_thread v5 = cur_thread v" "interest (kern v5) = interest (kern v3)"
    using v3(1) by (simp_all add: v5_def upd_loop_def v4 polled_def)
  have "m_pendingFunctors (loop_of (upd_loop l (\<lambda>e. e\<lparr>m_callingPendingFunctors := True\<rparr>) v4) l) = [f]"
    using pend v3(1) by (simp add: upd_loop_def v4 polled_def)
  then have run: "doPendingFunctors run l v4 = andThen (run f v5) (\<lambda>w. Inr (upd_loop l (\<lambda>e. e\<lparr>m_callingPendingFunctors := False\<rparr>) w))"
    by (simp add: doPendingFunctors_def Let_def flip: v5_def)
  have same: "same_registry interest v v5"
    using same_registry_trans [OF polled_interest [OF nt ev v3(1)] same_registryI] v5 by simp
  have "loop_of v5 = (loop_of v)(l := (loop_of v l)\<lparr>m_activeChannels := [?wc], m_pollReturnTime := now,
       m_callingPendingFunctors := True, m_pendingFunctors := []\<rparr>)"
    using v3(1) by (simp add: v5_def upd_loop_def v4 polled_def)
  moreover have "chan v5 x = chan v x" if "x \<noteq> ?wc" for x
    using v3(1) that by (simp add: v5 polled_def)
  ultimately show ?thesis
    using that [OF same v5(3-5)] pass run by simp
qed

lemma establishing_pass:
  fixes v :: "('k, 'z) ssys_scheme"
  assumes nt: "wait_calls_neutral os interest" and look: "onlooker interest user"
    and ev: "one_event os l (m_wakeupChannel (loop_of v l)) EPOLLIN now k2 v" and wake: "wakeup_channel_ready l v"
    and pend: "m_pendingFunctors (loop_of v l) = [ConnectEstablished_fn p]"
    and ok: "registry_ok os interest (m_channel (conn_of v p)) v" and fresh: "m_events (conn_chan p v) = 0"
  shows "succeeds (established interest p v)
     (loop_pass os lock (invoke_callback os (server_hooks os user) dflt new) (run_closure os (server_hooks os user) ufn) l v)"
proof -
  obtain v5 :: "('k, 'z) ssys_scheme" where same: "same_registry interest v v5" and v5: "conn_of v5 = conn_of v" "server_of v5 = server_of v"
    and pass: "loop_pass os lock (invoke_callback os (server_hooks os user) dflt new) (run_closure os (server_hooks os user) ufn) l v =
      andThen (run_closure os (server_hooks os user) ufn (ConnectEstablished_fn p) v5)
        (\<lambda>w. Inr (upd_loop l (\<lambda>e. e\<lparr>m_callingPendingFunctors := False\<rparr>) w))"
    by (rule woken_pass [OF nt ev wake pend])
  have "succeeds (established interest p v5) (connectEstablished os (server_hooks os user) p v5)"
  proof (rule connectEstablished_onlooker [OF _ _ look])
    show "registry_ok os interest (m_channel (conn_of v5 p)) v5"
      using same_registry_ok [OF same ok] by (simp add: v5)
    show "m_events (conn_chan p v5) = 0"
      using fresh same_registry_fields(3) [OF same] by (simp add: conn_chan_def v5)
  qed
  then have "succeeds (established interest p v5)
      (loop_pass os lock (invoke_callback os (server_hooks os user) dflt new) (run_closure os (server_hooks os user) ufn) l v)"
    unfolding pass by (simp add: run_closure_def) (rule succeeds_andThen, assumption, simp add: established_loop)
  then show ?thesis
    by (rule succeeds_mono) (simp add: established_def v5)
qed

section \<open>Properties\<close>

text \<open>
  C4: From the event to the connection, across two loops: when the base loop is told of input on the
  listening socket and the kernel accepts a connection, one pass of the loop enters the connection in the
  map under the next name, with the peer's address, keeps it alive, hands it to the io loop whose turn it
  is, and writes to the wakeup descriptor of that loop as its last call to the kernel; and when the io
  loop is woken up, one pass in its thread makes the connection Connected, watched by the kernel for
  input and tied to its channel, with the map as it was.
\<close>

theorem accept_reaches_connected:
  fixes w :: "('k, 'z) ssys_scheme" and os :: "'k os" and user :: "(('k, 'z) ssys_scheme) conn_hooks"
    and dflt :: inet_address and p :: conn_ptr and c :: chan_ptr
    and ufn :: "nat \<Rightarrow> ('k, 'z) ssys_scheme \<Rightarrow> ('k, 'z) ssys_scheme result"
  defines "b \<equiv> m_srvLoop (server_of w)" and "name \<equiv> connName (server_of w) (m_nextConnId (server_of w))"
    and "invoke \<equiv> invoke_callback os (server_hooks os user) dflt (\<lambda>_. (p, c))"
    and "run \<equiv> run_closure os (server_hooks os user) ufn"
  assumes "epoll_contract os interest" and "listen_calls_neutral os interest" and "socket_calls_neutral os interest"
    and "wait_calls_neutral os interest" and "onlooker interest user"
    and "one_event os b a EPOLLIN now k2 w" and "accepting_base a c l pool1 w"
    and "sys_accept4 os (m_acceptSocket (m_acceptor (server_of w))) k2 = (Inr (fd, addr), k3)"
    and "new_place interest l c fd w" and "wakeup_channel_ready l w" and "c \<noteq> m_wakeupChannel (loop_of w l)"
    and "m_pendingFunctors (loop_of w l) = []"
  shows "succeeds (\<lambda>w1. m_connections (server_of w1) = (m_connections (server_of w))(name \<mapsto> p) \<and> alive p w1 \<and>
       getName p w1 = name \<and> getLoop p w1 = l \<and> getPeerAddress p w1 = InetAddress_of addr \<and>
       m_state (conn_of w1 p) = Connecting \<and> (\<forall>q. q \<noteq> p \<longrightarrow> conn_of w1 q = conn_of w q) \<and>
       (\<exists>k. kern w1 = snd (sys_write os (m_wakeupFd (loop_of w l)) one_bytes k)) \<and>
       (\<forall>now' k'. one_event os l (m_wakeupChannel (loop_of w l)) EPOLLIN now' k' (w1\<lparr>cur_thread := m_threadId (loop_of w l)\<rparr>) \<longrightarrow>
          succeeds (\<lambda>w2. isConnected p w2 \<and> channel_watched interest c w2 = Some kReadEvent \<and> m_tie (chan w2 c) = Some p \<and>
              m_connections (server_of w2) = m_connections (server_of w1))
            (loop_pass os alive invoke run l (w1\<lparr>cur_thread := m_threadId (loop_of w l)\<rparr>))))
     (loop_pass os alive invoke run b w)"
proof -
  obtain w4 w5 w1 :: "('k, 'z) ssys_scheme" where w4: "polled b a EPOLLIN now k3 w w4"
      and w5: "connection_made os p c fd (InetAddress_of addr) l pool1 w4 w5"
      and w1: "loop_pass os alive invoke run b w = Inr w1"
      "conn_of w1 = conn_of w5" "server_of w1 = server_of w5" "chan w1 = chan w5" "poller_of w1 = poller_of w5"
      "kern w1 = snd (sys_write os (m_wakeupFd (loop_of w l)) one_bytes (kern w5))"
      "loop_of w1 l = (loop_of w l)\<lparr>m_pendingFunctors := m_pendingFunctors (loop_of w l) @ [ConnectEstablished_fn p]\<rparr>"
    using accepting_pass [OF assms(10) [unfolded b_def] assms(11,12), of p alive "server_hooks os user" dflt run]
    unfolding b_def invoke_def by blast
  let ?v = "w1\<lparr>cur_thread := m_threadId (loop_of w l)\<rparr>" and ?wc = "m_wakeupChannel (loop_of w l)"
  have same4: "conn_of w4 = conn_of w" "server_of w4 = server_of w"
    using w4 by (simp_all add: polled_def)
  note M = w5 [unfolded connection_made_def Let_def same4]
  have "interest k3 = interest k2"
    using assms(6,12) unfolding listen_calls_neutral_def by (metis snd_conv)
  then have place4: "new_place interest l c fd w4"
    using same_registry_place [OF polled_interest [OF assms(8,10) w4]] assms(13) by blast
  have i1: "interest (kern ?v) = interest (kern w5)"
    using assms(7) by (simp add: w1(6) socket_calls_neutral_def)
  have ch: "chan ?v ?wc = chan w ?wc"
  proof -
    have "?wc \<noteq> a"
      using assms(11,14) by (auto simp: accepting_base_def wakeup_channel_ready_def)
    then show ?thesis
      using assms(15) w4 M by (simp add: w1(4) polled_def)
  qed
  have next_pass: "succeeds (established interest p ?v) (loop_pass os alive invoke run l ?v)"
    if "one_event os l ?wc EPOLLIN now' k' ?v" for now' k'
    unfolding invoke_def run_def
  proof (rule establishing_pass [OF assms(8,9)])
    show "one_event os l (m_wakeupChannel (loop_of ?v l)) EPOLLIN now' k' ?v"
      using that by (simp add: w1(7))
    show "wakeup_channel_ready l ?v"
      using assms(14) ch by (simp add: wakeup_channel_ready_def w1(7))
    show "m_pendingFunctors (loop_of ?v l) = [ConnectEstablished_fn p]"
      using assms(16) by (simp add: w1(7))
    show "registry_ok os interest (m_channel (conn_of ?v p)) ?v" "m_events (conn_chan p ?v) = 0"
      by (rule made_channel_ready [OF assms(5,6) place4 w5]; use i1 in \<open>simp add: w1\<close>)+
  qed
  have facts: "m_connections (server_of w1) = (m_connections (server_of w))(name \<mapsto> p)" "m_name (conn_of w1 p) = name"
      "m_tcLoop (conn_of w1 p) = l" "m_peerAddr (conn_of w1 p) = InetAddress_of addr" "m_state (conn_of w1 p) = Connecting"
      "m_channel (conn_of w1 p) = c" "\<forall>q. q \<noteq> p \<longrightarrow> conn_of w1 q = conn_of w q"
    using M by (simp_all add: w1(2,3) name_def)
  have second: "succeeds (\<lambda>w2. isConnected p w2 \<and> channel_watched interest c w2 = Some kReadEvent \<and> m_tie (chan w2 c) = Some p \<and>
      m_connections (server_of w2) = m_connections (server_of w1)) (loop_pass os alive invoke run l ?v)"
    if "one_event os l ?wc EPOLLIN now' k' ?v" for now' k'
    by (rule succeeds_mono [OF next_pass [OF that]]) (simp add: established_def isConnected_def facts)
  have alive: "alive p w1"
    using facts by (simp add: alive_def)
  show ?thesis
    unfolding w1(1) succeeds_Inr getName_def getLoop_def getPeerAddress_def
    by (intro conjI facts alive allI impI exI, rule w1(6), rule second)
qed

text \<open>The server of TcpServer.thy with a connection waiting at its accept channel 3; loop 10 reads its
  wakeup channel 2, and the kernel reports one event at a time.\<close>

definition peer_addr :: sockaddr_in where
  "peer_addr = \<lparr>sin_family = AF_INET, sin_port = 0, sin_addr = 7\<rparr>"

definition program_world :: "simk ssys" where
  "program_world = server_world\<lparr>
     kern := boot\<lparr>k_ready := [\<lparr>ev_events = EPOLLIN, ev_ptr = 3\<rparr>, \<lparr>ev_events = EPOLLIN, ev_ptr = 2\<rparr>], k_accept := [(40, peer_addr)]\<rparr>,
     chan := (chan server_world)(3 := setReadCallback Acceptor_handleRead_cb (Channel_ctor 0 9),
                2 := setReadCallback (EventLoop_handleRead_cb 10) (Channel_ctor 10 5)),
     poller_of := (\<lambda>l. \<lparr>m_channels = (\<lambda>_. None), m_epollfd = 30 + int l, m_eventList = [\<lparr>ev_events = 0, ev_ptr = 0\<rparr>]\<rparr>)\<rparr>"

lemma sim_wait_neutral: "wait_calls_neutral sim_os k_interest"
  by (simp add: wait_calls_neutral_def)

lemma sim_write_ready: "k_ready (snd (sim_write fd bs k)) = k_ready k"
  by (simp add: sim_write_def Let_def split: option.split)

lemma program_world_ready:
  "one_event sim_os (m_srvLoop (server_of program_world)) 3 EPOLLIN 0
     (boot\<lparr>k_ready := [\<lparr>ev_events = EPOLLIN, ev_ptr = 2\<rparr>], k_accept := [(40, peer_addr)]\<rparr>) program_world"
  "accepting_base 3 15 10 ((EventLoopThreadPool_ctor 0 ''s'')\<lparr>m_loops := [10, 11], m_next := 1\<rparr>) program_world"
  "new_place k_interest 10 15 40 program_world" "wakeup_channel_ready 10 program_world"
  "m_wakeupChannel (loop_of program_world 10) = 2" "m_pendingFunctors (loop_of program_world 10) = []"
  "m_srvLoop (server_of program_world) = 0" "m_threadId (loop_of program_world 10) = 20"
proof -
  have w: "m_acceptSocket (m_acceptor (server_of server_world)) = 9" "m_newConnectionCallback (m_acceptor (server_of server_world)) = Some server_cb"
      "\<And>l. m_pendingFunctors (loop_of server_world l) = []" "\<And>l. m_wakeupChannel (loop_of server_world l) = 2"
    by (simp_all add: server_world_def)
  show "one_event sim_os (m_srvLoop (server_of program_world)) 3 EPOLLIN 0
     (boot\<lparr>k_ready := [\<lparr>ev_events = EPOLLIN, ev_ptr = 2\<rparr>], k_accept := [(40, peer_addr)]\<rparr>) program_world"
    by (simp add: one_event_def program_world_def)
  show "accepting_base 3 15 10 ((EventLoopThreadPool_ctor 0 ''s'')\<lparr>m_loops := [10, 11], m_next := 1\<rparr>) program_world"
    using server_world_pool(3)
    by (simp add: accepting_base_def program_world_def w setReadCallback_def Channel_ctor_def isInLoopThread_def)
  show "new_place k_interest 10 15 40 program_world"
    by (simp add: new_place_def poller_inv_def program_world_def boot_def setReadCallback_def Channel_ctor_def status_values)
  show "wakeup_channel_ready 10 program_world"
    by (simp add: wakeup_channel_ready_def program_world_def w setReadCallback_def Channel_ctor_def)
  show "m_wakeupChannel (loop_of program_world 10) = 2" "m_pendingFunctors (loop_of program_world 10) = []"
    "m_srvLoop (server_of program_world) = 0" "m_threadId (loop_of program_world 10) = 20"
    by (simp_all add: program_world_def w)
qed

lemma program_world_accepts:
  "sys_accept4 sim_os (m_acceptSocket (m_acceptor (server_of program_world)))
      (boot\<lparr>k_ready := [\<lparr>ev_events = EPOLLIN, ev_ptr = 2\<rparr>], k_accept := [(40, peer_addr)]\<rparr>)
   = (Inr (40, peer_addr), boot\<lparr>k_ready := [\<lparr>ev_events = EPOLLIN, ev_ptr = 2\<rparr>], k_accept := []\<rparr>)"
  by simp

lemma program_world_second:
  assumes "loop_pass sim_os alive (invoke_callback sim_os hooks dflt (\<lambda>_. (5, 15))) run 0 program_world = Inr w1"
  shows "\<exists>k'. one_event sim_os 10 2 EPOLLIN 0 k' (w1\<lparr>cur_thread := t\<rparr>)"
proof -
  let ?k3 = "boot\<lparr>k_ready := [\<lparr>ev_events = EPOLLIN, ev_ptr = 2\<rparr>], k_accept := []\<rparr>"
  obtain w4 w5 :: "simk ssys" where w4: "polled 0 3 EPOLLIN 0 ?k3 program_world w4"
      and w5: "connection_made sim_os 5 15 40 (InetAddress_of peer_addr) 10
        ((EventLoopThreadPool_ctor 0 ''s'')\<lparr>m_loops := [10, 11], m_next := 1\<rparr>) w4 w5"
      and w1: "poller_of w1 = poller_of w5" "kern w1 = snd (sim_write (m_wakeupFd (loop_of program_world 10)) one_bytes (kern w5))"
    using accepting_pass [OF program_world_ready(1,2) program_world_accepts, of 5 alive hooks dflt run] assms
    by (auto simp: program_world_ready(7))
  have "kern w5 = ?k3" "poller_of w5 10 = poller_of program_world 10"
    using w4 w5 by (simp_all add: polled_def connection_made_def Let_def)
  then have "k_ready (kern w1) = [\<lparr>ev_events = EPOLLIN, ev_ptr = 2\<rparr>]" "poller_of w1 10 = poller_of program_world 10"
    by (simp_all add: w1 sim_write_ready)
  then show ?thesis
    by (simp add: one_event_def program_world_def)
qed

theorem accept_reaches_connected_witness:
  "succeeds (\<lambda>w1. alive 5 w1 \<and> getPeerAddress 5 w1 = InetAddress_of peer_addr \<and>
       succeeds (\<lambda>w2. isConnected 5 w2 \<and> channel_watched k_interest 15 w2 = Some kReadEvent)
         (loop_pass sim_os alive (invoke_callback sim_os (server_hooks sim_os silent_hooks) (InetAddress_of peer_addr) (\<lambda>_. (5, 15)))
            (run_closure sim_os (server_hooks sim_os silent_hooks) (\<lambda>_. Inr)) 10 (w1\<lparr>cur_thread := 20\<rparr>)))
     (loop_pass sim_os alive (invoke_callback sim_os (server_hooks sim_os silent_hooks) (InetAddress_of peer_addr) (\<lambda>_. (5, 15)))
        (run_closure sim_os (server_hooks sim_os silent_hooks) (\<lambda>_. Inr)) 0 program_world)"
proof -
  have "(15 :: chan_ptr) \<noteq> m_wakeupChannel (loop_of program_world 10)"
    by (simp add: program_world_ready(5))
  note * = accept_reaches_connected [OF sim_epoll sim_listen_neutral sim_neutral sim_wait_neutral silent_onlooker
      program_world_ready(1,2) program_world_accepts program_world_ready(3,4) this program_world_ready(6), where p = 5
      and ufn = "\<lambda>_. Inr" and dflt = "InetAddress_of peer_addr"]
  show ?thesis
    by (rule succeeds_mono [OF succeeds_with [OF * [unfolded program_world_ready(5,7,8)]]])
      (simp, use program_world_second [where hooks = "server_hooks sim_os silent_hooks" and t = 20] in \<open>fastforce elim: succeeds_mono\<close>)
qed

end
