(* ===== verification/Handlers.thy ===== *)
theory Handlers
  imports Program
begin

text \<open>
  What the handlers of a connection keep, for any relation between worlds that the elementary changes of
  the code keep. \<open>handler_law\<close> states the elementary laws, its lemmas go through every handler and through
  \<open>handleEvent\<close> once and for all; \<open>closure_law\<close> adds what the queued closures do. Lifetime, Confinement and
  Isolation interpret them.
\<close>

section \<open>The callbacks of a connection's channel\<close>

definition conn_callbacks :: "chan_ptr \<Rightarrow> ('k, 'z) ssys_scheme \<Rightarrow> callback option list" where
  "conn_callbacks c w = [m_readCallback (chan w c), m_writeCallback (chan w c), channel.m_closeCallback (chan w c), m_errorCallback (chan w c)]"

definition calls_back :: "conn_ptr \<Rightarrow> ('k, 'z) ssys_scheme \<Rightarrow> bool" where
  "calls_back p w \<longleftrightarrow> conn_callbacks (m_channel (conn_of w p)) w =
     [Some (TcpConnection_handleRead_cb p), Some (TcpConnection_handleWrite_cb p),
      Some (TcpConnection_handleClose_cb p), Some (TcpConnection_handleError_cb p)]"

section \<open>The laws\<close>

text \<open>
  \<open>I\<close> is what holds of a world, \<open>R\<close> what a change keeps, \<open>A p\<close> says when the connection \<open>p\<close> may be worked on,
  and \<open>D p\<close> when it may be reported closed.
\<close>

locale handler_law =
  fixes os :: "'k os" and hooks :: "(('k, 'z) ssys_scheme) conn_hooks"
    and I :: "('k, 'z) ssys_scheme \<Rightarrow> bool" and R :: "('k, 'z) ssys_scheme \<Rightarrow> ('k, 'z) ssys_scheme \<Rightarrow> bool"
    and A D :: "conn_ptr \<Rightarrow> ('k, 'z) ssys_scheme \<Rightarrow> bool"
  assumes keeps_refl: "I w \<Longrightarrow> R w w"
    and keeps_trans: "R w w1 \<Longrightarrow> R w1 w2 \<Longrightarrow> R w w2"
    and keeps_inv: "I w \<Longrightarrow> R w w1 \<Longrightarrow> I w1"
    and keeps_at: "R w w1 \<Longrightarrow> A p w \<Longrightarrow> A p w1"
    and keeps_down: "R w w1 \<Longrightarrow> A p w \<Longrightarrow> D p w \<Longrightarrow> D p w1"
    and keeps_channel: "R w w1 \<Longrightarrow> A p w \<Longrightarrow> m_channel (conn_of w1 p) = m_channel (conn_of w p)"
    and callbacks: "I w \<Longrightarrow> A p w \<Longrightarrow> calls_back p w"
    and kern_step: "I w \<Longrightarrow> R w (w\<lparr>kern := k\<rparr>)"
    and input_step: "I w \<Longrightarrow> A p w \<Longrightarrow> R w (upd_conn p (\<lambda>t. t\<lparr>m_inputBuffer := b\<rparr>) w)"
    and output_step: "I w \<Longrightarrow> A p w \<Longrightarrow> R w (upd_conn p (\<lambda>t. t\<lparr>m_outputBuffer := h t\<rparr>) w)"
    and tie_step: "I w \<Longrightarrow> A p w \<Longrightarrow> R w (upd_chan (m_channel (conn_of w p)) (Channel_tie p) w)"
    and mask_step: "I w \<Longrightarrow> A p w \<Longrightarrow> holds (R w) (change_mask os g (m_channel (conn_of w p)) w)"
    and down_step: "I w \<Longrightarrow> A p w \<Longrightarrow> R w (setState p Disconnected w)"
    and down_sets: "A p w \<Longrightarrow> D p (setState p Disconnected w)"
    and complete_step: "I w \<Longrightarrow> A p w \<Longrightarrow> R w (queueInLoop os (m_tcLoop (conn_of w p)) (WriteComplete_fn p) w)"
    and mark_step: "I w \<Longrightarrow> A p w \<Longrightarrow> R w (queueInLoop os (m_tcLoop (conn_of w p)) (HighWaterMark_fn p n) w)"
    and connection_call: "I w \<Longrightarrow> A p w \<Longrightarrow> holds (R w) (call_connection hooks cb p w)"
    and message_call: "I w \<Longrightarrow> A p w \<Longrightarrow> holds (R w) (call_message hooks cb p t w)"
    and close_call: "I w \<Longrightarrow> A p w \<Longrightarrow> D p w \<Longrightarrow> holds (R w) (call_close hooks cb p w)"
begin

subsection \<open>Sequencing\<close>

lemma via:
  assumes "R w w1" and "holds (R w1) r"
  shows "holds (R w) r"
  using assms by (auto elim!: holds_mono intro: keeps_trans)

lemma thenI:
  assumes "holds (R w) r" and "\<And>w1. R w w1 \<Longrightarrow> holds (R w1) (f w1)"
  shows "holds (R w) (andThen r f)"
  by (rule holds_andThen [OF assms(1)]) (blast intro: via assms(2))

lemma ignoreI: "(\<And>x. holds P (f x)) \<Longrightarrow> holds P (andThen r f)"
  by (cases r) simp_all

lemma call_userI:
  assumes "I w" and "\<And>f. holds (R w) (call f w)"
  shows "holds (R w) (call_user cb call w)"
  using assms by (simp add: call_user_def keeps_refl split: option.split)

lemma user_calls:
  assumes "I w" and "A p w"
  shows "holds (R w) (call_user cb (\<lambda>cb. call_connection hooks cb p) w)"
    "holds (R w) (call_user cb (\<lambda>cb. call_message hooks cb p t) w)"
    "D p w \<Longrightarrow> holds (R w) (call_user cb (\<lambda>cb. call_close hooks cb p) w)"
  by (rule call_userI, simp_all add: assms connection_call message_call close_call)+

lemma mask_ops:
  assumes "I w" and "A p w" and "R w w1" and "c = m_channel (conn_of w p)"
  shows "holds (R w1) (enableReading os c w1)" "holds (R w1) (enableWriting os c w1)"
    "holds (R w1) (disableWriting os c w1)" "holds (R w1) (disableAll os c w1)"
  using mask_step [OF keeps_inv [OF assms(1,3)] keeps_at [OF assms(3,2)]] keeps_channel [OF assms(3,2)] assms(4)
  by (simp_all add: channel_ops_change_mask)

subsection \<open>The handlers\<close>

lemma handleClose_keeps:
  assumes "I w" and "A p w"
  shows "holds (R w) (TcpConnection_handleClose os hooks p w)"
proof -
  let ?w1 = "setState p Disconnected w"
  have w1: "R w ?w1" by (rule down_step [OF assms])
  have "holds (R ?w1) (TcpConnection_handleClose os hooks p w)"
    unfolding TcpConnection_handleClose_def Let_def
  proof (rule thenI)
    show "holds (R ?w1) (disableAll os (m_channel (conn_of ?w1 p)) ?w1)"
      by (rule mask_ops(4) [OF assms w1 keeps_channel [OF w1 assms(2)]])
    fix w2 assume "R ?w1 w2"
    then have w2: "R w w2" and d2: "D p w2"
      using keeps_trans [OF w1] keeps_down keeps_at [OF w1 assms(2)] down_sets [OF assms(2)] by blast+
    show "holds (R w2) (andThen (call_user (m_connectionCallback (conn_of w2 p)) (\<lambda>cb. call_connection hooks cb p) w2)
        (\<lambda>w3. call_user (tcpconn.m_closeCallback (conn_of w3 p)) (\<lambda>cb. call_close hooks cb p) w3))"
      by (rule thenI [OF user_calls(1)], intro keeps_inv [OF assms(1) w2], intro keeps_at [OF w2 assms(2)], rule user_calls(3))
        (blast intro: keeps_inv keeps_at keeps_down assms w2 d2)+
  qed
  then show ?thesis by (rule via [OF w1])
qed

lemma handleError_keeps: "I w \<Longrightarrow> holds (R w) (TcpConnection_handleError os p w)"
  by (simp add: TcpConnection_handleError_def kern_step)

lemma shutdownInLoop_keeps: "I w \<Longrightarrow> holds (R w) (shutdownInLoop os p w)"
  by (simp add: shutdownInLoop_def kern_step keeps_refl)

lemma handleRead_keeps:
  assumes "I w" and "A p w"
  shows "holds (R w) (TcpConnection_handleRead os hooks p t w)"
proof -
  have "holds (R w) (case res of
            Inr n \<Rightarrow>
              if 0 < n then call_user (m_messageCallback (conn_of w1 p)) (\<lambda>cb. call_message hooks cb p t) w1
              else TcpConnection_handleClose os hooks p w1
          | Inl savedErrno \<Rightarrow> TcpConnection_handleError os p w1)"
    if w1: "w1 = upd_conn p (\<lambda>t. t\<lparr>m_inputBuffer := b\<rparr>) (w\<lparr>kern := k'\<rparr>)" for res :: "errno + nat" and b k' w1
  proof -
    have "R w (w\<lparr>kern := k'\<rparr>)" by (rule kern_step [OF assms(1)])
    from keeps_trans [OF this input_step [OF keeps_inv [OF assms(1) this] keeps_at [OF this assms(2)]]]
    have r: "R w w1" by (simp only: w1)
    note at = keeps_inv [OF assms(1) r] keeps_at [OF r assms(2)]
    show ?thesis
      by (rule via [OF r])
        (simp split: sum.split add: user_calls(2) [OF at] handleError_keeps [OF at(1)] handleClose_keeps [OF at])
  qed
  then show ?thesis
    by (auto simp: TcpConnection_handleRead_def Let_def split: prod.split intro!: ignoreI)
qed

lemma written_keeps:
  assumes "I w3" and "A p w3"
  shows "holds (R w3) (let w4 = (if m_writeCompleteCallback (conn_of w3 p) \<noteq> None
                 then queueInLoop os (m_tcLoop (conn_of w3 p)) (WriteComplete_fn p) w3 else w3)
       in if m_state (conn_of w4 p) = Disconnecting then shutdownInLoop os p w4 else Inr w4)"
proof -
  define w4 where "w4 = (if m_writeCompleteCallback (conn_of w3 p) \<noteq> None
                 then queueInLoop os (m_tcLoop (conn_of w3 p)) (WriteComplete_fn p) w3 else w3)"
  have "R w3 w4"
    by (simp add: w4_def complete_step assms keeps_refl)
  then show ?thesis
    unfolding Let_def w4_def [symmetric] by (simp add: via shutdownInLoop_keeps keeps_inv [OF assms(1)])
qed

lemma handleWrite_keeps:
  assumes "I w" and "A p w"
  shows "holds (R w) (TcpConnection_handleWrite os p w)"
proof -
  have k: "R w (w\<lparr>kern := k'\<rparr>)" for k' by (rule kern_step [OF assms(1)])
  have o: "R w (upd_conn p (\<lambda>t. t\<lparr>m_outputBuffer := h t\<rparr>) (w\<lparr>kern := k'\<rparr>))" for h k'
    by (rule keeps_trans [OF k output_step [OF keeps_inv [OF assms(1) k] keeps_at [OF k assms(2)]]])
  have "holds (R w) (andThen (disableWriting os (m_channel (conn_of w p)) w2) (\<lambda>w3.
       let w4 = (if m_writeCompleteCallback (conn_of w3 p) \<noteq> None
                 then queueInLoop os (m_tcLoop (conn_of w3 p)) (WriteComplete_fn p) w3 else w3)
       in if m_state (conn_of w4 p) = Disconnecting then shutdownInLoop os p w4 else Inr w4))" if w2: "R w w2" for w2
    by (rule via [OF w2], rule thenI [OF mask_ops(3) [OF assms w2 refl]], rule written_keeps)
      (blast intro: keeps_inv keeps_at keeps_trans w2 assms)+
  then show ?thesis
    unfolding TcpConnection_handleWrite_def Let_def [of "conn_of w p"] Let_def [of "m_channel (conn_of w p)"]
    by (auto simp: Let_def [of "upd_conn _ _ _"] Let_def [of "w\<lparr>kern := _\<rparr>"] k o keeps_refl [OF assms(1)] split: sum.split intro!: ignoreI)
qed

lemma send_rest_keeps:
  assumes "I w" and "A p w"
  shows "holds (R w) (send_rest os p d n r e w)"
proof -
  let ?t = "conn_of w p"
  let ?old = "readableBytes (m_outputBuffer ?t)"
  define w1 where "w1 = (if m_highWaterMark ?t \<le> ?old + r \<and> ?old < m_highWaterMark ?t \<and> m_highWaterMarkCallback ?t \<noteq> None
                  then queueInLoop os (m_tcLoop ?t) (HighWaterMark_fn p (?old + r)) w else w)"
  have w1: "R w w1"
    by (simp add: w1_def mark_step assms keeps_refl)
  have "holds (R w) (let w2 = upd_conn p (\<lambda>t. t\<lparr>m_outputBuffer := b\<rparr>) w1; c = m_channel (conn_of w2 p)
      in if \<not> isWriting (chan w2 c) then enableWriting os c w2 else Inr w2)" for b
  proof -
    define w2 where "w2 = upd_conn p (\<lambda>t. t\<lparr>m_outputBuffer := b\<rparr>) w1"
    have w2: "R w w2"
      unfolding w2_def by (rule keeps_trans [OF w1]) (intro output_step keeps_inv [OF assms(1) w1] keeps_at [OF w1 assms(2)])
    show ?thesis
      using via [OF w2 mask_ops(2) [OF assms w2 keeps_channel [OF w2 assms(2)]]] w2 by (simp add: Let_def flip: w2_def)
  qed
  then show ?thesis
    unfolding send_rest_def Let_def w1_def [symmetric] by (simp add: keeps_refl assms(1) ignoreI)
qed

lemma sendInLoop_keeps:
  assumes "I w" and "A p w"
  shows "holds (R w) (sendInLoop os p d w)"
proof -
  have k: "R w (w\<lparr>kern := k\<rparr>)" for k by (rule kern_step [OF assms(1)])
  have q: "R w (queueInLoop os (m_tcLoop (conn_of w p)) (WriteComplete_fn p) (w\<lparr>kern := k\<rparr>))" for k
    using keeps_trans [OF k complete_step [OF keeps_inv [OF assms(1) k] keeps_at [OF k assms(2)]]] by simp
  have "holds (R w) (send_rest os p d n r e w1)" if "R w w1" for n r e w1
    using that by (intro via [OF that] send_rest_keeps keeps_inv [OF assms(1)] keeps_at [OF _ assms(2)])
  then show ?thesis
    unfolding sendInLoop_def Let_def using k q keeps_refl [OF assms(1)] by (auto split: prod.split sum.split)
qed

text \<open>The part of \<open>connectEstablished\<close> after the state has been set.\<close>

lemma established_keeps:
  assumes "I w" and "A p w" and "c = m_channel (conn_of w p)"
  shows "holds (R w) (andThen (enableReading os c (upd_chan c (Channel_tie p) w)) (\<lambda>w3.
      call_user (m_connectionCallback (conn_of w3 p)) (\<lambda>cb. call_connection hooks cb p) w3))"
proof -
  let ?w2 = "upd_chan c (Channel_tie p) w"
  have w2: "R w ?w2" unfolding assms(3) by (rule tie_step [OF assms(1,2)])
  note at = keeps_inv [OF assms(1) w2] keeps_at [OF w2 assms(2)]
  show ?thesis
    by (rule via [OF w2], rule thenI [OF mask_ops(1) [OF assms(1,2) w2 assms(3)]], rule user_calls(1))
      (blast intro: keeps_inv keeps_at at)+
qed

subsection \<open>Handling the events of the channel\<close>

lemma invoke_keeps:
  assumes "I w" and "A p w" and "cb \<in> set (conn_callbacks (m_channel (conn_of w p)) w)"
  shows "holds (R w) (if b then call_opt (invoke_callback os hooks dflt new) cb t w else Inr w)"
  using callbacks [OF assms(1,2)] assms keeps_refl [OF assms(1)] handleRead_keeps [OF assms(1,2)]
    handleWrite_keeps [OF assms(1,2)] handleClose_keeps [OF assms(1,2)] handleError_keeps [OF assms(1)]
  by (auto simp: calls_back_def call_opt_def invoke_callback_def)

lemma handleEvent_keeps:
  assumes "I w" and "A p w"
  shows "holds (R w) (Channel_handleEvent lock (invoke_callback os hooks dflt new) (m_channel (conn_of w p)) t w)"
proof -
  have one: "holds (R w1) (if b then call_opt (invoke_callback os hooks dflt new) cb t w1 else Inr w1)"
    if w1: "R w w1" and "cb \<in> set (conn_callbacks (m_channel (conn_of w p)) w1)" for b cb w1
    using that(2) keeps_channel [OF w1 assms(2)]
    by (intro invoke_keeps [OF keeps_inv [OF assms(1) w1] keeps_at [OF w1 assms(2)]]) simp
  have "holds (R w) (handleEventWithGuard (invoke_callback os hooks dflt new) (m_channel (conn_of w p)) t w)"
    unfolding handleEventWithGuard_def Let_def
    by (intro thenI one) (auto simp: conn_callbacks_def intro: keeps_refl [OF assms(1)] keeps_trans)
  then show ?thesis
    by (simp add: Channel_handleEvent_def keeps_refl assms(1) split: option.split)
qed

end

section \<open>The closures a loop runs for a connection\<close>

text \<open>The connection whose loop has to run a closure; taking a connection out of the map is the base loop's.\<close>

fun loop_work :: "closure \<Rightarrow> conn_ptr option" where
  "loop_work (SendInLoop_fn p bs) = Some p"
| "loop_work (WriteComplete_fn p) = Some p"
| "loop_work (HighWaterMark_fn p n) = Some p"
| "loop_work (ShutdownInLoop_fn p) = Some p"
| "loop_work (ConnectEstablished_fn p) = Some p"
| "loop_work (ConnectDestroyed_fn p) = Some p"
| "loop_work (RemoveConnectionInLoop_fn p) = None"
| "loop_work Listen_fn = None"
| "loop_work (User_fn n) = None"

locale closure_law = handler_law os hooks I R A D
  for os :: "'k os" and hooks :: "(('k, 'z) ssys_scheme) conn_hooks" and I R A D +
  assumes state_step: "I w \<Longrightarrow> A p w \<Longrightarrow> R w (setState p st w)"
    and remove_step: "I w \<Longrightarrow> A p w \<Longrightarrow> holds (R w) (Channel_remove os (m_channel (conn_of w p)) w)"
    and complete_call: "I w \<Longrightarrow> A p w \<Longrightarrow> holds (R w) (call_writeComplete hooks cb p w)"
    and mark_call: "I w \<Longrightarrow> A p w \<Longrightarrow> holds (R w) (call_highWaterMark hooks cb p n w)"
begin

lemma establishing_keeps:
  assumes "I w" and "A p w"
  shows "holds (R w) (connectEstablished os hooks p w)"
proof -
  have w1: "R w (setState p Connected w)" by (rule state_step [OF assms])
  show ?thesis
    unfolding connectEstablished_def Let_def
    by (rule via [OF w1 established_keeps [OF keeps_inv [OF assms(1) w1] keeps_at [OF w1 assms(2)] refl]])
qed

lemma destroying_keeps:
  assumes "I w" and "A p w"
  shows "holds (R w) (connectDestroyed os hooks p w)"
  unfolding connectDestroyed_def
proof (rule thenI)
  let ?w0 = "setState p Disconnected w"
  have w0: "R w ?w0" by (rule state_step [OF assms])
  have "holds (R ?w0) (andThen (disableAll os (m_channel (conn_of ?w0 p)) ?w0) (\<lambda>w1.
      call_user (m_connectionCallback (conn_of w1 p)) (\<lambda>cb. call_connection hooks cb p) w1))"
    by (rule thenI [OF mask_ops(4) [OF assms w0 keeps_channel [OF w0 assms(2)]] user_calls(1)])
      (blast intro: keeps_inv keeps_at w0 assms)+
  then show "holds (R w) (if m_state (conn_of w p) = Connected then let w0 = ?w0 in
      andThen (disableAll os (m_channel (conn_of w0 p)) w0) (\<lambda>w1.
        call_user (m_connectionCallback (conn_of w1 p)) (\<lambda>cb. call_connection hooks cb p) w1) else Inr w)"
    using via [OF w0] keeps_refl [OF assms(1)] by (simp add: Let_def)
qed (blast intro: remove_step keeps_inv keeps_at assms)

lemma shutdown_keeps:
  assumes "I w" and "A p w" and "isInLoopThread (m_tcLoop (conn_of w p)) w"
  shows "holds (R w) (TcpConnection_shutdown os p w)"
proof -
  have w1: "R w (setState p Disconnecting w)" by (rule state_step [OF assms(1,2)])
  show ?thesis
    using assms(3) via [OF w1 shutdownInLoop_keeps [OF keeps_inv [OF assms(1) w1]]] keeps_refl [OF assms(1)]
    by (simp add: TcpConnection_shutdown_def Let_def runInLoop_def isInLoopThread_def)
qed

lemma loop_work_keeps:
  assumes "I w" and "A p w" and "loop_work f = Some p"
  shows "holds (R w) (run_closure os hooks ufn f w)"
  using assms(3)
  by (cases f) (auto simp: run_closure_def sendInLoop_keeps shutdownInLoop_keeps establishing_keeps
      destroying_keeps call_userI complete_call mark_call assms)

end

end
