(* ===== verification/Lifetime.thy ===== *)
theory Lifetime
  imports Handlers
begin

text \<open>
  The lifetime of connections across all threads of a running server. A step is what one thread does
  without giving up control: the base thread accepts a connection, a loop runs its next closure or lets a
  channel handle its events, any thread calls \<open>send\<close> or \<open>shutdown\<close>. The raw pointers to channels in the
  kernel and in the pollers stay good because a registered channel belongs to a connection that the map or
  a queued \<open>connectDestroyed\<close> still holds.
\<close>

section \<open>What keeps a connection\<close>

definition in_map :: "conn_ptr \<Rightarrow> ('k, 'z) ssys_scheme \<Rightarrow> bool" where
  "in_map p w \<longleftrightarrow> m_connections (server_of w) (m_name (conn_of w p)) = Some p"

definition pending :: "loop_ptr \<Rightarrow> ('k, 'z) ssys_scheme \<Rightarrow> closure list" where
  "pending l w = m_pendingFunctors (loop_of w l)"

definition kept_alive :: "conn_ptr \<Rightarrow> ('k, 'z) ssys_scheme \<Rightarrow> bool" where
  "kept_alive p w \<longleftrightarrow> in_map p w \<or> ConnectDestroyed_fn p \<in> set (pending (m_tcLoop (conn_of w p)) w)"

definition registered :: "conn_ptr \<Rightarrow> ('k, 'z) ssys_scheme \<Rightarrow> bool" where
  "registered p w \<longleftrightarrow> m_channelStatus (conn_chan p w) = kStatusAdded"

lemma kept_alive_alive: "kept_alive p w \<Longrightarrow> alive p w"
  by (auto simp: kept_alive_def in_map_def alive_def pending_def holds_conn_def list_ex_iff)

section \<open>The invariant\<close>

text \<open>What a closure queued in loop \<open>l\<close> says of its connection; \<open>P\<close> are the connections made so far.\<close>

fun closure_ok :: "conn_ptr set \<Rightarrow> ('k, 'z) ssys_scheme \<Rightarrow> loop_ptr \<Rightarrow> closure \<Rightarrow> bool" where
  "closure_ok P w l (SendInLoop_fn p bs) \<longleftrightarrow> p \<in> P \<and> m_state (conn_of w p) \<noteq> Connecting"
| "closure_ok P w l (WriteComplete_fn p) \<longleftrightarrow> p \<in> P"
| "closure_ok P w l (HighWaterMark_fn p n) \<longleftrightarrow> p \<in> P"
| "closure_ok P w l (ShutdownInLoop_fn p) \<longleftrightarrow> p \<in> P"
| "closure_ok P w l (ConnectEstablished_fn p) \<longleftrightarrow>
     p \<in> P \<and> in_map p w \<and> m_state (conn_of w p) = Connecting \<and> l = m_tcLoop (conn_of w p)"
| "closure_ok P w l (ConnectDestroyed_fn p) \<longleftrightarrow> p \<in> P \<and> m_state (conn_of w p) = Disconnected"
| "closure_ok P w l (RemoveConnectionInLoop_fn p) \<longleftrightarrow> p \<in> P \<and> m_state (conn_of w p) = Disconnected"
| "closure_ok P w l Listen_fn \<longleftrightarrow> False"
| "closure_ok P w l (User_fn n) \<longleftrightarrow> True"

text \<open>Names by the order of acceptance, under the scheme of the server \<open>s0\<close>.\<close>

definition names_ok :: "tcpserver \<Rightarrow> conn_ptr list \<Rightarrow> ('k, 'z) ssys_scheme \<Rightarrow> bool" where
  "names_ok s0 ps w \<longleftrightarrow> connName (server_of w) = connName s0 \<and> m_nextConnId (server_of w) = of_nat (Suc (length ps)) \<and>
     length ps < 2 ^ 32 \<and> (\<forall>i<length ps. m_name (conn_of w (ps ! i)) = connName s0 (of_nat (Suc i)))"

text \<open>Every connection has a channel of its own, which calls back to it.\<close>

definition chans_ok :: "conn_ptr list \<Rightarrow> ('k, 'z) ssys_scheme \<Rightarrow> bool" where
  "chans_ok ps w \<longleftrightarrow> inj_on (\<lambda>p. m_channel (conn_of w p)) (set ps) \<and>
     (\<forall>p \<in> set ps. conn_callbacks (m_channel (conn_of w p)) w =
        [Some (TcpConnection_handleRead_cb p), Some (TcpConnection_handleWrite_cb p),
         Some (TcpConnection_handleClose_cb p), Some (TcpConnection_handleError_cb p)])"

definition conn_ok :: "('k, 'z) ssys_scheme \<Rightarrow> conn_ptr \<Rightarrow> bool" where
  "conn_ok w p \<longleftrightarrow> (registered p w \<longrightarrow> kept_alive p w \<and> m_state (conn_of w p) \<noteq> Connecting) \<and>
     (\<not> in_map p w \<longrightarrow> m_state (conn_of w p) = Disconnected)"

definition queues_ok :: "conn_ptr list \<Rightarrow> ('k, 'z) ssys_scheme \<Rightarrow> bool" where
  "queues_ok ps w \<longleftrightarrow> (\<forall>l. list_all (closure_ok (set ps) w l) (pending l w) \<and>
     (\<forall>p. count_list (pending l w) (ConnectEstablished_fn p) \<le> 1))"

definition life_inv :: "tcpserver \<Rightarrow> conn_ptr list \<Rightarrow> ('k, 'z) ssys_scheme \<Rightarrow> bool" where
  "life_inv s0 ps w \<longleftrightarrow> names_ok s0 ps w \<and> chans_ok ps w \<and> (\<forall>p \<in> set ps. conn_ok w p) \<and> queues_ok ps w"

text \<open>What a step never takes back.\<close>

definition follows :: "conn_ptr list \<Rightarrow> ('k, 'z) ssys_scheme \<Rightarrow> ('k, 'z) ssys_scheme \<Rightarrow> bool" where
  "follows ps w w' \<longleftrightarrow> (\<forall>p \<in> set ps.
     m_channel (conn_of w' p) = m_channel (conn_of w p) \<and> m_tcLoop (conn_of w' p) = m_tcLoop (conn_of w p) \<and>
     (m_state (conn_of w p) = Disconnected \<longrightarrow> m_state (conn_of w' p) = Disconnected) \<and>
     (m_state (conn_of w p) \<noteq> Connecting \<longrightarrow> m_state (conn_of w' p) \<noteq> Connecting) \<and>
     (kept_alive p w \<longrightarrow> kept_alive p w'))"

definition lives :: "tcpserver \<Rightarrow> conn_ptr list \<Rightarrow> ('k, 'z) ssys_scheme \<Rightarrow> ('k, 'z) ssys_scheme \<Rightarrow> bool" where
  "lives s0 ps w w' \<longleftrightarrow> life_inv s0 ps w' \<and> follows ps w w'"

lemma follows_refl: "follows ps w w"
  by (simp add: follows_def)

lemma follows_trans: "follows ps w w1 \<Longrightarrow> follows ps w1 w2 \<Longrightarrow> follows ps w w2"
  by (simp add: follows_def)

lemma lives_trans: "follows ps w w1 \<Longrightarrow> lives s0 ps w1 w2 \<Longrightarrow> lives s0 ps w w2"
  by (auto simp: lives_def intro: follows_trans)

lemma lives_step [trans]: "lives s0 ps w w1 \<Longrightarrow> lives s0 ps w1 w2 \<Longrightarrow> lives s0 ps w w2"
  by (auto simp: lives_def intro: follows_trans)

lemma lives_refl: "life_inv s0 ps w \<Longrightarrow> lives s0 ps w w"
  by (simp add: lives_def follows_refl)

lemma name_inject:
  assumes "names_ok s0 ps w" and "p \<in> set ps" and "q \<in> set ps" and "m_name (conn_of w p) = m_name (conn_of w q)"
  shows "p = q"
proof -
  obtain i j where "i < length ps" "p = ps ! i" "j < length ps" "q = ps ! j"
    using assms(2,3) by (metis in_set_conv_nth)
  then show ?thesis
    using assms(1,4) connection_id_inject [of "Suc i" "length ps" "Suc j"] by (simp add: names_ok_def connName_inject)
qed

section \<open>Elementary changes\<close>

lemma life_closure:
  "life_inv s0 ps w \<Longrightarrow> f \<in> set (pending l w) \<Longrightarrow> closure_ok (set ps) w l f"
  by (auto simp: life_inv_def queues_ok_def list_all_iff)

text \<open>Everything the invariant looks at, but for the state of \<open>p\<close>, the status of its channel, and what
  is appended to the queues.\<close>

definition same_life :: "conn_ptr set \<Rightarrow> conn_ptr \<Rightarrow> (loop_ptr \<Rightarrow> closure list) \<Rightarrow> ('k, 'z) ssys_scheme \<Rightarrow> ('k, 'z) ssys_scheme \<Rightarrow> bool" where
  "same_life P p F w w' \<longleftrightarrow>
     connName (server_of w') = connName (server_of w) \<and> m_nextConnId (server_of w') = m_nextConnId (server_of w) \<and>
     (\<forall>q. m_name (conn_of w' q) = m_name (conn_of w q) \<and> m_channel (conn_of w' q) = m_channel (conn_of w q) \<and>
        m_tcLoop (conn_of w' q) = m_tcLoop (conn_of w q) \<and> (q \<noteq> p \<longrightarrow> m_state (conn_of w' q) = m_state (conn_of w q))) \<and>
     (\<forall>q \<in> P. q \<noteq> p \<longrightarrow> in_map q w' = in_map q w) \<and>
     (\<forall>x. conn_callbacks x w' = conn_callbacks x w \<and>
        (x \<noteq> m_channel (conn_of w p) \<longrightarrow> m_channelStatus (chan w' x) = m_channelStatus (chan w x))) \<and>
     (\<forall>l. pending l w' = pending l w @ F l)"

lemma closure_ok_other:
  assumes "closure_ok P w l f" and "\<And>q. q \<in> P \<Longrightarrow> m_tcLoop (conn_of w' q) = m_tcLoop (conn_of w q)"
    and "\<And>q. q \<in> P \<Longrightarrow> m_state (conn_of w q) = Disconnected \<Longrightarrow> m_state (conn_of w' q) = Disconnected"
    and "\<And>q. q \<in> P \<Longrightarrow> m_state (conn_of w q) \<noteq> Connecting \<Longrightarrow> m_state (conn_of w' q) \<noteq> Connecting"
    and "\<And>q. q \<in> P \<Longrightarrow> f = ConnectEstablished_fn q \<Longrightarrow> in_map q w' \<and> m_state (conn_of w' q) = Connecting"
  shows "closure_ok P w' l f"
  using assms by (cases f) auto

lemma same_life_lives:
  assumes inv: "life_inv s0 ps w" and p: "p \<in> set ps" and same: "same_life (set ps) p F w w'"
    and ok: "conn_ok w' p" "kept_alive p w \<longrightarrow> kept_alive p w'"
    and st: "m_state (conn_of w p) = Disconnected \<longrightarrow> m_state (conn_of w' p) = Disconnected"
      "m_state (conn_of w p) \<noteq> Connecting \<longrightarrow> m_state (conn_of w' p) \<noteq> Connecting"
    and est: "\<And>l. ConnectEstablished_fn p \<in> set (pending l w) \<Longrightarrow> in_map p w' \<and> m_state (conn_of w' p) = Connecting"
    and new: "\<And>l. list_all (\<lambda>f. closure_ok (set ps) w' l f \<and> (\<forall>q. f \<noteq> ConnectEstablished_fn q)) (F l)"
  shows "lives s0 ps w w'"
proof -
  note S = same [unfolded same_life_def]
  have chan_ne: "m_channel (conn_of w q) \<noteq> m_channel (conn_of w p)" if "q \<in> set ps" "q \<noteq> p" for q
    using inv p that by (auto simp: life_inv_def chans_ok_def dest: inj_onD)
  have other: "registered q w' = registered q w" "kept_alive q w \<Longrightarrow> kept_alive q w'" if "q \<in> set ps" "q \<noteq> p" for q
    using S that chan_ne [OF that] by (auto simp: registered_def conn_chan_def kept_alive_def)
  have conns: "conn_ok w' q" if "q \<in> set ps" for q
  proof (cases "q = p")
    case False
    then have "conn_ok w q" using inv that by (simp add: life_inv_def)
    then show ?thesis
      using S False that other [OF that False] by (simp add: conn_ok_def)
  qed (simp add: ok)
  have follows: "follows ps w w'"
    unfolding follows_def
  proof (intro ballI)
    fix q assume q: "q \<in> set ps"
    show "m_channel (conn_of w' q) = m_channel (conn_of w q) \<and> m_tcLoop (conn_of w' q) = m_tcLoop (conn_of w q) \<and>
       (m_state (conn_of w q) = Disconnected \<longrightarrow> m_state (conn_of w' q) = Disconnected) \<and>
       (m_state (conn_of w q) \<noteq> Connecting \<longrightarrow> m_state (conn_of w' q) \<noteq> Connecting) \<and>
       (kept_alive q w \<longrightarrow> kept_alive q w')"
      using S st ok(2) other(2) [OF q] by (cases "q = p") simp_all
  qed
  have queues: "queues_ok ps w'"
    unfolding queues_ok_def
  proof (intro allI conjI)
    fix l
    have old: "closure_ok (set ps) w' l f" if f: "f \<in> set (pending l w)" for f
    proof (rule closure_ok_other)
      show "closure_ok (set ps) w l f"
        using inv f by (simp add: life_inv_def queues_ok_def list_all_iff)
      then show "in_map q w' \<and> m_state (conn_of w' q) = Connecting" if "q \<in> set ps" "f = ConnectEstablished_fn q" for q
        using that est [of l] f S by (cases "q = p") auto
    qed (use follows in \<open>simp_all add: follows_def\<close>)
    show "list_all (closure_ok (set ps) w' l) (pending l w')"
      using S old new [of l] by (auto simp: list_all_iff)
    fix q
    have "count_list (F l) (ConnectEstablished_fn q) = 0"
      using new [of l] by (auto simp: list_all_iff count_list_0_iff)
    then show "count_list (pending l w') (ConnectEstablished_fn q) \<le> 1"
      using S inv by (simp add: life_inv_def queues_ok_def)
  qed
  have "names_ok s0 ps w'" "chans_ok ps w'"
    using inv S by (simp_all add: life_inv_def names_ok_def chans_ok_def)
  then show ?thesis
    using conns queues follows by (simp add: lives_def life_inv_def)
qed

text \<open>No change of the state of \<open>p\<close>, of its entry in the map and of its registration.\<close>

lemma same_life_idle:
  assumes inv: "life_inv s0 ps w" and p: "p \<in> set ps" and same: "same_life (set ps) p F w w'"
    and idle: "m_state (conn_of w' p) = m_state (conn_of w p)" "in_map p w' = in_map p w"
      "registered p w' \<longrightarrow> registered p w \<or> kept_alive p w \<and> m_state (conn_of w p) \<noteq> Connecting"
    and new: "\<And>l. list_all (\<lambda>f. closure_ok (set ps) w' l f \<and> (\<forall>q. f \<noteq> ConnectEstablished_fn q)) (F l)"
  shows "lives s0 ps w w'"
proof (rule same_life_lives [OF inv p same _ _ _ _ _ new])
  have "conn_ok w p" using inv p by (simp add: life_inv_def)
  moreover show kept: "kept_alive p w \<longrightarrow> kept_alive p w'"
    using same idle(2) by (auto simp: kept_alive_def same_life_def)
  ultimately show "conn_ok w' p"
    using idle by (auto simp: conn_ok_def)
  show "in_map p w' \<and> m_state (conn_of w' p) = Connecting" if "ConnectEstablished_fn p \<in> set (pending l w)" for l
  proof -
    have "closure_ok (set ps) w l (ConnectEstablished_fn p)"
      by (rule life_closure [OF inv that])
    then show ?thesis using idle by simp
  qed
qed (use idle in simp_all)

text \<open>A change of the kernel, of the buffers of \<open>p\<close>, and of the fields of channels the invariant does not read.\<close>

definition unseen :: "('k, 'z) ssys_scheme \<Rightarrow> ('k, 'z) ssys_scheme \<Rightarrow> bool" where
  "unseen w w' \<longleftrightarrow> server_of w' = server_of w \<and> (\<forall>l. pending l w' = pending l w) \<and>
     (\<forall>q. m_name (conn_of w' q) = m_name (conn_of w q) \<and> m_channel (conn_of w' q) = m_channel (conn_of w q) \<and>
        m_tcLoop (conn_of w' q) = m_tcLoop (conn_of w q) \<and> m_state (conn_of w' q) = m_state (conn_of w q)) \<and>
     (\<forall>x. conn_callbacks x w' = conn_callbacks x w \<and> m_channelStatus (chan w' x) = m_channelStatus (chan w x))"

lemma unseen_facts:
  assumes "unseen w w'"
  shows "in_map q w' = in_map q w" "kept_alive q w' = kept_alive q w" "registered q w' = registered q w"
    "m_state (conn_of w' q) = m_state (conn_of w q)" "closure_ok P w' l = closure_ok P w l"
proof -
  show *: "in_map q w' = in_map q w" "m_state (conn_of w' q) = m_state (conn_of w q)" for q
    using assms by (simp_all add: unseen_def in_map_def)
  show "kept_alive q w' = kept_alive q w" "registered q w' = registered q w"
    using assms * by (simp_all add: unseen_def kept_alive_def registered_def conn_chan_def)
  have "closure_ok P w' l f = closure_ok P w l f" for f
    using assms by (cases f) (simp_all add: * unseen_def)
  then show "closure_ok P w' l = closure_ok P w l" by blast
qed

lemma unseen_lives:
  assumes "life_inv s0 ps w" and "unseen w w'"
  shows "lives s0 ps w w'"
  using assms unseen_facts [OF assms(2)]
  by (simp add: lives_def life_inv_def names_ok_def chans_ok_def queues_ok_def conn_ok_def follows_def unseen_def)

lemma change_mask_lives:
  assumes inv: "life_inv s0 ps w" and p: "p \<in> set ps" and ok: "kept_alive p w" "m_state (conn_of w p) \<noteq> Connecting"
  shows "holds (lives s0 ps w) (change_mask os g (m_channel (conn_of w p)) w)"
proof -
  have "lives s0 ps w w'" if w': "change_mask os g (m_channel (conn_of w p)) w = Inr w'" for w'
  proof (rule same_life_idle [OF inv p, where F = "\<lambda>_. []"])
    have m: "mask_changed g (m_channel (conn_of w p)) w w'"
      using holdsD [OF change_mask_changed w'] .
    then show "same_life (set ps) p (\<lambda>_. []) w w'"
      using change_mask_server [OF w']
      by (auto simp: mask_changed_def same_life_def in_map_def conn_callbacks_def pending_def setChannelStatus_def)
    show "m_state (conn_of w' p) = m_state (conn_of w p)" "in_map p w' = in_map p w"
      using m change_mask_server [OF w'] by (simp_all add: mask_changed_def in_map_def)
  qed (use ok in simp_all)
  then show ?thesis by (simp add: holds_def)
qed

lemma queue_lives:
  assumes inv: "life_inv s0 ps w" and p: "p \<in> set ps"
    and f: "closure_ok (set ps) w l f" "\<And>q. f \<noteq> ConnectEstablished_fn q"
  shows "lives s0 ps w (queueInLoop os l f w)"
proof (rule same_life_idle [OF inv p, where F = "\<lambda>l'. if l' = l then [f] else []"])
  have "closure_ok (set ps) (queueInLoop os l f w) l' f' = closure_ok (set ps) w l' f'" for l' f'
    by (cases f') (simp_all add: in_map_def)
  then show "list_all (\<lambda>f'. closure_ok (set ps) (queueInLoop os l f w) l' f' \<and> (\<forall>q. f' \<noteq> ConnectEstablished_fn q))
      (if l' = l then [f] else [])" for l'
    using f by simp
qed (simp_all add: same_life_def in_map_def conn_callbacks_def pending_def registered_def conn_chan_def)

lemma setState_lives:
  assumes inv: "life_inv s0 ps w" and p: "p \<in> set ps"
    and st: "st = Disconnected \<and> m_state (conn_of w p) \<noteq> Connecting \<or> st = Disconnecting \<and> m_state (conn_of w p) = Connected"
  shows "lives s0 ps w (setState p st w)"
proof (rule same_life_lives [OF inv p, where F = "\<lambda>_. []"])
  let ?w = "setState p st w"
  have same: "in_map q ?w = in_map q w" "registered p ?w = registered p w" "kept_alive p ?w = kept_alive p w"
    "server_of ?w = server_of w" for q
    by (simp_all add: in_map_def registered_def conn_chan_def kept_alive_def pending_def)
  show "same_life (set ps) p (\<lambda>_. []) w ?w"
    by (simp add: same_life_def same(1,4) conn_callbacks_def pending_def)
  have "conn_ok w p" using inv p by (simp add: life_inv_def)
  moreover have "m_state (conn_of ?w p) = st" by simp
  ultimately show "conn_ok ?w p"
    using st unfolding conn_ok_def same(1-3) by auto
  show "in_map p ?w \<and> m_state (conn_of ?w p) = Connecting" if "ConnectEstablished_fn p \<in> set (pending l w)" for l
  proof -
    have "closure_ok (set ps) w l (ConnectEstablished_fn p)"
      by (rule life_closure [OF inv that])
    then show ?thesis using st by auto
  qed
  show "m_state (conn_of w p) = Disconnected \<longrightarrow> m_state (conn_of ?w p) = Disconnected"
    "m_state (conn_of w p) \<noteq> Connecting \<longrightarrow> m_state (conn_of ?w p) \<noteq> Connecting"
    using st by auto
  show "kept_alive p w \<longrightarrow> kept_alive p ?w"
    using same(3) by simp
qed simp

lemma remove_lives:
  assumes inv: "life_inv s0 ps w" and p: "p \<in> set ps" and st: "m_state (conn_of w p) = Disconnected"
  shows "lives s0 ps w (removeConnectionInLoop os p w)"
proof (rule same_life_lives [OF inv p])
  let ?w = "removeConnectionInLoop os p w" and ?l = "m_tcLoop (conn_of w p)"
  let ?F = "\<lambda>l'. if l' = ?l then [ConnectDestroyed_fn p] else []"
  have srv: "server_of ?w = (server_of w)\<lparr>m_connections := (m_connections (server_of w))(m_name (conn_of w p) := None)\<rparr>"
      "conn_of ?w = conn_of w" "chan ?w = chan w"
    by (simp_all add: removeConnectionInLoop_def Let_def getName_def)
  have pend: "pending l' ?w = pending l' w @ ?F l'" for l'
    by (simp add: pending_def removeConnectionInLoop_def Let_def getLoop_def)
  have maps: "in_map q ?w = in_map q w" if "q \<in> set ps" "q \<noteq> p" for q
    using name_inject [of s0 ps w q p] inv p that by (auto simp: in_map_def srv life_inv_def)
  show "same_life (set ps) p ?F w ?w"
    using pend maps by (simp add: same_life_def srv conn_callbacks_def connName_def fun_eq_iff)
  show "conn_ok ?w p"
    using st inv p pend by (auto simp: conn_ok_def kept_alive_def srv)
  show "kept_alive p w \<longrightarrow> kept_alive p ?w"
    using pend by (simp add: kept_alive_def srv)
  show "in_map p ?w \<and> m_state (conn_of ?w p) = Connecting" if "ConnectEstablished_fn p \<in> set (pending l w)" for l
    using life_closure [OF inv that] st by simp
  show "list_all (\<lambda>f. closure_ok (set ps) ?w l f \<and> (\<forall>q. f \<noteq> ConnectEstablished_fn q)) (?F l)" for l
    using p st by (simp add: srv)
qed (simp_all add: removeConnectionInLoop_def Let_def)

text \<open>A connection that may be attended to, which no step of the program takes back.\<close>

definition attended :: "conn_ptr list \<Rightarrow> conn_ptr \<Rightarrow> ('k, 'z) ssys_scheme \<Rightarrow> bool" where
  "attended ps p w \<longleftrightarrow> p \<in> set ps \<and> kept_alive p w \<and> m_state (conn_of w p) \<noteq> Connecting"

lemma attended_follows: "follows ps w w' \<Longrightarrow> attended ps p w \<Longrightarrow> attended ps p w'"
  by (simp add: follows_def attended_def)

lemma attended_lives: "lives s0 ps w w' \<Longrightarrow> attended ps p w \<Longrightarrow> attended ps p w'"
  by (auto simp: lives_def intro: attended_follows)

lemma lives_inv: "lives s0 ps w w' \<Longrightarrow> life_inv s0 ps w'"
  by (simp add: lives_def)

lemma lives_channel: "lives s0 ps w w' \<Longrightarrow> p \<in> set ps \<Longrightarrow> m_channel (conn_of w' p) = m_channel (conn_of w p)"
  by (simp add: lives_def follows_def)

lemma lives_down:
  "lives s0 ps w w' \<Longrightarrow> p \<in> set ps \<Longrightarrow> m_state (conn_of w p) = Disconnected \<Longrightarrow> m_state (conn_of w' p) = Disconnected"
  by (simp add: lives_def follows_def)

lemma unseen_kern: "unseen w (w\<lparr>kern := k\<rparr>)" "unseen w (w\<lparr>cur_thread := t\<rparr>)"
  by (simp_all add: unseen_def pending_def conn_callbacks_def)

lemma unseen_buffers:
  "unseen w (upd_conn p (\<lambda>t. t\<lparr>m_inputBuffer := h t\<rparr>) w)" "unseen w (upd_conn p (\<lambda>t. t\<lparr>m_outputBuffer := h t\<rparr>) w)"
  by (simp_all add: unseen_def pending_def conn_callbacks_def)

lemma unseen_chan:
  fixes w :: "('k, 'z) ssys_scheme"
  shows "unseen w (upd_chan c (setRevents r) w)" "unseen w (upd_chan c (Channel_tie p) w)"
  by (simp_all add: unseen_def pending_def conn_callbacks_def Channel_tie_def setRevents_def)

lemma unseen_trans: "unseen w w1 \<Longrightarrow> unseen w1 w2 \<Longrightarrow> unseen w w2"
  by (simp add: unseen_def)

section \<open>The handlers\<close>

text \<open>Callbacks of the user keep the invariant; those made of \<open>send\<close>, \<open>shutdown\<close> and their own closures do.\<close>

definition hooks_lawful :: "(('k, 'z) ssys_scheme) conn_hooks \<Rightarrow> bool" where
  "hooks_lawful hooks \<longleftrightarrow> (\<forall>s0 ps w p. life_inv s0 ps w \<longrightarrow> p \<in> set ps \<longrightarrow>
     (\<forall>cb. holds (lives s0 ps w) (call_connection hooks cb p w)) \<and>
     (\<forall>cb t. holds (lives s0 ps w) (call_message hooks cb p t w)) \<and>
     (\<forall>cb. holds (lives s0 ps w) (call_writeComplete hooks cb p w)) \<and>
     (\<forall>cb n. holds (lives s0 ps w) (call_highWaterMark hooks cb p n w)) \<and>
     (m_state (conn_of w p) = Disconnected \<longrightarrow> (\<forall>cb. holds (lives s0 ps w) (call_close hooks cb p w))))"

lemma hooks_lawfulD:
  assumes "hooks_lawful hooks" and "life_inv s0 ps w" and "p \<in> set ps"
  shows "holds (lives s0 ps w) (call_user cb (\<lambda>cb. call_connection hooks cb p) w)"
    "holds (lives s0 ps w) (call_user cb (\<lambda>cb. call_message hooks cb p t) w)"
    "holds (lives s0 ps w) (call_user cb (\<lambda>cb. call_writeComplete hooks cb p) w)"
    "holds (lives s0 ps w) (call_user cb (\<lambda>cb. call_highWaterMark hooks cb p n) w)"
    "m_state (conn_of w p) = Disconnected \<Longrightarrow> holds (lives s0 ps w) (call_user cb (\<lambda>cb. call_close hooks cb p) w)"
  using assms unfolding hooks_lawful_def call_user_def
  by (cases cb; simp add: lives_refl)+

lemma silent_lawful: "hooks_lawful silent_hooks"
  by (simp add: hooks_lawful_def silent_hooks_def lives_refl)

lemma server_hooks_lawful:
  fixes os :: "'k os" and user :: "(('k, 'z) ssys_scheme) conn_hooks"
  assumes "hooks_lawful user"
  shows "hooks_lawful (server_hooks os user)"
  unfolding hooks_lawful_def
proof (intro allI impI)
  fix s0 ps p and w :: "('k, 'z) ssys_scheme" assume inv: "life_inv s0 ps w" and p: "p \<in> set ps"
  have "holds (lives s0 ps w) (removeConnection os p w)" if "m_state (conn_of w p) = Disconnected"
    using remove_lives [OF inv p that] queue_lives [OF inv p, of _ "RemoveConnectionInLoop_fn p"] p that
    by (simp add: removeConnection_def runInLoop_def)
  then show "(\<forall>cb. holds (lives s0 ps w) (call_connection (server_hooks os user) cb p w)) \<and>
     (\<forall>cb t. holds (lives s0 ps w) (call_message (server_hooks os user) cb p t w)) \<and>
     (\<forall>cb. holds (lives s0 ps w) (call_writeComplete (server_hooks os user) cb p w)) \<and>
     (\<forall>cb n. holds (lives s0 ps w) (call_highWaterMark (server_hooks os user) cb p n w)) \<and>
     (m_state (conn_of w p) = Disconnected \<longrightarrow> (\<forall>cb. holds (lives s0 ps w) (call_close (server_hooks os user) cb p w)))"
    using assms inv p unfolding hooks_lawful_def by (auto simp: server_hooks_def)
qed

lemma lives_via:
  assumes "lives s0 ps w w1" and "holds (lives s0 ps w1) r"
  shows "holds (lives s0 ps w) r"
  using assms by (auto elim!: holds_mono intro: lives_trans simp: lives_def)

text \<open>Queueing the closures of the connection itself.\<close>

lemma queue_own_lives:
  assumes "life_inv s0 ps w" and "p \<in> set ps"
  shows "lives s0 ps w (queueInLoop os l (WriteComplete_fn p) w)" "lives s0 ps w (queueInLoop os l (HighWaterMark_fn p n) w)"
    "lives s0 ps w (queueInLoop os l (ShutdownInLoop_fn p) w)"
    "m_state (conn_of w p) \<noteq> Connecting \<Longrightarrow> lives s0 ps w (queueInLoop os l (SendInLoop_fn p bs) w)"
  using assms by (auto intro!: queue_lives)

text \<open>The handlers: the laws of \<open>handler_law\<close> are the elementary changes above.\<close>

interpretation live: handler_law os hooks "\<lambda>w. hooks_lawful hooks \<and> life_inv s0 ps w" "lives s0 ps" "attended ps"
  "\<lambda>p w. m_state (conn_of w p) = Disconnected"
  for os :: "'k os" and hooks :: "(('k, 'z) ssys_scheme) conn_hooks" and s0 ps
proof (unfold_locales, goal_cases)
  case (1 w)
  then show ?case by (simp add: lives_refl)
next
  case (2 w w1 w2)
  then show ?case by (rule lives_step)
next
  case (3 w w1)
  then show ?case by (simp add: lives_def)
next
  case (4 w w1 p)
  then show ?case by (rule attended_lives)
next
  case (5 w w1 p)
  then show ?case by (auto simp: attended_def intro: lives_down)
next
  case (6 w w1 p)
  then show ?case by (auto simp: attended_def intro: lives_channel)
next
  case (7 w p)
  then show ?case by (simp add: life_inv_def chans_ok_def attended_def calls_back_def)
next
  case (8 w k)
  then show ?case by (blast intro: unseen_lives unseen_kern)
next
  case (9 w p b)
  then show ?case using unseen_lives [OF _ unseen_buffers(1) [where h = "\<lambda>_. b"]] by blast
next
  case (10 w p h)
  then show ?case using unseen_lives [OF _ unseen_buffers(2) [where h = h]] by blast
next
  case (11 w p)
  then show ?case by (blast intro: unseen_lives unseen_chan)
next
  case (12 w p g)
  then show ?case by (simp add: attended_def change_mask_lives)
next
  case (13 w p)
  then show ?case by (simp add: attended_def setState_lives)
next
  case (15 w p)
  then show ?case by (simp add: attended_def queue_own_lives)
next
  case (16 w p n)
  then show ?case by (simp add: attended_def queue_own_lives)
qed (simp_all add: attended_def hooks_lawful_def)

text \<open>A connection that is not down is in the map.\<close>

lemma up_attended:
  assumes "life_inv s0 ps w" and "p \<in> set ps" and "m_state (conn_of w p) \<noteq> Connecting" and "m_state (conn_of w p) \<noteq> Disconnected"
  shows "attended ps p w"
  using assms by (auto simp: life_inv_def conn_ok_def attended_def kept_alive_def)

lemma sendInLoop_lives:
  assumes inv: "life_inv s0 ps w" and p: "p \<in> set ps" and st: "m_state (conn_of w p) \<noteq> Connecting"
  shows "holds (lives s0 ps w) (sendInLoop os p d w)"
proof (cases "m_state (conn_of w p) = Disconnected")
  case True
  then show ?thesis using lives_refl [OF inv] by (simp add: sendInLoop_def Let_def)
next
  case False
  then show ?thesis
    using live.sendInLoop_keeps [of silent_hooks] inv up_attended [OF inv p st] silent_lawful by blast
qed

lemma shutdownInLoop_lives: "life_inv s0 ps w \<Longrightarrow> holds (lives s0 ps w) (shutdownInLoop os p w)"
  using live.shutdownInLoop_keeps silent_lawful by blast

lemma send_lives:
  assumes inv: "life_inv s0 ps w" and p: "p \<in> set ps"
  shows "holds (lives s0 ps w) (TcpConnection_send os p d w)"
  using sendInLoop_lives [OF inv p] queue_own_lives(4) [OF inv p] lives_refl [OF inv]
  by (simp add: TcpConnection_send_def Let_def runInLoop_def)

lemma shutdown_lives:
  assumes inv: "life_inv s0 ps w" and p: "p \<in> set ps"
  shows "holds (lives s0 ps w) (TcpConnection_shutdown os p w)"
proof (cases "m_state (conn_of w p) = Connected")
  case True
  then have w1: "lives s0 ps w (setState p Disconnecting w)"
    by (intro setState_lives inv p) simp
  show ?thesis
    using True lives_via [OF w1 shutdownInLoop_lives [OF lives_inv [OF w1]]]
      lives_via [OF w1, of "Inr (queueInLoop os _ (ShutdownInLoop_fn p) (setState p Disconnecting w))"]
      queue_own_lives(3) [OF lives_inv [OF w1] p]
    by (simp add: TcpConnection_shutdown_def Let_def runInLoop_def)
qed (simp add: TcpConnection_shutdown_def lives_refl [OF inv])

text \<open>Establishing a connection nothing else has been queued for.\<close>

lemma connectEstablished_lives:
  assumes inv: "life_inv s0 ps w" and p: "p \<in> set ps" and law: "hooks_lawful hooks"
    and new: "in_map p w" "m_state (conn_of w p) = Connecting" "\<And>l. ConnectEstablished_fn p \<notin> set (pending l w)"
  shows "holds (lives s0 ps w) (connectEstablished os hooks p w)"
proof -
  define w1 where "w1 = setState p Connected w"
  have same: "in_map q w1 = in_map q w" "registered q w1 = registered q w" "kept_alive q w1 = kept_alive q w"
    "m_channel (conn_of w1 q) = m_channel (conn_of w q)" for q
    by (simp_all add: w1_def in_map_def registered_def conn_chan_def kept_alive_def pending_def)
  have w1: "lives s0 ps w w1"
  proof (rule same_life_lives [OF inv p, where F = "\<lambda>_. []"])
    show "same_life (set ps) p (\<lambda>_. []) w w1"
      by (simp add: same_life_def same(1)) (simp add: w1_def conn_callbacks_def pending_def)
    have "conn_ok w p" using inv p by (simp add: life_inv_def)
    moreover have "m_state (conn_of w1 p) = Connected" by (simp add: w1_def)
    ultimately show "conn_ok w1 p"
      using new unfolding conn_ok_def same by auto
  qed (use new same in \<open>simp_all add: w1_def\<close>)
  have "attended ps p w1"
    using p new(1) same by (simp add: attended_def kept_alive_def) (simp add: w1_def)
  then show ?thesis
    unfolding connectEstablished_def Let_def w1_def [symmetric]
    using lives_via [OF w1 live.established_keeps [OF _ _ refl]] lives_inv [OF w1] law by blast
qed

section \<open>Running a closure\<close>

definition popped :: "loop_ptr \<Rightarrow> closure list \<Rightarrow> ('k, 'z) ssys_scheme \<Rightarrow> ('k, 'z) ssys_scheme" where
  "popped l fs w = (upd_loop l (\<lambda>e. e\<lparr>m_pendingFunctors := fs\<rparr>) w)\<lparr>cur_thread := m_threadId (loop_of w l)\<rparr>"

lemma popped_simps [simp]:
  fixes w :: "('k, 'z) ssys_scheme"
  shows "conn_of (popped l fs w) = conn_of w" "chan (popped l fs w) = chan w" "server_of (popped l fs w) = server_of w"
    "pending l' (popped l fs w) = (if l' = l then fs else pending l' w)" "in_map p (popped l fs w) = in_map p w"
    "registered p (popped l fs w) = registered p w" "conn_callbacks c (popped l fs w) = conn_callbacks c w"
  by (simp_all add: popped_def upd_loop_def pending_def in_map_def registered_def conn_chan_def conn_callbacks_def)

lemma popped_closure_ok [simp]: "closure_ok P (popped l fs w) l' f = closure_ok P w l' f"
  by (cases f) simp_all

lemma popped_parts:
  assumes inv: "life_inv s0 ps w" and head: "pending l w = f # fs"
  shows "names_ok s0 ps (popped l fs w)" "chans_ok ps (popped l fs w)" "queues_ok ps (popped l fs w)"
    "q \<in> set ps \<Longrightarrow> f \<noteq> ConnectDestroyed_fn q \<Longrightarrow> conn_ok (popped l fs w) q" "closure_ok (set ps) (popped l fs w) l f"
    "f = ConnectEstablished_fn p \<Longrightarrow> ConnectEstablished_fn p \<notin> set (pending l' (popped l fs w))"
proof -
  show "names_ok s0 ps (popped l fs w)" "chans_ok ps (popped l fs w)"
    using inv by (simp_all add: life_inv_def names_ok_def chans_ok_def)
  have Q: "list_all (closure_ok (set ps) w l) (f # fs)" "count_list (f # fs) (ConnectEstablished_fn p) \<le> 1" for p
    using inv head unfolding life_inv_def queues_ok_def by metis+
  have "count_list fs (ConnectEstablished_fn p) \<le> 1" for p
    using Q(2) [of p] by (simp split: if_splits)
  then show "queues_ok ps (popped l fs w)"
    using inv Q(1) unfolding life_inv_def queues_ok_def by (auto simp: list_all_iff)
  show "closure_ok (set ps) (popped l fs w) l f"
    using Q by simp
  show "conn_ok (popped l fs w) q" if "q \<in> set ps" "f \<noteq> ConnectDestroyed_fn q"
    using inv that head by (auto simp: life_inv_def conn_ok_def kept_alive_def)
  assume est: "f = ConnectEstablished_fn p"
  show "ConnectEstablished_fn p \<notin> set (pending l' (popped l fs w))"
  proof (cases "l' = l")
    case True
    have "count_list fs (ConnectEstablished_fn p) = 0" using Q(2) [of p] est by simp
    then show ?thesis using True by (simp add: count_list_0_iff)
  next
    case False
    then show ?thesis
      using life_closure [OF inv, of "ConnectEstablished_fn p" l'] Q(1) est by auto
  qed
qed

lemma popped_inv:
  assumes "life_inv s0 ps w" and "pending l w = f # fs" and "\<And>q. f \<noteq> ConnectDestroyed_fn q"
  shows "life_inv s0 ps (popped l fs w)"
  using popped_parts [OF assms(1,2)] assms(3) by (simp add: life_inv_def)

text \<open>Taking the channel of a closed connection out of the poller settles the connection for good.\<close>

lemma Channel_remove_new:
  "Channel_remove os c w = Inr w' \<Longrightarrow> m_channelStatus (chan w' c) = kStatusNew"
  by (auto simp: Channel_remove_def EventLoop_removeChannel_def EPollPoller_removeChannel_def Let_def andThen_eq_Inr setChannelStatus_def)

lemma destroyed_inv:
  assumes parts: "names_ok s0 ps w" "chans_ok ps w" "queues_ok ps w" "\<And>q. q \<in> set ps \<Longrightarrow> q \<noteq> p \<Longrightarrow> conn_ok w q"
    and p: "p \<in> set ps" and st: "m_state (conn_of w p) = Disconnected"
  shows "holds (life_inv s0 ps) (connectDestroyed os hooks p w)"
proof -
  let ?c = "m_channel (conn_of w p)"
  have "life_inv s0 ps w'" if w': "Channel_remove os ?c w = Inr w'" for w'
  proof -
    have m: "mask_changed (\<lambda>m. m) ?c w w'"
      using holdsD [OF Channel_remove_changed w'] .
    have srv: "server_of w' = server_of w"
      by (rule Channel_remove_server [OF w'])
    have eqs: "conn_of w' = conn_of w" "\<And>l. pending l w' = pending l w" "\<And>q. in_map q w' = in_map q w"
        "\<And>c. conn_callbacks c w' = conn_callbacks c w" "\<And>x. x \<noteq> ?c \<Longrightarrow> chan w' x = chan w x"
      using m srv by (auto simp: mask_changed_def pending_def in_map_def conn_callbacks_def setChannelStatus_def)
    have cl: "closure_ok P w' l = closure_ok P w l" for P l
    proof
      show "closure_ok P w' l f = closure_ok P w l f" for f by (cases f) (simp_all add: eqs)
    qed
    have "conn_ok w' q" if "q \<in> set ps" for q
    proof (cases "q = p")
      case True
      then show ?thesis
        using Channel_remove_new [OF w'] st
        by (simp add: conn_ok_def registered_def conn_chan_def eqs status_values)
    next
      case False
      then have "m_channel (conn_of w q) \<noteq> ?c"
        using parts(2) p that by (auto simp: chans_ok_def dest: inj_onD)
      then show ?thesis
        using parts(4) [OF that False] by (simp add: conn_ok_def registered_def conn_chan_def kept_alive_def eqs)
    qed
    then show ?thesis
      using parts(1-3) by (simp add: life_inv_def names_ok_def chans_ok_def queues_ok_def eqs srv cl)
  qed
  then show ?thesis
    using st by (simp add: connectDestroyed_def holds_def)
qed

definition closures_lawful :: "(nat \<Rightarrow> ('k, 'z) ssys_scheme \<Rightarrow> ('k, 'z) ssys_scheme result) \<Rightarrow> bool" where
  "closures_lawful ufn \<longleftrightarrow> (\<forall>n s0 ps w. life_inv s0 ps w \<longrightarrow> holds (life_inv s0 ps) (ufn n w))"

lemma holds_lives_inv: "holds (lives s0 ps w) r \<Longrightarrow> holds (life_inv s0 ps) r"
  by (auto elim!: holds_mono simp: lives_def)

lemma run_closure_inv:
  assumes inv: "life_inv s0 ps w" and head: "pending l w = f # fs" and law: "hooks_lawful hooks" "closures_lawful ufn"
  shows "holds (life_inv s0 ps) (run_closure os hooks ufn f (popped l fs w))"
proof -
  note parts = popped_parts [OF inv head]
  note inv0 = popped_inv [OF inv head]
  note ok = parts(5)
  show ?thesis
  proof (cases f)
    case (SendInLoop_fn p bs)
    then show ?thesis
      using ok inv0 by (auto simp: run_closure_def intro!: holds_lives_inv sendInLoop_lives)
  next
    case (WriteComplete_fn p)
    then show ?thesis
      using ok inv0 by (auto simp: run_closure_def intro!: holds_lives_inv hooks_lawfulD(3) [OF law(1)])
  next
    case (HighWaterMark_fn p n)
    then show ?thesis
      using ok inv0 by (auto simp: run_closure_def intro!: holds_lives_inv hooks_lawfulD(4) [OF law(1)])
  next
    case (ShutdownInLoop_fn p)
    then show ?thesis
      using inv0 by (auto simp: run_closure_def intro!: holds_lives_inv shutdownInLoop_lives)
  next
    case (ConnectEstablished_fn p)
    then show ?thesis
      using ok inv0 parts(6) by (auto simp: run_closure_def intro!: holds_lives_inv connectEstablished_lives law(1))
  next
    case (ConnectDestroyed_fn p)
    then show ?thesis
      using ok parts(1-4) by (auto simp: run_closure_def intro!: destroyed_inv)
  next
    case (RemoveConnectionInLoop_fn p)
    then have "lives s0 ps (popped l fs w) (removeConnectionInLoop os p (popped l fs w))"
      using ok by (intro remove_lives inv0) simp_all
    then show ?thesis
      by (simp add: RemoveConnectionInLoop_fn run_closure_def lives_def)
  next
    case Listen_fn
    then show ?thesis using ok by simp
  next
    case (User_fn n)
    then show ?thesis
      using inv0 law(2) by (auto simp: run_closure_def closures_lawful_def)
  qed
qed

section \<open>Accepting\<close>

lemma closure_ok_mono:
  assumes "closure_ok P w l f" and "\<And>q. q \<in> P \<Longrightarrow> conn_of w' q = conn_of w q" and "\<And>q. q \<in> P \<Longrightarrow> in_map q w' = in_map q w"
    and "P \<subseteq> Q"
  shows "closure_ok Q w' l f"
  using assms by (cases f) auto

lemma made_chans:
  fixes w w1 :: "('k, 'z) ssys_scheme"
  assumes ok: "chans_ok ps w" and new: "p \<notin> set ps" "c \<notin> (\<lambda>q. m_channel (conn_of w q)) ` set ps"
    and made: "connection_made os p c fd peer l pool1 w w1"
  shows "q \<in> set ps \<Longrightarrow> conn_of w1 q = conn_of w q" "q \<in> set ps \<Longrightarrow> chan w1 (m_channel (conn_of w q)) = chan w (m_channel (conn_of w q))"
    "chans_ok (ps @ [p]) w1"
proof -
  have M: "m_channel (conn_of w1 p) = c" "chan w1 = (chan w)(c := new_chan p l fd)"
    using made by (simp_all add: connection_made_def Let_def)
  show old: "conn_of w1 q = conn_of w q" "chan w1 (m_channel (conn_of w q)) = chan w (m_channel (conn_of w q))" if "q \<in> set ps" for q
  proof -
    have "q \<noteq> p" "m_channel (conn_of w q) \<noteq> c" using new that by blast+
    then show "conn_of w1 q = conn_of w q" "chan w1 (m_channel (conn_of w q)) = chan w (m_channel (conn_of w q))"
      using made by (simp_all add: connection_made_def Let_def)
  qed
  have "inj_on (\<lambda>q. m_channel (conn_of w1 q)) (set ps) = inj_on (\<lambda>q. m_channel (conn_of w q)) (set ps)"
    using old by (intro inj_on_cong) simp
  then show "chans_ok (ps @ [p]) w1"
    using ok new old(1) M old(2)
    by (auto simp: chans_ok_def conn_callbacks_def new_chan_def setReadCallback_def setWriteCallback_def
        setCloseCallback_def setErrorCallback_def image_iff)
qed

lemma fresh_name:
  assumes "names_ok s0 ps w" and "Suc (length ps) < 2 ^ 32" and q: "q \<in> set ps"
  shows "m_name (conn_of w q) \<noteq> connName s0 (of_nat (Suc (length ps)))"
proof -
  obtain i where "i < length ps" "q = ps ! i" using q by (auto simp: in_set_conv_nth)
  then show ?thesis
    using assms(1,2) connection_id_inject [of "Suc i" "Suc (length ps)" "Suc (length ps)"]
    by (auto simp: names_ok_def connName_inject)
qed

lemma made_inv:
  fixes w w1 :: "('k, 'z) ssys_scheme"
  assumes inv: "life_inv s0 ps w" and new: "p \<notin> set ps" "c \<notin> (\<lambda>q. m_channel (conn_of w q)) ` set ps"
    and len: "Suc (length ps) < 2 ^ 32" and made: "connection_made os p c fd peer l pool1 w w1"
  shows "life_inv s0 (ps @ [p]) w1" "in_map p w1" "m_state (conn_of w1 p) = Connecting" "m_tcLoop (conn_of w1 p) = l"
    "ConnectEstablished_fn p \<notin> set (pending l' w1)"
proof -
  let ?n = "connName s0 (of_nat (Suc (length ps)))"
  have N: "names_ok s0 ps w" using inv by (simp add: life_inv_def)
  have "chans_ok ps w" using inv by (simp add: life_inv_def)
  note made_facts = made_chans [OF this new made] and M = made_chans(1) [OF this new made]
  have S: "server_of w1 = (server_of w)\<lparr>m_threadPool := pool1, m_nextConnId := m_nextConnId (server_of w) + 1,
        m_connections := (m_connections (server_of w))(?n \<mapsto> p)\<rparr>" "m_name (conn_of w1 p) = ?n"
      "m_channel (conn_of w1 p) = c" "chan w1 = (chan w)(c := new_chan p l fd)"
    using made N by (simp_all add: connection_made_def Let_def names_ok_def)
  have pend: "pending l' w1 = pending l' w" for l'
    using made by (simp add: connection_made_def Let_def pending_def)
  show st: "m_state (conn_of w1 p) = Connecting" "m_tcLoop (conn_of w1 p) = l"
    using made by (simp_all add: connection_made_def Let_def)
  show map: "in_map p w1"
    by (simp add: in_map_def S)
  note names = fresh_name [OF N len]
  have maps: "in_map q w1 = in_map q w" if "q \<in> set ps" for q
    using names [OF that] M [OF that] by (simp add: in_map_def S)
  have none: "ConnectEstablished_fn p \<notin> set (pending l' w)" for l'
    using life_closure [OF inv, of "ConnectEstablished_fn p"] new(1) by auto
  then show "ConnectEstablished_fn p \<notin> set (pending l' w1)"
    by (simp add: pend)
  have "names_ok s0 (ps @ [p]) w1"
    using N len M S by (auto simp: names_ok_def nth_append less_Suc_eq connName_def fun_eq_iff)
  moreover have "chans_ok (ps @ [p]) w1" by (rule made_facts(3))
  moreover have "conn_ok w1 q" if "q \<in> set (ps @ [p])" for q
  proof (cases "q = p")
    case True
    then show ?thesis
      using map by (simp add: conn_ok_def registered_def conn_chan_def S new_chan_def setReadCallback_def setWriteCallback_def
          setCloseCallback_def setErrorCallback_def Channel_ctor_def status_values)
  next
    case False
    then have "q \<in> set ps" using that by simp
    then show ?thesis
      using inv M maps made_facts(2) pend by (simp add: life_inv_def conn_ok_def registered_def conn_chan_def kept_alive_def)
  qed
  moreover have "queues_ok (ps @ [p]) w1"
  proof -
    have "closure_ok (set (ps @ [p])) w1 l' f" if "f \<in> set (pending l' w)" for l' f
      by (rule closure_ok_mono [OF life_closure [OF inv that] M maps]) auto
    then show ?thesis
      using inv pend by (simp add: queues_ok_def life_inv_def list_all_iff)
  qed
  ultimately show "life_inv s0 (ps @ [p]) w1"
    by (simp add: life_inv_def)
qed

lemma queue_established_inv:
  assumes inv: "life_inv s0 ps w" and p: "p \<in> set ps" "in_map p w" "m_state (conn_of w p) = Connecting" "m_tcLoop (conn_of w p) = l"
    and none: "\<And>l'. ConnectEstablished_fn p \<notin> set (pending l' w)"
  shows "life_inv s0 ps (queueInLoop os l (ConnectEstablished_fn p) w)"
proof -
  let ?w = "queueInLoop os l (ConnectEstablished_fn p) w"
  have same: "conn_of ?w = conn_of w" "chan ?w = chan w" "server_of ?w = server_of w" "\<And>q. in_map q ?w = in_map q w"
      "\<And>l'. pending l' ?w = pending l' w @ (if l' = l then [ConnectEstablished_fn p] else [])"
    by (simp_all add: in_map_def pending_def)
  have cl: "closure_ok P ?w l' = closure_ok P w l'" for P l'
  proof
    show "closure_ok P ?w l' f = closure_ok P w l' f" for f by (cases f) (simp_all add: same)
  qed
  have "count_list (pending l' w) (ConnectEstablished_fn p) = 0" for l'
    using none by (simp add: count_list_0_iff)
  then have "queues_ok ps ?w"
    using inv p by (auto simp: queues_ok_def life_inv_def same cl)
  moreover have "conn_ok ?w q" if "q \<in> set ps" for q
    using inv that by (auto simp: conn_ok_def life_inv_def registered_def conn_chan_def kept_alive_def same)
  ultimately show ?thesis
    using inv by (simp add: life_inv_def names_ok_def chans_ok_def conn_callbacks_def same)
qed

lemma accept_inv:
  fixes w :: "('k, 'z) ssys_scheme"
  assumes inv: "life_inv s0 ps w" and new: "p \<notin> set ps" "c \<notin> (\<lambda>q. m_channel (conn_of w q)) ` set ps"
    and len: "Suc (length ps) < 2 ^ 32" and law: "hooks_lawful hooks"
  shows "holds (life_inv s0 (ps @ [p])) (TcpServer_newConnection os hooks p c fd peer w)"
proof (cases "getNextLoop (m_threadPool (server_of w))")
  case (Inl e)
  then show ?thesis by (simp add: TcpServer_newConnection_def)
next
  case (Inr lp)
  obtain l pool1 where lp: "lp = (l, pool1)" by (cases lp)
  obtain w1 :: "('k, 'z) ssys_scheme" where w1: "connection_made os p c fd peer l pool1 w w1"
      "TcpServer_newConnection os hooks p c fd peer w = runInLoop os l (ConnectEstablished_fn p) (connectEstablished os hooks p) w1"
    using newConnection_makes Inr unfolding lp by blast
  note made = made_inv [OF inv new len w1(1)]
  have "holds (life_inv s0 (ps @ [p])) (connectEstablished os hooks p w1)"
    by (rule holds_lives_inv [OF connectEstablished_lives [OF made(1) _ law made(2,3,5)]]) simp
  then show ?thesis
    using queue_established_inv [OF made(1) _ made(2-5)] by (simp add: w1(2) runInLoop_def)
qed

section \<open>The running server\<close>

text \<open>
  The steps. \<open>late_send\<close> is the second half of a \<open>send\<close> from another thread that tested the state earlier.
  A channel has events only while it is registered; \<open>r\<close> are the events the kernel reports for it. The steps
  are atomic where the threads of the code share no data but the queues, which a mutex guards; \<open>shutdown\<close>
  is one step here although it tests and stores \<open>m_state\<close> separately: \<open>shutdown_race_dangles\<close> below is
  what the other order does. Addresses of connections and channels are not reused.
\<close>

inductive program_step ::
    "'k os \<Rightarrow> (('k, 'z) ssys_scheme) conn_hooks \<Rightarrow> (nat \<Rightarrow> ('k, 'z) ssys_scheme \<Rightarrow> ('k, 'z) ssys_scheme result) \<Rightarrow>
       conn_ptr list \<times> ('k, 'z) ssys_scheme \<Rightarrow> conn_ptr list \<times> ('k, 'z) ssys_scheme \<Rightarrow> bool"
  for os :: "'k os" and user :: "(('k, 'z) ssys_scheme) conn_hooks" and ufn where
  accept: "p \<notin> set ps \<Longrightarrow> c \<notin> (\<lambda>q. m_channel (conn_of w q)) ` set ps \<Longrightarrow> Suc (length ps) < 2 ^ 32 \<Longrightarrow>
    TcpServer_newConnection os (server_hooks os user) p c fd peer
      (w\<lparr>cur_thread := m_threadId (loop_of w (m_srvLoop (server_of w)))\<rparr>) = Inr w' \<Longrightarrow>
    program_step os user ufn (ps, w) (ps @ [p], w')"
| run_functor: "pending l w = f # fs \<Longrightarrow> run_closure os (server_hooks os user) ufn f (popped l fs w) = Inr w' \<Longrightarrow>
    program_step os user ufn (ps, w) (ps, w')"
| event: "p \<in> set ps \<Longrightarrow> registered p w \<Longrightarrow>
    Channel_handleEvent alive (invoke_callback os (server_hooks os user) dflt new) (m_channel (conn_of w p)) t
      (upd_chan (m_channel (conn_of w p)) (setRevents r)
        (w\<lparr>cur_thread := m_threadId (loop_of w (m_tcLoop (conn_of w p)))\<rparr>)) = Inr w' \<Longrightarrow>
    program_step os user ufn (ps, w) (ps, w')"
| user_send: "p \<in> set ps \<Longrightarrow> TcpConnection_send os p bs (w\<lparr>cur_thread := t\<rparr>) = Inr w' \<Longrightarrow>
    program_step os user ufn (ps, w) (ps, w')"
| late_send: "p \<in> set ps \<Longrightarrow> m_state (conn_of w p) \<noteq> Connecting \<Longrightarrow>
    program_step os user ufn (ps, w) (ps, queueInLoop os (m_tcLoop (conn_of w p)) (SendInLoop_fn p bs) (w\<lparr>cur_thread := t\<rparr>))"
| user_shutdown: "p \<in> set ps \<Longrightarrow> TcpConnection_shutdown os p (w\<lparr>cur_thread := t\<rparr>) = Inr w' \<Longrightarrow>
    program_step os user ufn (ps, w) (ps, w')"

definition server_started :: "tcpserver \<Rightarrow> conn_ptr list \<times> ('k, 'z) ssys_scheme \<Rightarrow> bool" where
  "server_started s0 = (\<lambda>(ps, w). ps = [] \<and> server_of w = s0 \<and> m_nextConnId s0 = 1 \<and> (\<forall>l. pending l w = []))"

lemma started_inv: "server_started s0 (ps, w) \<Longrightarrow> life_inv s0 ps w"
  by (simp add: server_started_def life_inv_def names_ok_def chans_ok_def queues_ok_def)

lemma program_step_inv:
  assumes step: "program_step os user ufn s s'" and law: "hooks_lawful user" "closures_lawful ufn"
    and inv: "life_inv s0 (fst s) (snd s)"
  shows "life_inv s0 (fst s') (snd s')"
proof -
  note hooks = server_hooks_lawful [OF law(1), of os]
  have thread: "life_inv s0 ps (w\<lparr>cur_thread := t\<rparr>)" if "life_inv s0 ps w" for ps t and w :: "('a, 'b) ssys_scheme"
    by (rule lives_inv [OF unseen_lives [OF that unseen_kern(2)]])
  from step show ?thesis
  proof cases
    case (accept p ps c w fd peer w')
    then have "life_inv s0 ps w" using inv by simp
    then have "holds (life_inv s0 (ps @ [p])) (TcpServer_newConnection os (server_hooks os user) p c fd peer
        (w\<lparr>cur_thread := m_threadId (loop_of w (m_srvLoop (server_of w)))\<rparr>))"
      using accept(3-5) by (intro accept_inv thread hooks) simp_all
    then show ?thesis
      using accept(2,6) by simp
  next
    case (run_functor l w f fs w' ps)
    then have "holds (life_inv s0 ps) (run_closure os (server_hooks os user) ufn f (popped l fs w))"
      using inv by (intro run_closure_inv hooks law(2)) simp_all
    then show ?thesis
      using run_functor(2,4) by simp
  next
    case (event p ps w dflt new t r w')
    let ?w = "upd_chan (m_channel (conn_of w p)) (setRevents r) (w\<lparr>cur_thread := m_threadId (loop_of w (m_tcLoop (conn_of w p)))\<rparr>)"
    have inv1: "life_inv s0 ps w" using inv event(1) by simp
    have w1: "lives s0 ps w ?w"
      by (rule unseen_lives [OF inv1 unseen_trans [OF unseen_kern(2) unseen_chan(1)]])
    have "attended ps p w"
      using inv1 event(3,4) by (auto simp: life_inv_def conn_ok_def attended_def)
    then have "holds (lives s0 ps ?w) (Channel_handleEvent alive (invoke_callback os (server_hooks os user) dflt new) (m_channel (conn_of ?w p)) t ?w)"
      using live.handleEvent_keeps hooks lives_inv [OF w1] attended_lives [OF w1] by blast
    then show ?thesis
      using event(2,5) by (simp add: lives_def)
  next
    case (user_send p ps bs t w w')
    then have "holds (lives s0 ps (w\<lparr>cur_thread := t\<rparr>)) (TcpConnection_send os p bs (w\<lparr>cur_thread := t\<rparr>))"
      using inv by (intro send_lives thread) simp_all
    then show ?thesis
      using user_send(2,4) by (simp add: lives_def)
  next
    case (late_send p ps w bs t)
    then show ?thesis
      using queue_own_lives(4) [OF thread [of ps w t], of p os _ bs] inv by (simp add: lives_def)
  next
    case (user_shutdown p ps t w w')
    then have "holds (lives s0 ps (w\<lparr>cur_thread := t\<rparr>)) (TcpConnection_shutdown os p (w\<lparr>cur_thread := t\<rparr>))"
      using inv by (intro shutdown_lives thread) simp_all
    then show ?thesis
      using user_shutdown(2,4) by (simp add: lives_def)
  qed
qed

interpretation life: inductive_invariant "\<lambda>s. hooks_lawful user \<and> closures_lawful ufn \<and> server_started s0 s"
  "program_step os user ufn" "\<lambda>s. hooks_lawful user \<and> closures_lawful ufn \<and> life_inv s0 (fst s) (snd s)"
  for os user ufn s0
  by unfold_locales (auto intro: started_inv program_step_inv)

section \<open>Properties\<close>


text \<open>An echo server: its message callback takes the input out and sends it back.\<close>

definition echo_hooks :: "'k os \<Rightarrow> (('k, 'z) ssys_scheme) conn_hooks" where
  "echo_hooks os = silent_hooks\<lparr>call_message := (\<lambda>cb p t w.
     andThen (retrieveAllAsString (m_inputBuffer (conn_of w p))) (\<lambda>(msg, b).
       TcpConnection_send os p msg (upd_conn p (\<lambda>t. t\<lparr>m_inputBuffer := b\<rparr>) w)))\<rparr>"

lemma echo_lawful: "hooks_lawful (echo_hooks os)"
proof -
  have "holds (lives s0 ps w) (andThen r (\<lambda>(msg, b). TcpConnection_send os p msg (upd_conn p (\<lambda>t. t\<lparr>m_inputBuffer := b\<rparr>) w)))"
    if "life_inv s0 ps w" "p \<in> set ps" for s0 ps p r and w :: "('a, 'b) ssys_scheme"
    using lives_via [OF unseen_lives [OF that(1) unseen_buffers(1)] send_lives [OF lives_inv [OF unseen_lives [OF that(1) unseen_buffers(1)]] that(2)]]
    by (cases r) auto
  then show ?thesis
    by (simp add: hooks_lawful_def echo_hooks_def silent_hooks_def lives_refl)
qed

lemma server_world_started: "server_started (server_of server_world) ([], server_world)"
  by (simp add: server_started_def pending_def) (simp add: server_world_def)

text \<open>The first steps of the concrete server: a connection is accepted, and its loop establishes it.\<close>

lemma first_connection:
  obtains w2 w3 :: "simk ssys" where
    "reachable (server_started (server_of server_world)) (program_step sim_os (echo_hooks sim_os) (\<lambda>_. Inr)) ([5], w2)"
    "program_step sim_os (echo_hooks sim_os) (\<lambda>_. Inr) ([5], w2) ([5], w3)"
    "m_state (conn_of w3 5) = Connected" "registered 5 w3" "\<not> registered 5 w2" "m_threadId (loop_of w2 (m_tcLoop (conn_of w2 5))) = 20"
    "getNextLoop (m_threadPool (server_of w3)) = Inr (11, (EventLoopThreadPool_ctor 0 ''s'')\<lparr>m_loops := [10, 11], m_next := 0\<rparr>)"
    "m_srvLoop (server_of w3) = 0" "\<forall>l. m_threadId (loop_of w3 l) = m_threadId (loop_of server_world l)" "m_channel (conn_of w3 5) = 15"
proof -
  let ?peer = "InetAddress_of \<lparr>sin_family = 2, sin_port = 0, sin_addr = 0\<rparr>" and ?hooks = "server_hooks sim_os (echo_hooks sim_os)"
    and ?step = "program_step sim_os (echo_hooks sim_os) (\<lambda>_. Inr)"
  obtain w1 :: "simk ssys" where w1: "connection_made sim_os 5 15 40 ?peer 10
      ((EventLoopThreadPool_ctor 0 ''s'')\<lparr>m_loops := [10, 11], m_next := 1\<rparr>) server_world w1"
      "TcpServer_newConnection sim_os ?hooks 5 15 40 ?peer server_world =
         runInLoop sim_os 10 (ConnectEstablished_fn 5) (connectEstablished sim_os ?hooks 5) w1"
    using newConnection_makes [OF server_world_pool(3)] by blast
  have M: "m_channel (conn_of w1 5) = 15" "loop_of w1 = loop_of server_world" "cur_thread w1 = 7" "m_chLoop (chan w1 15) = 10"
    using w1 by (simp_all add: connection_made_def Let_def new_chan_def setReadCallback_def setWriteCallback_def
        setCloseCallback_def setErrorCallback_def Channel_ctor_def)
  define w2 where "w2 = queueInLoop sim_os 10 (ConnectEstablished_fn 5) w1"
  have here: "server_world\<lparr>cur_thread := 7\<rparr> = server_world"
    by (simp add: server_world_def)
  have "TcpServer_newConnection sim_os ?hooks 5 15 40 ?peer
      (server_world\<lparr>cur_thread := m_threadId (loop_of server_world (m_srvLoop (server_of server_world)))\<rparr>) = Inr w2"
    using w1(2) M by (simp add: here runInLoop_def isInLoopThread_def w2_def)
  then have s1: "?step ([], server_world) ([5], w2)"
    using program_step.accept [of 5 "[]" 15 server_world sim_os "echo_hooks sim_os" 40 ?peer w2 "\<lambda>_. Inr"] by simp
  have "pending 10 w2 = [ConnectEstablished_fn 5]"
    using M by (simp add: w2_def pending_def) (simp add: server_world_def)
  note head = this
  let ?v = "popped 10 [] w2"
  have v: "chan ?v = chan w1" "poller_of ?v = poller_of w1" "conn_of ?v = conn_of w1" "k_interest (kern ?v) = k_interest (kern w1)"
    by (simp_all add: w2_def popped_def upd_loop_def queueInLoop_interest [OF sim_neutral])
  have c2: "conn_of w2 = conn_of w1" by (simp add: w2_def)
  note ready = made_channel_ready [OF sim_epoll sim_listen_neutral server_world_place w1(1) v(1,2,4,3)]
  obtain w3 :: "simk ssys" where w3: "m_state (conn_of w3 5) = Connected" "channel_watched k_interest 15 w3 = Some kReadEvent"
      "registry_ok sim_os k_interest 15 w3" "conn_of w3 = (conn_of ?v)(5 := (conn_of ?v 5)\<lparr>m_state := Connected\<rparr>)"
      "connectEstablished sim_os ?hooks 5 ?v = call_user (m_connectionCallback (conn_of ?v 5)) (\<lambda>cb. call_connection ?hooks cb 5) w3"
      "server_kept ?v w3" "loop_of w3 = loop_of ?v"
    using connectEstablished_watches [OF ready, of ?hooks] M(1) by (auto simp: c2)
  have "run_closure sim_os ?hooks (\<lambda>_. Inr) (ConnectEstablished_fn 5) ?v = Inr w3"
    using w3(5) by (simp add: run_closure_def call_user_def server_hooks_def echo_hooks_def silent_hooks_def split: option.split)
  then have s2: "?step ([5], w2) ([5], w3)"
    by (rule program_step.run_functor [OF head])
  have "reachable (server_started (server_of server_world)) ?step ([], server_world)"
    by (rule reachable_init, rule server_world_started)
  note reach = reachable_step [OF this s1]
  have srv: "server_of w3 = server_of w1" "\<And>l. m_threadId (loop_of w3 l) = m_threadId (loop_of server_world l)"
    using w3(6,7) M(2) by (simp_all add: server_kept_def w2_def popped_def upd_loop_def)
  then have pool: "getNextLoop (m_threadPool (server_of w3)) = Inr (11, (EventLoopThreadPool_ctor 0 ''s'')\<lparr>m_loops := [10, 11], m_next := 0\<rparr>)"
      "m_srvLoop (server_of w3) = 0"
    using w1(1) by (simp_all add: connection_made_def Let_def getNextLoop_def EventLoopThreadPool_ctor_def word_le_nat_alt)
  have c3: "m_channel (conn_of w3 5) = 15"
    using w3(4) M(1) v(3) by simp
  then have "registered 5 w3"
    using w3(2,3) watched_iff [of k_interest "{}" "m_chLoop (chan w3 15)" w3 15]
    by (auto simp: registered_def conn_chan_def registry_ok_def channel_watched_def split: if_splits)
  moreover have "\<not> registered 5 w2" "m_threadId (loop_of w2 (m_tcLoop (conn_of w2 5))) = 20"
    using w1(1) M(1,2) by (simp_all add: w2_def registered_def conn_chan_def connection_made_def Let_def new_chan_def
        setReadCallback_def setWriteCallback_def setCloseCallback_def setErrorCallback_def Channel_ctor_def status_values)
  ultimately show ?thesis
    using that [OF reach s2 w3(1)] pool srv(2) c3 by blast
qed


end
