(* ===== verification/Races.thy ===== *)
theory Races
  imports Lifetime
begin

text \<open>
  Orders of events the code does not guard against. \<open>shutdown\<close> tests \<open>m_state\<close> and stores to it in two
  separate accesses, so a store that comes late brings a closed connection back; a channel whose
  events say both hang-up and urgent data closes its connection twice, which registers the channel anew; and
  the closures of \<open>send\<close> capture a raw pointer, so one that is queued late outlives its connection.
\<close>

section \<open>The late store of \<open>shutdown\<close>\<close>

text \<open>The second half of \<open>shutdown\<close>, for a thread that tested the state earlier.\<close>

inductive race_step ::
    "'k os \<Rightarrow> (('k, 'z) ssys_scheme) conn_hooks \<Rightarrow> (nat \<Rightarrow> ('k, 'z) ssys_scheme \<Rightarrow> ('k, 'z) ssys_scheme result) \<Rightarrow>
       conn_ptr list \<times> ('k, 'z) ssys_scheme \<Rightarrow> conn_ptr list \<times> ('k, 'z) ssys_scheme \<Rightarrow> bool"
  for os :: "'k os" and user :: "(('k, 'z) ssys_scheme) conn_hooks" and ufn where
  whole: "program_step os user ufn s s' \<Longrightarrow> race_step os user ufn s s'"
| late_shutdown: "p \<in> set ps \<Longrightarrow> m_state (conn_of w p) \<noteq> Connecting \<Longrightarrow>
    runInLoop os (m_tcLoop (conn_of w p)) (ShutdownInLoop_fn p) (shutdownInLoop os p) (setState p Disconnecting (w\<lparr>cur_thread := t\<rparr>))
      = Inr w' \<Longrightarrow>
    race_step os user ufn (ps, w) (ps, w')"

text \<open>A write the kernel does not take: everything goes to the output buffer, and the channel is registered.\<close>

lemma blocked_send_registers:
  fixes v :: "('k, 'z) ssys_scheme"
  assumes ready: "conn_ready os interest p (length bs) v" and st: "m_state (conn_of v p) \<noteq> Disconnected"
    and idle: "m_events (conn_chan p v) = 0" "readableBytes (m_outputBuffer (conn_of v p)) = 0"
    and cb: "m_highWaterMarkCallback (conn_of v p) = None" and bs: "bs \<noteq> []"
    and full: "fst (sys_write os (m_fd (conn_chan p v)) bs (kern v)) = Inl EWOULDBLOCK"
  shows "\<exists>v' b. sendInLoop os p bs v = Inr v' \<and> channel_watched interest (m_channel (conn_of v p)) v' = Some kWriteEvent \<and>
     registry_ok os interest (m_channel (conn_of v p)) v' \<and> conn_of v' = (conn_of v)(p := (conn_of v p)\<lparr>m_outputBuffer := b\<rparr>) \<and>
     server_of v' = server_of v \<and> loop_of v' = loop_of v"
proof -
  let ?c = "m_channel (conn_of v p)"
  obtain k' where k: "sys_write os (m_fd (chan v ?c)) bs (kern v) = (Inl EWOULDBLOCK, k')"
    using full by (cases "sys_write os (m_fd (chan v ?c)) bs (kern v)") (simp add: conn_chan_def)
  have same: "interest k' = interest (kern v)"
    using ready k unfolding conn_ready_def socket_calls_neutral_def by (metis snd_conv)
  have room: "length bs \<le> max_vector" and ok: "buffer_ok (m_outputBuffer (conn_of v p))"
    "length (m_buffer (m_outputBuffer (conn_of v p))) + length bs \<le> max_vector"
    using ready by (auto simp: conn_ready_def)
  have some: "0 < vector_size bs"
    using bs unat_of_nat_object [OF room] by (simp add: vector_size_def unat_gt_0 [symmetric] word_less_nat_alt)
  obtain b where b: "Buffer_append bs (m_outputBuffer (conn_of v p)) = Inr b"
    using buf.push_room [OF ok(1), of bs] buf.light_room [OF ok(1), of bs] ok(2) by (auto simp: succeeds_def)
  define w where "w = upd_conn p (\<lambda>t. t\<lparr>m_outputBuffer := b\<rparr>) (v\<lparr>kern := k'\<rparr>)"
  have "registry_ok os interest ?c w"
    by (rule registry_ok_same [of os interest ?c v]) (use ready same in \<open>simp_all add: conn_ready_def w_def\<close>)
  from change_mask_registers [OF this, of "\<lambda>m. m OR kWriteEvent"] idle
  obtain v' where v': "change_mask os (\<lambda>m. m OR kWriteEvent) ?c w = Inr v'" "registry_ok os interest ?c v'"
      "channel_watched interest ?c v' = Some kWriteEvent"
    by (auto simp: succeeds_def w_def conn_chan_def event_masks epoll_bits)
  have "mask_changed (\<lambda>m. m OR kWriteEvent) ?c w v'"
    using holdsD [OF change_mask_changed v'(1)] .
  moreover have "server_of v' = server_of w"
    by (rule change_mask_server [OF v'(1)])
  moreover have "\<not> isWriting (chan v ?c)"
    using idle by (simp add: isWriting_def conn_chan_def)
  then have "sendInLoop os p bs v = Inr v'"
    using st idle(2) cb some v'(1) k b
    by (simp add: sendInLoop_def send_rest_def Let_def conn_chan_def channel_ops_change_mask w_def)
  ultimately show ?thesis
    using v' by (intro exI [of _ v'] exI [of _ b]) (simp add: mask_changed_def w_def upd_conn_def)
qed

section \<open>Closing twice\<close>

text \<open>The read callback at the end of the stream.\<close>

lemma handleRead_eof:
  assumes "buffer_ok (m_inputBuffer (conn_of w p))" and "readv_contract os"
    and "length (m_buffer (m_inputBuffer (conn_of w p))) + 65536 \<le> max_vector"
    and "sys_readv os (m_fd (conn_chan p w)) (read_caps (m_inputBuffer (conn_of w p))) (kern w) = (Inr [], k')"
  shows "\<exists>b. TcpConnection_handleRead os hooks p t w =
    TcpConnection_handleClose os hooks p (upd_conn p (\<lambda>c. c\<lparr>m_inputBuffer := b\<rparr>) (w\<lparr>kern := k'\<rparr>))"
proof -
  obtain b where "Buffer_readFd os (m_fd (conn_chan p w)) (m_inputBuffer (conn_of w p)) (kern w) = Inr (Inr 0, b, k')"
    using Buffer_readFd_ok [OF assms(1-3), of "m_fd (conn_chan p w)" "kern w" "[]" k'] assms(4)
    by (auto simp: succeeds_def read_caps_def)
  then show ?thesis
    by (intro exI [of _ b]) (simp add: TcpConnection_handleRead_def conn_chan_def Let_def)
qed

section \<open>A connection that was closed\<close>

text \<open>The connection at 5, on descriptor 6, with its channel at 8, in io loop 10 of the concrete server.\<close>

definition gone_world :: "conn_state \<Rightarrow> simk ssys" where
  "gone_world st = server_world\<lparr>chan := (\<lambda>_. Channel_ctor 9 0)(8 := Channel_tie 5 (setRevents (EPOLLHUP OR EPOLLPRI)
       (setReadCallback (TcpConnection_handleRead_cb 5) (setCloseCallback (TcpConnection_handleClose_cb 5) (Channel_ctor 10 6))))),
     conn_of := (\<lambda>_. (conn_of calm 4)\<lparr>m_tcLoop := 10, m_state := st, m_highWaterMarkCallback := None, m_closeCallback := Some server_cb\<rparr>),
     cur_thread := 20\<rparr>"

lemma gone_world_simps [simp]:
  "conn_of (gone_world st) q = (conn_of calm 4)\<lparr>m_tcLoop := 10, m_state := st, m_highWaterMarkCallback := None, m_closeCallback := Some server_cb\<rparr>"
  "loop_of (gone_world st) = loop_of server_world" "cur_thread (gone_world st) = 20"
  "server_of (gone_world st) = server_of server_world" "m_channel (conn_of calm 4) = 8"
  "buffer_ok (m_outputBuffer (conn_of calm 4))" "readableBytes (m_outputBuffer (conn_of calm 4)) = 0" "m_inputBuffer (conn_of calm 4) = sample_buffer"
  using retrieveAll_ok [OF sample_buffer_ok]
  by (simp_all add: gone_world_def calm_def conn_world_def retrieveAll_def readableBytes_def sample_buffer_def)

lemma calm_small: "Suc (length (m_buffer (m_outputBuffer (conn_of calm 4)))) \<le> max_vector"
  "length (m_buffer sample_buffer) + 65536 \<le> max_vector"
  by (simp_all add: calm_def conn_world_def retrieveAll_def sample_buffer_def max_vector_def)

lemma gone_world_registry: "epoll_contract os k_interest \<Longrightarrow> registry_ok os k_interest 8 (gone_world st)"
  by (simp add: registry_ok_def poller_inv_def fd_free_def gone_world_def Channel_tie_def setRevents_def setReadCallback_def setCloseCallback_def Channel_ctor_def status_values boot_def server_world_def)

text \<open>A kernel whose sockets take nothing and are at the end of their streams.\<close>

definition stuck_os :: "simk os" where
  "stuck_os = sim_os\<lparr>sys_write := (\<lambda>fd bs k. (Inl EWOULDBLOCK, k)), sys_readv := (\<lambda>fd caps k. (Inr [], k))\<rparr>"

lemma stuck_contracts:
  "epoll_contract stuck_os k_interest" "socket_calls_neutral stuck_os k_interest" "readv_contract stuck_os"
  using sim_epoll sim_neutral by (auto simp: stuck_os_def epoll_contract_def socket_calls_neutral_def readv_contract_def)

section \<open>Properties\<close>

text \<open>
  C14: \<open>shutdown\<close> races with the teardown. Let a connection be closed and gone from the map and the queues,
  with one thread between the test and the store of \<open>shutdown\<close> and another between the test and the
  queueing of \<open>send\<close>. There is an order of the steps that remain in which the stored \<open>Disconnecting\<close>
  makes the late \<open>sendInLoop\<close> go on, and its \<open>enableWriting\<close> registers the channel with the kernel again
  although nobody will ever unregister it.
\<close>

theorem shutdown_race_dangles:
  fixes w :: "('k, 'z) ssys_scheme" and p :: conn_ptr
  defines "l \<equiv> m_tcLoop (conn_of w p)" and "c \<equiv> m_channel (conn_of w p)"
  assumes "p \<in> set ps" and "conn_ready os interest p (length bs) w" and "m_state (conn_of w p) = Disconnected"
    and "\<not> alive p w" and "pending l w = []" and "m_events (chan w c) = 0"
    and "readableBytes (m_outputBuffer (conn_of w p)) = 0" and "m_highWaterMarkCallback (conn_of w p) = None"
    and "bs \<noteq> []" and "\<And>k. fst (sys_write os (m_fd (chan w c)) bs k) = Inl EWOULDBLOCK" and "t \<noteq> m_threadId (loop_of w l)"
  shows "\<exists>w'. (race_step os user ufn)\<^sup>*\<^sup>* (ps, w) (ps, w') \<and>
     registered p w' \<and> channel_watched interest c w' = Some kWriteEvent \<and> \<not> alive p w'"
proof -
  let ?s = "race_step os user ufn" and ?send = "SendInLoop_fn p bs" and ?shut = "ShutdownInLoop_fn p"
  define w1 where "w1 = queueInLoop os l ?send (w\<lparr>cur_thread := t\<rparr>)"
  define w2 where "w2 = queueInLoop os l ?shut (setState p Disconnecting (w1\<lparr>cur_thread := t\<rparr>))"
  define v where "v = popped l [?shut] w2"
  have nt: "socket_calls_neutral os interest"
    using assms(4) by (simp add: conn_ready_def)
  have s1: "?s (ps, w) (ps, w1)"
    unfolding w1_def l_def by (rule race_step.whole, rule program_step.late_send) (use assms in simp_all)
  have "runInLoop os (m_tcLoop (conn_of w1 p)) ?shut (shutdownInLoop os p) (setState p Disconnecting (w1\<lparr>cur_thread := t\<rparr>)) = Inr w2"
    using assms(13) by (simp add: w1_def w2_def runInLoop_def isInLoopThread_def l_def)
  then have s2: "?s (ps, w1) (ps, w2)"
    by (intro race_step.late_shutdown) (use assms in \<open>simp_all add: w1_def\<close>)
  have head: "pending l w2 = ?send # [?shut]"
    using assms(7) by (simp add: w2_def w1_def pending_def)
  have V: "chan v = chan w" "poller_of v = poller_of w" "interest (kern v) = interest (kern w)"
      "conn_of v = (conn_of w)(p := (conn_of w p)\<lparr>m_state := Disconnecting\<rparr>)" "server_of v = server_of w"
      "\<And>x. pending x v = (if x = l then [?shut] else pending x w)"
    by (simp_all add: v_def popped_def upd_loop_def w2_def w1_def setState_def upd_conn_def pending_def queueInLoop_interest [OF nt])
  have "conn_ready os interest p (length bs) v"
    by (rule conn_ready_same [OF assms(4)]) (use assms(4) V in \<open>simp_all add: conn_ready_def\<close>)
  from blocked_send_registers [OF this] assms(8-12)
  obtain v' b where v': "sendInLoop os p bs v = Inr v'" "channel_watched interest c v' = Some kWriteEvent"
      "registry_ok os interest c v'" "conn_of v' = (conn_of v)(p := (conn_of v p)\<lparr>m_outputBuffer := b\<rparr>)"
      "server_of v' = server_of v" "loop_of v' = loop_of v"
    by (auto simp: V conn_chan_def c_def)
  have s3: "?s (ps, w2) (ps, v')"
    by (rule race_step.whole, rule program_step.run_functor [OF head]) (simp add: run_closure_def v'(1) flip: v_def)
  have "\<not> alive p v'"
    using assms(6) v'(4-6) V(6) by (auto simp: alive_def V pending_def l_def holds_conn_def split: if_splits)
  moreover have "registered p v'"
    using v'(2-4) watched_iff [of interest "{}" "m_chLoop (chan v' c)" v' c]
    by (auto simp: registered_def conn_chan_def registry_ok_def channel_watched_def V c_def split: if_splits)
  ultimately show ?thesis
    using s1 s2 s3 v'(2) by (blast intro: converse_rtranclp_into_rtranclp rtranclp.rtrancl_refl)
qed

text \<open>The closed connection of \<open>gone_world\<close>, byte 7 and thread 99.\<close>

theorem shutdown_race_dangles_witness:
  "\<exists>w' :: simk ssys. (race_step stuck_os (echo_hooks stuck_os) (\<lambda>_. Inr))\<^sup>*\<^sup>* ([5], gone_world Disconnected) ([5], w') \<and>
     registered 5 w' \<and> \<not> alive 5 w'"
proof -
  have "conn_ready stuck_os k_interest 5 1 (gone_world Disconnected)"
    using stuck_contracts gone_world_registry [OF stuck_contracts(1)] calm_small by (simp add: conn_ready_def)
  moreover have "\<not> alive 5 (gone_world Disconnected)" "pending 10 (gone_world Disconnected) = []" "m_events (chan (gone_world Disconnected) 8) = 0"
    by (simp_all add: alive_def pending_def) (simp_all add: server_world_def gone_world_def Channel_ctor_def
        Channel_tie_def setRevents_def setReadCallback_def setCloseCallback_def)
  ultimately show ?thesis
    using shutdown_race_dangles [where w = "gone_world Disconnected" and p = 5 and ps = "[5]" and bs = "[7]" and os = stuck_os
        and interest = k_interest and user = "echo_hooks stuck_os" and ufn = "\<lambda>_. Inr" and t = 99]
    by (auto simp: stuck_os_def)
qed

text \<open>
  C23: A channel that reports a hang-up with urgent data and no input, at the end of the stream, closes its
  connection twice: the close callback runs, then the read callback meets the end of the stream and closes
  again. The second \<open>disableAll\<close> finds a channel that is not registered and adds it to the kernel's interest
  list, for no events; and the removal of the connection is queued twice.
\<close>

theorem double_close_reregisters:
  fixes w :: "('k, 'z) ssys_scheme" and p :: conn_ptr
  defines "c \<equiv> m_channel (conn_of w p)" and "b \<equiv> m_srvLoop (server_of w)"
  assumes "registry_ok os interest c w" and "channel_watched interest c w \<noteq> None"
    and "socket_calls_neutral os interest" and "onlooker interest user"
    and "tcpconn.m_closeCallback (conn_of w p) = Some server_cb" and "\<not> isInLoopThread b w"
    and "m_tie (chan w c) = Some p" and "alive p w" and "m_revents (chan w c) = EPOLLHUP OR EPOLLPRI"
    and "channel.m_closeCallback (chan w c) = Some (TcpConnection_handleClose_cb p)"
    and "m_readCallback (chan w c) = Some (TcpConnection_handleRead_cb p)"
    and "readv_contract os" and "buffer_ok (m_inputBuffer (conn_of w p))"
    and "length (m_buffer (m_inputBuffer (conn_of w p))) + 65536 \<le> max_vector"
    and "\<And>caps k. fst (sys_readv os (m_fd (chan w c)) caps k) = Inr [] \<and> interest (snd (sys_readv os (m_fd (chan w c)) caps k)) = interest k"
  shows "succeeds (\<lambda>w'. m_state (conn_of w' p) = Disconnected \<and> channel_watched interest c w' = Some 0 \<and>
       (\<exists>fs gs. pending b w' = pending b w @ fs @ [RemoveConnectionInLoop_fn p] @ gs @ [RemoveConnectionInLoop_fn p]))
     (Channel_handleEvent alive (invoke_callback os (server_hooks os user) dflt new) c t w)"
proof -
  let ?hooks = "server_hooks os user"
  note close = handleClose_remote [OF _ assms(5,6), folded b_def]
  obtain w1 :: "('k, 'z) ssys_scheme" where w1: "TcpConnection_handleClose os ?hooks p w = Inr w1"
      "registry_ok os interest c w1" "channel_watched interest c w1 = None"
      "conn_of w1 = (conn_of w)(p := (conn_of w p)\<lparr>m_state := Disconnected\<rparr>)" "server_of w1 = server_of w"
      "m_fd (chan w1 c) = m_fd (chan w c)" "dispatch_fields (chan w1 c) = dispatch_fields (chan w c)" "cur_thread w1 = cur_thread w"
      "\<And>l. m_threadId (loop_of w1 l) = m_threadId (loop_of w l)"
      "\<exists>fs. pending b w1 = pending b w @ fs @ [RemoveConnectionInLoop_fn p]"
    using close [of w p] assms(3-4,7-8) unfolding c_def b_def closed_remotely_def succeeds_def conn_chan_def pending_def by auto
  define k' where "k' = snd (sys_readv os (m_fd (chan w1 c)) (read_caps (m_inputBuffer (conn_of w1 p))) (kern w1))"
  have c1: "m_channel (conn_of w1 p) = c" and i1: "m_inputBuffer (conn_of w1 p) = m_inputBuffer (conn_of w p)"
    using w1(4) by (simp_all add: c_def)
  have "sys_readv os (m_fd (conn_chan p w1)) (read_caps (m_inputBuffer (conn_of w1 p))) (kern w1) = (Inr [], k')"
    using assms(17) w1(6) by (simp add: k'_def conn_chan_def c1 prod_eq_iff)
  then obtain d where rd: "TcpConnection_handleRead os ?hooks p t w1 =
      TcpConnection_handleClose os ?hooks p (upd_conn p (\<lambda>c. c\<lparr>m_inputBuffer := d\<rparr>) (w1\<lparr>kern := k'\<rparr>))"
    using handleRead_eof [of w1 p os k' ?hooks t] assms(14-16) i1 by auto
  let ?w2 = "upd_conn p (\<lambda>c. c\<lparr>m_inputBuffer := d\<rparr>) (w1\<lparr>kern := k'\<rparr>)"
  have same: "interest (kern ?w2) = interest (kern w1)"
    using assms(17) w1(6) by (simp add: k'_def)
  have "registry_ok os interest (m_channel (conn_of ?w2 p)) ?w2"
    by (rule registry_ok_same [of os interest _ w1]) (use w1(2) c1 same in simp_all)
  moreover have "channel_watched interest c ?w2 = None"
    using w1(3) same by (simp add: channel_watched_def watched_def)
  ultimately have "succeeds (\<lambda>w'. m_state (conn_of w' p) = Disconnected \<and> channel_watched interest c w' = Some 0 \<and>
      m_revents (chan w' c) = EPOLLHUP OR EPOLLPRI \<and>
      (\<exists>gs. pending b w' = pending b w1 @ gs @ [RemoveConnectionInLoop_fn p])) (TcpConnection_handleClose os ?hooks p ?w2)"
    using assms(7,8,11) w1(4,5,7,8,9) c1
    by (intro succeeds_mono [OF close]) (auto simp: closed_remotely_def isInLoopThread_def pending_def b_def conn_chan_def dispatch_fields_def)
  then obtain w' where w': "TcpConnection_handleRead os ?hooks p t w1 = Inr w'" "m_state (conn_of w' p) = Disconnected"
      "channel_watched interest c w' = Some 0" "m_revents (chan w' c) = EPOLLHUP OR EPOLLPRI"
      "\<exists>gs. pending b w' = pending b w1 @ gs @ [RemoveConnectionInLoop_fn p]"
    unfolding rd succeeds_def by blast
  have "Channel_handleEvent alive (invoke_callback os ?hooks dflt new) c t w = Inr w'"
    using assms(9-13) w1(1,7) w'(1,4)
    by (simp add: Channel_handleEvent_def handleEventWithGuard_def call_opt_def invoke_callback_def Let_def
        dispatch_fields_def epoll_bits)
  then show ?thesis
    using w'(2,3,5) w1(10) by (auto simp: succeeds_def) blast
qed

theorem double_close_reregisters_witness:
  "\<exists>w :: simk ssys. m_state (conn_of w 5) = Connected \<and>
     succeeds (\<lambda>w'. channel_watched k_interest 8 w' = Some 0)
       (Channel_handleEvent alive (invoke_callback stuck_os (server_hooks stuck_os silent_hooks) (m_peerAddr (conn_of calm 4)) (\<lambda>_. (9, 9))) 8 0 w)"
proof -
  define v where "v = upd_server (\<lambda>s. s\<lparr>m_connections := [''c'' \<mapsto> 5]\<rparr>) (gone_world Connected)"
  have v: "chan v = chan (gone_world Connected)" "poller_of v = poller_of (gone_world Connected)" "kern v = kern (gone_world Connected)"
      "conn_of v 5 = conn_of (gone_world Connected) 5" "m_connections (server_of v) = [''c'' \<mapsto> 5]" "m_srvLoop (server_of v) = 0"
      "loop_of v = loop_of server_world" "cur_thread v = 20" "m_name (conn_of calm 4) = ''c''"
    by (simp_all add: v_def upd_server_def calm_def conn_world_def)
  have "registry_ok stuck_os k_interest 8 v"
    by (rule registry_ok_same [OF gone_world_registry [OF stuck_contracts(1)]]) (simp_all add: v)
  from change_mask_registers [OF this, of "\<lambda>m. m OR kReadEvent"]
  obtain w where w: "change_mask stuck_os (\<lambda>m. m OR kReadEvent) 8 v = Inr w" "registry_ok stuck_os k_interest 8 w"
      "channel_watched k_interest 8 w \<noteq> None"
    by (auto simp: succeeds_def or_eq_0_iff event_masks epoll_bits)
  have m: "mask_changed (\<lambda>m. m OR kReadEvent) 8 v w" "server_of w = server_of v"
    using holdsD [OF change_mask_changed w(1)] change_mask_server [OF w(1)] by simp_all
  have f: "m_tie (chan w 8) = Some 5" "m_revents (chan w 8) = EPOLLHUP OR EPOLLPRI"
      "channel.m_closeCallback (chan w 8) = Some (TcpConnection_handleClose_cb 5)"
      "m_readCallback (chan w 8) = Some (TcpConnection_handleRead_cb 5)"
    using m by (auto simp: mask_changed_def v gone_world_def Channel_tie_def setRevents_def setReadCallback_def
        setCloseCallback_def setChannelStatus_def)
  have c: "conn_of w 5 = conn_of (gone_world Connected) 5" "loop_of w = loop_of server_world" "cur_thread w = 20"
    using m v by (simp_all add: mask_changed_def)
  have c8: "m_channel (conn_of w 5) = 8"
    using c(1) by simp
  have "alive 5 w" "\<not> isInLoopThread 0 w"
    using c m(2) v by (simp_all add: alive_def isInLoopThread_def)
  moreover have "onlooker k_interest (silent_hooks :: simk ssys conn_hooks)" and "sys_readv stuck_os fd caps k = (Inr [], k)" for fd caps k
    by (rule silent_onlooker) (simp add: stuck_os_def)
  ultimately have "succeeds (\<lambda>w'. channel_watched k_interest 8 w' = Some 0)
       (Channel_handleEvent alive (invoke_callback stuck_os (server_hooks stuck_os silent_hooks) (m_peerAddr (conn_of calm 4)) (\<lambda>_. (9, 9))) 8 0 w)"
    by (intro succeeds_mono [OF double_close_reregisters [where w = w and p = 5 and os = stuck_os and interest = k_interest
          and user = silent_hooks and t = 0 and dflt = "m_peerAddr (conn_of calm 4)" and new = "\<lambda>_. (9, 9)", unfolded c8]])
      (use f c m(2) v w(2,3) stuck_contracts calm_small(2) sample_buffer_ok in simp_all)
  then show ?thesis
    using c by (intro exI [of _ w]) simp
qed

text \<open>
  C24: A closure of \<open>send\<close> can outlive its connection. Let the base loop have taken a closed connection out of
  the map, so that the queued \<open>connectDestroyed\<close> is all that holds it, while another thread stands between
  the test of \<open>send\<close> and the queueing. Then two steps later nobody holds the connection, and the
  next closure its loop runs is the \<open>sendInLoop\<close> of the destroyed object, which captured the raw \<open>this\<close>.
\<close>

theorem send_outlives_connection:
  fixes w :: "('k, 'z) ssys_scheme" and p :: conn_ptr
  defines "l \<equiv> m_tcLoop (conn_of w p)"
  assumes "p \<in> set ps" and "socket_calls_neutral os interest" and "registry_ok os interest (m_channel (conn_of w p)) w"
    and "m_state (conn_of w p) = Disconnected" and "\<not> in_map p w" and "pending l w = [ConnectDestroyed_fn p]"
    and "\<not> list_ex (holds_conn p) (pending (m_srvLoop (server_of w)) w)"
  shows "alive p w \<and> (\<exists>w'. (program_step os user ufn)\<^sup>*\<^sup>* (ps, w) (ps, w') \<and>
     pending l w' = [SendInLoop_fn p bs] \<and> \<not> alive p w')"
proof
  let ?c = "m_channel (conn_of w p)" and ?b = "m_srvLoop (server_of w)"
  define w1 where "w1 = queueInLoop os l (SendInLoop_fn p bs) (w\<lparr>cur_thread := 0\<rparr>)"
  define v where "v = popped l [SendInLoop_fn p bs] w1"
  show "alive p w"
    using assms(7) by (simp add: alive_def holds_conn_def pending_def l_def)
  have s1: "program_step os user ufn (ps, w) (ps, w1)"
    unfolding w1_def l_def by (rule program_step.late_send) (use assms in simp_all)
  have head: "pending l w1 = [ConnectDestroyed_fn p, SendInLoop_fn p bs]"
    using assms(7) by (simp add: w1_def pending_def)
  have V: "chan v = chan w" "poller_of v = poller_of w" "conn_of v = conn_of w" "server_of v = server_of w"
      "interest (kern v) = interest (kern w)" "\<And>x. pending x v = (if x = l then [SendInLoop_fn p bs] else pending x w)"
    by (simp_all add: v_def popped_def upd_loop_def w1_def pending_def queueInLoop_interest [OF assms(3)])
  have "registry_ok os interest (m_channel (conn_of v p)) v"
    unfolding V(3) by (rule registry_ok_same [OF assms(4)]) (simp_all add: V)
  from destroyed_runs [OF this, of "server_hooks os user" ufn] assms(5)
  obtain w' :: "('k, 'z) ssys_scheme" where w': "run_closure os (server_hooks os user) ufn (ConnectDestroyed_fn p) v = Inr w'"
      "server_of w' = server_of v" "conn_of w' = conn_of v" "loop_of w' = loop_of v"
    by (auto simp: succeeds_def V)
  have s2: "program_step os user ufn (ps, w1) (ps, w')"
    by (rule program_step.run_functor [OF head]) (use w'(1) in \<open>simp add: v_def\<close>)
  have q: "pending x w' = pending x v" for x
    by (simp add: pending_def w'(4))
  have "\<not> list_ex (holds_conn p) (pending x w')" if "x = l \<or> x = ?b" for x
    using that assms(8) by (auto simp: q V(6) holds_conn_def)
  then have "\<not> alive p w'"
    using assms(6) unfolding alive_def pending_def [symmetric] by (simp add: w'(2,3) V(3,4) in_map_def l_def)
  then show "\<exists>w'. (program_step os user ufn)\<^sup>*\<^sup>* (ps, w) (ps, w') \<and> pending l w' = [SendInLoop_fn p bs] \<and> \<not> alive p w'"
    using s1 s2 q [of l] V(6) [of l] by (metis converse_rtranclp_into_rtranclp rtranclp.rtrancl_refl)
qed

text \<open>The closed connection of \<open>gone_world\<close> with its \<open>connectDestroyed\<close> queued in loop 10.\<close>

theorem send_outlives_connection_witness:
  "\<exists>w w' :: simk ssys. alive 5 w \<and> (program_step stuck_os (echo_hooks stuck_os) (\<lambda>_. Inr))\<^sup>*\<^sup>* ([5], w) ([5], w') \<and>
     pending 10 w' = [SendInLoop_fn 5 [7]] \<and> \<not> alive 5 w'"
proof -
  let ?w = "upd_loop 10 (\<lambda>e. e\<lparr>m_pendingFunctors := [ConnectDestroyed_fn 5]\<rparr>) (gone_world Disconnected)"
  have w: "conn_of ?w = conn_of (gone_world Disconnected)" "server_of ?w = server_of server_world"
      "pending 10 ?w = [ConnectDestroyed_fn 5]" "pending 0 ?w = []" "m_srvLoop (server_of server_world) = 0"
      "m_connections (server_of server_world) = Map.empty"
    by (simp_all add: upd_loop_def pending_def) (simp_all add: server_world_def)
  have "registry_ok stuck_os k_interest 8 ?w"
    by (rule registry_ok_same [OF gone_world_registry [OF stuck_contracts(1)]]) (simp_all add: upd_loop_def)
  then show ?thesis
    using send_outlives_connection [of 5 "[5]" stuck_os k_interest ?w "echo_hooks stuck_os" "\<lambda>_. Inr" "[7]"] stuck_contracts(2)
    by (auto simp: w in_map_def)
qed

end
