(* ===== verification/Echo.thy ===== *)
theory Echo
  imports Races
begin

text \<open>
  An echo server from end to end: the io thread hands readable and writable events to a connection
  whose message callback sends the input back. What the kernel delivers on the connection is what it is
  given to send, in order, and nothing else.
\<close>

section \<open>Runs\<close>

datatype echo_event = Readable timestamp | Writable

text \<open>The bytes \<open>readv\<close> delivers to the next \<open>handleRead\<close>.\<close>

definition delivered :: "'k os \<Rightarrow> conn_ptr \<Rightarrow> ('k, 'z) csys_scheme \<Rightarrow> byte list" where
  "delivered os p w =
     (case fst (sys_readv os (m_fd (conn_chan p w)) (read_caps (m_inputBuffer (conn_of w p))) (kern w)) of
        Inl e \<Rightarrow> [] | Inr bs \<Rightarrow> bs)"

text \<open>A channel gets only the events it asked for. The run also returns the bytes delivered.\<close>

fun echo_run ::
    "'k os \<Rightarrow> (('k, 'z) csys_scheme) conn_hooks \<Rightarrow> conn_ptr \<Rightarrow> echo_event list \<Rightarrow>
       ('k, 'z) csys_scheme \<Rightarrow> (byte list \<times> ('k, 'z) csys_scheme) result" where
  "echo_run os hooks p [] w = Inr ([], w)"
| "echo_run os hooks p (Readable t # es) w =
     (if isReading (conn_chan p w)
      then andThen (TcpConnection_handleRead os hooks p t w) (\<lambda>w1.
             andThen (echo_run os hooks p es w1) (\<lambda>(bs, w2). Inr (delivered os p w @ bs, w2)))
      else echo_run os hooks p es w)"
| "echo_run os hooks p (Writable # es) w = andThen (TcpConnection_handleWrite os p w) (echo_run os hooks p es)"

fun reads :: "echo_event list \<Rightarrow> nat" where
  "reads [] = 0"
| "reads (Readable t # es) = Suc (reads es)"
| "reads (Writable # es) = reads es"

text \<open>The calls of the reading side leave the interest lists alone.\<close>

definition read_calls_neutral :: "'k os \<Rightarrow> ('k \<Rightarrow> int \<Rightarrow> int \<Rightarrow> epoll_event option) \<Rightarrow> bool" where
  "read_calls_neutral os interest \<longleftrightarrow>
     (\<forall>fd caps k. interest (snd (sys_readv os fd caps k)) = interest k) \<and>
     (\<forall>fd k. interest (snd (sys_so_error os fd k)) = interest k)"

text \<open>What \<open>n\<close> readable events can need: each adds at most 65536 bytes to the vector of the input buffer,
  and delivers at most what then fits in it, all of which may have to wait in the output buffer.\<close>

definition echo_need :: "nat \<Rightarrow> buffer \<Rightarrow> nat" where
  "echo_need n b = n * (length (m_buffer b) + 65536 * n)"

lemma echo_need_step:
  assumes "length (m_buffer b') \<le> length (m_buffer b) + 65536" and "d \<le> length (m_buffer b) + 65536"
  shows "echo_need n b' + d \<le> echo_need (Suc n) b"
proof -
  have "n * (length (m_buffer b') + 65536 * n) \<le> n * (length (m_buffer b) + 65536 * Suc n)"
    using assms(1) by (intro mult_le_mono2) simp
  moreover have "d \<le> length (m_buffer b) + 65536 * Suc n"
    using assms(2) by simp
  ultimately have "echo_need n b' + d \<le> n * (length (m_buffer b) + 65536 * Suc n) + (length (m_buffer b) + 65536 * Suc n)"
    unfolding echo_need_def by (rule add_mono)
  then show ?thesis
    by (simp only: echo_need_def mult_Suc add.commute)
qed

lemma retrieveAllAsString_all:
  assumes "buffer_ok b"
  shows "retrieveAllAsString b = Inr (contents b, retrieveAll b)"
proof -
  have n: "unat (readableBytes b) = length (contents b)"
    using assms by (simp add: length_contents unat_readableBytes)
  then show ?thesis
    using peek_prefix [OF assms, of "readableBytes b"] by (simp add: retrieveAllAsString_def retrieveAsString_def retrieve_def)
qed

section \<open>What sending and writing leave alone\<close>

text \<open>The server, and the input buffer.\<close>

definition bystanders :: "tcpserver \<Rightarrow> conn_ptr \<Rightarrow> buffer \<Rightarrow> ('k, 'z) ssys_scheme \<Rightarrow> bool" where
  "bystanders s p b w \<longleftrightarrow> server_of w = s \<and> m_inputBuffer (conn_of w p) = b"

lemma bystanders_simps [simp]:
  fixes w :: "('k, 'z) ssys_scheme"
  shows "bystanders s p b (w\<lparr>kern := k\<rparr>) = bystanders s p b w" "bystanders s p b (queueInLoop os l f w) = bystanders s p b w"
    "bystanders s p b (upd_conn p (\<lambda>t. t\<lparr>m_outputBuffer := h t\<rparr>) w) = bystanders s p b w"
  by (simp_all add: bystanders_def)

lemma mask_op_bystanders:
  fixes w :: "('k, 'z) ssys_scheme"
  assumes "bystanders s p b w"
  shows "holds (bystanders s p b) (change_mask os g c w)"
proof (unfold holds_def, intro allI impI)
  fix w' assume w': "change_mask os g c w = Inr w'"
  have "conn_of w' = conn_of w"
    using holdsD [OF change_mask_changed w'] by (simp add: mask_changed_def)
  then show "bystanders s p b w'"
    using assms change_mask_server [OF w'] by (simp add: bystanders_def)
qed

lemma send_rest_bystanders:
  fixes w :: "('k, 'z) ssys_scheme"
  shows "bystanders s p b w \<Longrightarrow> holds (bystanders s p b) (send_rest os p d n r fault w)"
  unfolding send_rest_def Let_def channel_ops_change_mask
  by (auto intro!: holds_andThen [where P = "\<lambda>_. True"] mask_op_bystanders simp: holds_def [of "\<lambda>_. True"])

lemma sendInLoop_bystanders:
  fixes w :: "('k, 'z) ssys_scheme"
  shows "bystanders s p b w \<Longrightarrow> holds (bystanders s p b) (sendInLoop os p d w)"
  unfolding sendInLoop_def Let_def
  by (auto intro!: send_rest_bystanders split: prod.split sum.split)

lemma handleWrite_bystanders:
  fixes w :: "('k, 'z) ssys_scheme"
  shows "bystanders s p b w \<Longrightarrow> holds (bystanders s p b) (TcpConnection_handleWrite os p w)"
  unfolding TcpConnection_handleWrite_def Let_def channel_ops_change_mask shutdownInLoop_def
  by (auto intro!: holds_andThen [where P = "\<lambda>_. True" and r = "Buffer_writeFd os fd ob k" for fd ob k]
      holds_andThen [where P = "bystanders s p b"] mask_op_bystanders
      simp: holds_def [of "\<lambda>_. True"] split: sum.split)

section \<open>An echoing connection\<close>

text \<open>What stays as it is: the callbacks, the thread (that of the connection's loop, which is not the base
  loop), and that the socket is no wakeup descriptor.\<close>

definition echo_set :: "conn_ptr \<Rightarrow> ('k, 'z) ssys_scheme \<Rightarrow> bool" where
  "echo_set p w \<longleftrightarrow> m_state (conn_of w p) \<in> {Connected, Disconnected} \<and>
     m_messageCallback (conn_of w p) \<noteq> None \<and> tcpconn.m_closeCallback (conn_of w p) = Some server_cb \<and>
     isInLoopThread (m_tcLoop (conn_of w p)) w \<and> \<not> isInLoopThread (m_srvLoop (server_of w)) w \<and>
     (\<forall>l. m_socket (conn_of w p) \<noteq> m_wakeupFd (loop_of w l))"

text \<open>Between events the input has been taken out.\<close>

definition echo_ok ::
    "'k os \<Rightarrow> ('k \<Rightarrow> int \<Rightarrow> int \<Rightarrow> epoll_event option) \<Rightarrow> conn_ptr \<Rightarrow> nat \<Rightarrow> ('k, 'z) ssys_scheme \<Rightarrow> bool" where
  "echo_ok os interest p n w \<longleftrightarrow>
     conn_inv p w \<and> conn_ready os interest p (echo_need n (m_inputBuffer (conn_of w p))) w \<and>
     contents (m_inputBuffer (conn_of w p)) = [] \<and> echo_set p w"

lemma echo_set_confined:
  fixes w w' :: "('k, 'z) ssys_scheme"
  assumes "confined p w w'" and "server_of w' = server_of w" and "m_state (conn_of w' p) = m_state (conn_of w p)" and "echo_set p w"
  shows "echo_set p w'"
proof -
  obtain st i out where c: "conn_of w' p = (conn_of w p)\<lparr>m_state := st, m_inputBuffer := i, m_outputBuffer := out\<rparr>"
    using assms(1) by (auto simp: confined_def)
  obtain fs where l: "loop_of w' = (loop_of w)(m_tcLoop (conn_of w p) := (loop_of w (m_tcLoop (conn_of w p)))
        \<lparr>m_pendingFunctors := conn_loop_functors p w @ fs\<rparr>)" and t: "cur_thread w' = cur_thread w"
    using assms(1) by (auto simp: confined_def)
  have "m_threadId (loop_of w' x) = m_threadId (loop_of w x)" "m_wakeupFd (loop_of w' x) = m_wakeupFd (loop_of w x)" for x
    by (simp_all add: l)
  then show ?thesis
    using assms(2-4) t by (simp add: echo_set_def isInLoopThread_def) (simp add: c)
qed

lemma echo_ok_sends:
  fixes w w' :: "('k, 'z) ssys_scheme"
  assumes "sends sent p bs fs w w'" and "conn_ready os interest p (echo_need n b) w'" and "bystanders (server_of w) p b w'"
    and "contents b = []" and "echo_set p w"
  shows "echo_ok os interest p n w'"
  using assms echo_set_confined [of p w w'] by (auto simp: echo_ok_def sends_def bystanders_def)

text \<open>The world with another input buffer and another kernel, of which the connection sees nothing.\<close>

lemma input_frame:
  fixes w :: "('k, 'z) ssys_scheme"
  assumes "conn_inv p w" and "conn_ready os interest p m w" and "buffer_ok b"
    and "sent k = sent (kern w)" and "interest k = interest (kern w)"
  shows "conn_inv p (upd_conn p (\<lambda>t. t\<lparr>m_inputBuffer := b\<rparr>) (w\<lparr>kern := k\<rparr>))"
    "conn_ready os interest p m (upd_conn p (\<lambda>t. t\<lparr>m_inputBuffer := b\<rparr>) (w\<lparr>kern := k\<rparr>))"
    "out_stream sent p (upd_conn p (\<lambda>t. t\<lparr>m_inputBuffer := b\<rparr>) (w\<lparr>kern := k\<rparr>)) = out_stream sent p w"
    "echo_set p w \<Longrightarrow> echo_set p (upd_conn p (\<lambda>t. t\<lparr>m_inputBuffer := b\<rparr>) (w\<lparr>kern := k\<rparr>))"
proof -
  show "conn_ready os interest p m (upd_conn p (\<lambda>t. t\<lparr>m_inputBuffer := b\<rparr>) (w\<lparr>kern := k\<rparr>))"
    by (rule conn_ready_same [OF assms(2)]) (use assms in \<open>simp_all add: conn_ready_def\<close>)
  show "conn_inv p (upd_conn p (\<lambda>t. t\<lparr>m_inputBuffer := b\<rparr>) (w\<lparr>kern := k\<rparr>))"
    using assms(1,3) by (cases "m_state (conn_of w p) = Disconnected") (simp_all add: conn_inv_def conn_chan_def pending_out_def)
qed (use assms(4) in \<open>simp_all add: pending_out_def out_stream_def echo_set_def isInLoopThread_def\<close>)

section \<open>The events\<close>

definition echo_env :: "'k os \<Rightarrow> ('k \<Rightarrow> int \<Rightarrow> byte list) \<Rightarrow> ('k \<Rightarrow> int \<Rightarrow> int \<Rightarrow> epoll_event option) \<Rightarrow> bool" where
  "echo_env os sent interest \<longleftrightarrow> write_contract os sent \<and> quiet_contract os sent \<and> readv_contract os \<and>
     accepting os \<and> read_calls_neutral os interest"

text \<open>A writable event.\<close>

lemma handleWrite_echo_ok:
  fixes w :: "('k, 'z) ssys_scheme"
  assumes env: "echo_env os sent interest" and ok: "echo_ok os interest p n w"
  shows "succeeds (\<lambda>w'. echo_ok os interest p n w' \<and> out_stream sent p w' = out_stream sent p w) (TcpConnection_handleWrite os p w)"
proof -
  let ?b = "m_inputBuffer (conn_of w p)"
  have inv: "conn_inv p w" and ready: "conn_ready os interest p (echo_need n ?b) w" and c: "contents ?b = []" "echo_set p w"
    and wc: "write_contract os sent" and quiet: "quiet_contract os sent"
    using env ok by (simp_all add: echo_env_def echo_ok_def)
  have "bystanders (server_of w) p ?b w"
    by (simp add: bystanders_def)
  note B = handleWrite_bystanders [OF this]
  show ?thesis
    by (rule succeeds_mono [OF succeeds_and_holds [OF succeeds_and_holds [OF handleWrite_returns [OF ready]
            TcpConnection_handleWrite_sends [OF wc quiet inv]] B]])
      (elim conjE, rule conjI, erule (2) echo_ok_sends [OF _ _ _ c], simp add: sends_def)
qed

text \<open>Sending the input back.\<close>

lemma echo_back:
  fixes w :: "('k, 'z) ssys_scheme"
  assumes env: "echo_env os sent interest" and inv: "conn_inv p w" and set: "echo_set p w" "m_state (conn_of w p) = Connected"
    and ready: "conn_ready os interest p (echo_need n (m_inputBuffer (conn_of w p)) + length (contents (m_inputBuffer (conn_of w p)))) w"
    and some: "contents (m_inputBuffer (conn_of w p)) \<noteq> []"
  shows "succeeds (\<lambda>w'. echo_ok os interest p n w' \<and> out_stream sent p w' = out_stream sent p w @ contents (m_inputBuffer (conn_of w p)))
     (call_user (m_messageCallback (conn_of w p)) (\<lambda>cb. call_message (server_hooks os (echo_hooks os)) cb p t) w)"
proof -
  let ?b = "m_inputBuffer (conn_of w p)" and ?d = "contents (m_inputBuffer (conn_of w p))"
  have wc: "write_contract os sent" and quiet: "quiet_contract os sent" and acc: "accepting os" and ok: "buffer_ok ?b"
    using env inv by (simp_all add: echo_env_def conn_inv_def)
  define w2 where "w2 = upd_conn p (\<lambda>t. t\<lparr>m_inputBuffer := retrieveAll ?b\<rparr>) (w\<lparr>kern := kern w\<rparr>)"
  note F = input_frame [OF inv ready, where b = "retrieveAll ?b" and k = "kern w" and sent = sent, folded w2_def]
  have all: "buffer_ok (retrieveAll ?b)" "contents (retrieveAll ?b) = []" "echo_need n (retrieveAll ?b) = echo_need n ?b"
    using retrieveAll_ok [OF ok] by (simp_all add: echo_need_def retrieveAll_def)
  have w2: "conn_inv p w2" "conn_ready os interest p (echo_need n (retrieveAll ?b) + length ?d) w2"
      "out_stream sent p w2 = out_stream sent p w" "echo_set p w2" "server_of w2 = server_of w" "m_state (conn_of w2 p) = Connected"
    using F all set by (simp_all add: w2_def)
  then have len: "length ?d \<le> max_vector"
    by (simp add: conn_ready_def)
  have "isInLoopThread (m_tcLoop (conn_of w2 p)) w2"
    using w2(4) by (simp add: echo_set_def)
  then have "call_user (m_messageCallback (conn_of w p)) (\<lambda>cb. call_message (server_hooks os (echo_hooks os)) cb p t) w = sendInLoop os p ?d w2"
    using set w2(6) retrieveAllAsString_all [OF ok]
    by (auto simp: call_user_def server_hooks_def echo_hooks_def TcpConnection_send_def Let_def w2_def echo_set_def)
  moreover have "taken os p ?d w2 = ?d"
    using acc some w2(6) unfolding taken_def first_write_def accepting_def by (metis (no_types, lifting) Inl_Inr_False conn_state.distinct fst_conv insert_iff singleton_iff)
  moreover have "bystanders (server_of w2) p (retrieveAll ?b) w2"
    by (simp add: bystanders_def w2_def)
  note B = sendInLoop_bystanders [OF this]
  have "succeeds (\<lambda>w'. echo_ok os interest p n w' \<and> out_stream sent p w' = out_stream sent p w2 @ taken os p ?d w2) (sendInLoop os p ?d w2)"
    by (rule succeeds_mono [OF succeeds_and_holds [OF succeeds_and_holds [OF sendInLoop_returns [OF w2(2)]
            sendInLoop_sends [OF wc quiet w2(1) len]] B]])
      (elim conjE, rule conjI, erule (2) echo_ok_sends [OF _ _ _ all(2) w2(4)], simp add: sends_def)
  ultimately show ?thesis
    using w2(3) by simp
qed

text \<open>Closing at the end of the stream.\<close>

lemma echo_close:
  fixes w :: "('k, 'z) ssys_scheme"
  assumes env: "echo_env os sent interest" and inv: "conn_inv p w" and set: "echo_set p w"
    and ready: "conn_ready os interest p (echo_need n (m_inputBuffer (conn_of w p))) w"
    and none: "contents (m_inputBuffer (conn_of w p)) = []"
  shows "succeeds (\<lambda>w'. echo_ok os interest p n w' \<and> out_stream sent p w' = out_stream sent p w)
     (TcpConnection_handleClose os (server_hooks os (echo_hooks os)) p w)"
proof -
  let ?c = "m_channel (conn_of w p)" and ?b = "m_srvLoop (server_of w)" and ?w0 = "setState p Disconnected w"
  have wc: "write_contract os sent" and quiet: "quiet_contract os sent" and nt: "socket_calls_neutral os interest"
    and reg: "registry_ok os interest ?c w"
    using env ready by (simp_all add: echo_env_def conn_ready_def)
  obtain w1 where w1: "change_mask os (\<lambda>_. 0) ?c ?w0 = Inr w1" "registry_ok os interest ?c w1"
    and m: "mask_changed (\<lambda>_. 0) ?c ?w0 w1" and close: "TcpConnection_handleClose os (server_hooks os (echo_hooks os)) p w =
       Inr (queueInLoop os ?b (RemoveConnectionInLoop_fn p) w1)"
    by (rule handleClose_quiet [OF reg, where user = "echo_hooks os"]) (use set in \<open>auto simp: echo_set_def echo_hooks_def silent_hooks_def\<close>)
  have A: "conn_of w1 = conn_of ?w0" "loop_of w1 = loop_of w" "cur_thread w1 = cur_thread w" "server_of w1 = server_of w"
      "sent (kern w1) = sent (kern w)" "isNoneEvent (chan w1 ?c)" "m_chLoop (chan w1 ?c) = m_chLoop (chan w ?c)" "m_fd (chan w1 ?c) = m_fd (chan w ?c)"
    using m change_mask_server [OF w1(1)] holdsD [OF change_mask_quiet [OF quiet] w1(1)] mask_changed_queries(1,5) [OF m]
    by (simp_all add: mask_changed_def)
  define w' where "w' = queueInLoop os ?b (RemoveConnectionInLoop_fn p) w1"
  have W: "conn_of w' = conn_of ?w0" "chan w' = chan w1" "cur_thread w' = cur_thread w" "server_of w' = server_of w"
      "m_threadId (loop_of w' l) = m_threadId (loop_of w l)" "m_wakeupFd (loop_of w' l) = m_wakeupFd (loop_of w l)" for l
    using A by (simp_all add: w'_def)
  have "TcpConnection_handleClose os (server_hooks os (echo_hooks os)) p w = Inr w'"
    by (simp add: close w'_def)
  moreover have "registry_ok os interest ?c w'"
    by (rule registry_ok_same [OF w1(2)]) (simp_all add: w'_def queueInLoop_interest [OF nt])
  then have "conn_ready os interest p (echo_need n (m_inputBuffer (conn_of w' p))) w'"
    using ready W(1) by (simp add: conn_ready_def)
  moreover have "conn_inv p w'"
    using inv A W by (simp add: conn_inv_def conn_chan_def)
  moreover have "echo_set p w'"
    using set W by (simp add: echo_set_def isInLoopThread_def)
  moreover have "sent (kern w') (m_socket (conn_of w p)) = sent (kern w) (m_socket (conn_of w p))"
    using queueInLoop_sent [OF wc, of "m_socket (conn_of w p)" w1 ?b] A(2,5) set by (simp add: w'_def echo_set_def)
  ultimately show ?thesis
    using none W(1) by (simp add: echo_ok_def out_stream_def pending_out_def)
qed

text \<open>A readable event.\<close>

lemma handleRead_echoes:
  fixes w :: "('k, 'z) ssys_scheme"
  assumes env: "echo_env os sent interest" and ok: "echo_ok os interest p (Suc n) w" and reading: "isReading (conn_chan p w)"
  shows "succeeds (\<lambda>w'. echo_ok os interest p n w' \<and> out_stream sent p w' = out_stream sent p w @ delivered os p w)
     (TcpConnection_handleRead os (server_hooks os (echo_hooks os)) p t w)"
proof -
  let ?b = "m_inputBuffer (conn_of w p)" and ?fd = "m_fd (conn_chan p w)" and ?hooks = "server_hooks os (echo_hooks os)"
  have inv: "conn_inv p w" and ready: "conn_ready os interest p (echo_need (Suc n) ?b) w" and c: "contents ?b = []" "echo_set p w"
    and rc: "readv_contract os" and bok: "buffer_ok ?b"
    using env ok by (simp_all add: echo_env_def echo_ok_def conn_inv_def)
  have st: "m_state (conn_of w p) = Connected"
    using c(2) inv reading by (auto simp: echo_set_def conn_inv_def dest: none_not_writing)
  obtain r k' where r: "sys_readv os ?fd (read_caps ?b) (kern w) = (r, k')" by fastforce
  have k': "sent k' = sent (kern w)" "interest k' = interest (kern w)"
    using env r unfolding echo_env_def quiet_contract_def read_calls_neutral_def by (metis snd_conv)+
  have dl: "delivered os p w = (case r of Inl e \<Rightarrow> [] | Inr bs \<Rightarrow> bs)"
    using r by (simp add: delivered_def)
  show ?thesis
  proof (cases r)
    case (Inl e)
    have "Buffer_readFd os ?fd ?b (kern w) = Inr (Inl e, ?b, k')"
      using r Inl by (intro Buffer_readFd_error) (simp add: read_caps_def)
    define k'' where "k'' = snd (sys_so_error os ?fd k')"
    have k'': "sent k'' = sent (kern w)" "interest k'' = interest (kern w)"
      using env k' unfolding echo_env_def quiet_contract_def read_calls_neutral_def k''_def by simp_all
    define w' where "w' = upd_conn p (\<lambda>t. t\<lparr>m_inputBuffer := ?b\<rparr>) (w\<lparr>kern := k''\<rparr>)"
    note F = input_frame [OF inv ready bok, where k = k'' and sent = sent, OF k'', folded w'_def]
    have "TcpConnection_handleRead os ?hooks p t w = Inr w'"
      using \<open>Buffer_readFd os ?fd ?b (kern w) = Inr (Inl e, ?b, k')\<close>
      by (simp add: TcpConnection_handleRead_def TcpConnection_handleError_def conn_chan_def Let_def w'_def k''_def upd_conn_def)
    moreover have "echo_need n ?b \<le> echo_need (Suc n) ?b"
      using echo_need_step [of ?b ?b 0] by simp
    then have "conn_ready os interest p (echo_need n ?b) w'"
      using F(2) by (simp add: conn_ready_def)
    ultimately show ?thesis
      using F(1,3,4) c Inl by (simp add: echo_ok_def dl w'_def)
  next
    case (Inr bs)
    have "length (m_buffer ?b) + 65536 \<le> max_vector"
      using ready by (simp add: conn_ready_def echo_need_def)
    from Buffer_readFd_ok [OF bok rc this, of ?fd "kern w" bs k'] r Inr
    obtain b where b: "Buffer_readFd os ?fd ?b (kern w) = Inr (Inr (length bs), b, k')" "buffer_ok b" "contents b = bs"
        "length (m_buffer b) \<le> length (m_buffer ?b) + 65536" "length bs \<le> length (m_buffer ?b) + 65536"
      using c(1) by (auto simp: succeeds_def read_caps_def)
    define w1 where "w1 = upd_conn p (\<lambda>t. t\<lparr>m_inputBuffer := b\<rparr>) (w\<lparr>kern := k'\<rparr>)"
    note F = input_frame [OF inv ready b(2), where k = k' and sent = sent, OF k', folded w1_def]
    have i1: "m_inputBuffer (conn_of w1 p) = b" "m_state (conn_of w1 p) = Connected" "m_messageCallback (conn_of w1 p) = m_messageCallback (conn_of w p)"
      using st by (simp_all add: w1_def)
    have "echo_need n b + length bs \<le> echo_need (Suc n) ?b"
      by (rule echo_need_step [OF b(4,5)])
    then have r1: "conn_ready os interest p (echo_need n b + length bs) w1"
      using F(2) by (simp add: conn_ready_def)
    have eq: "TcpConnection_handleRead os ?hooks p t w = (if bs = [] then TcpConnection_handleClose os ?hooks p w1
        else call_user (m_messageCallback (conn_of w1 p)) (\<lambda>cb. call_message ?hooks cb p t) w1)"
      using b(1) by (simp add: TcpConnection_handleRead_def conn_chan_def Let_def w1_def)
    show ?thesis
    proof (cases "bs = []")
      case True
      then show ?thesis
        using echo_close [OF env F(1) F(4) [OF c(2)], where n = n] r1 F(3) b(3) eq Inr by (simp add: i1 dl)
    next
      case False
      then show ?thesis
        using echo_back [OF env F(1) F(4) [OF c(2)], where n = n and t = t] r1 F(3) b(3) eq Inr by (simp add: i1 dl)
    qed
  qed
qed

lemma echo_run_ok:
  fixes w :: "('k, 'z) ssys_scheme"
  assumes env: "echo_env os sent interest"
  shows "echo_ok os interest p (reads es) w \<Longrightarrow>
    succeeds (\<lambda>(bs, w'). echo_ok os interest p 0 w' \<and> out_stream sent p w' = out_stream sent p w @ bs)
      (echo_run os (server_hooks os (echo_hooks os)) p es w)"
proof (induction es arbitrary: w)
  case Nil
  then show ?case by simp
next
  case (Cons e es)
  show ?case
  proof (cases e)
    case (Readable t)
    show ?thesis
    proof (cases "isReading (conn_chan p w)")
      case True
      have "echo_ok os interest p (Suc (reads es)) w"
        using Cons.prems Readable by simp
      from handleRead_echoes [OF env this True] show ?thesis
        unfolding Readable echo_run.simps if_P [OF True]
      proof (rule succeeds_andThen, elim conjE)
        fix w1 :: "('k, 'z) ssys_scheme"
        assume w1: "echo_ok os interest p (reads es) w1" "out_stream sent p w1 = out_stream sent p w @ delivered os p w"
        show "succeeds (\<lambda>(bs, w'). echo_ok os interest p 0 w' \<and> out_stream sent p w' = out_stream sent p w @ bs)
            (andThen (echo_run os (server_hooks os (echo_hooks os)) p es w1) (\<lambda>(bs, w2). Inr (delivered os p w @ bs, w2)))"
          by (rule succeeds_andThen [OF Cons.IH [OF w1(1)]]) (use w1(2) in auto)
      qed
    next
      case False
      have "echo_need (reads es) (m_inputBuffer (conn_of w p)) \<le> echo_need (Suc (reads es)) (m_inputBuffer (conn_of w p))"
        using echo_need_step [of "m_inputBuffer (conn_of w p)" "m_inputBuffer (conn_of w p)" 0] by simp
      then have "echo_ok os interest p (reads es) w"
        using Cons.prems Readable by (simp add: echo_ok_def conn_ready_def)
      then show ?thesis
        using Cons.IH False Readable by simp
    qed
  next
    case Writable
    have "echo_ok os interest p (reads es) w"
      using Cons.prems Writable by simp
    from handleWrite_echo_ok [OF env this] show ?thesis
      unfolding Writable echo_run.simps by (rule succeeds_andThen) (use Cons.IH in fastforce)
  qed
qed

section \<open>Properties\<close>


text \<open>The connection of Races.thy, reading, with three bytes of input; the kernel takes two at a time.\<close>

definition echo_world :: "simk ssys" where
  "echo_world = upd_conn 5 (\<lambda>t. t\<lparr>m_inputBuffer := retrieveAll sample_buffer\<rparr>)
     (upd_chan 8 with_reading ((gone_world Connected)\<lparr>kern := boot\<lparr>k_input := (\<lambda>_. [7, 8, 9])\<rparr>\<rparr>))"

lemma echo_world_simps:
  "conn_of echo_world 5 = (conn_of (gone_world Connected) 5)\<lparr>m_inputBuffer := retrieveAll sample_buffer\<rparr>"
  "chan echo_world = (chan (gone_world Connected))(8 := with_reading (chan (gone_world Connected) 8))"
  "poller_of echo_world = poller_of (gone_world Connected)" "kern echo_world = boot\<lparr>k_input := (\<lambda>_. [7, 8, 9])\<rparr>"
  "loop_of echo_world = loop_of server_world" "cur_thread echo_world = 20" "server_of echo_world = server_of server_world"
  "m_fd (chan (gone_world Connected) 8) = 6" "m_chLoop (chan (gone_world Connected) 8) = 10" "m_events (chan (gone_world Connected) 8) = 0"
  "m_wakeupFd (loop_of server_world l) = 5" "m_socket (conn_of calm 4) = 6" "m_messageCallback (conn_of calm 4) = Some 1"
  "pending_out 5 echo_world = []" "m_channelStatus (chan (gone_world Connected) x) = kStatusNew"
  "m_channels (poller_of (gone_world Connected) l) = (\<lambda>_. None)" "m_buffer (m_outputBuffer (conn_of calm 4)) = m_buffer sample_buffer"
  using retrieveAll_ok [OF sample_buffer_ok]
  by (simp_all add: echo_world_def pending_out_def calm_def conn_world_def gone_world_def Channel_tie_def setRevents_def
      setReadCallback_def setCloseCallback_def Channel_ctor_def server_world_def status_values retrieveAll_def)

lemma echo_world_ok: "echo_ok eager_os k_interest 5 1 echo_world"
proof -
  have "registry_ok eager_os k_interest 8 echo_world"
    using eager_contracts(4)
    by (simp add: registry_ok_def poller_inv_def fd_free_def echo_world_simps with_reading_def status_values boot_def)
  then show ?thesis
    using retrieveAll_ok [OF sample_buffer_ok] eager_contracts(5) sample_buffer_ok
    by (simp add: echo_ok_def conn_inv_def conn_ready_def echo_set_def echo_world_simps conn_chan_def isInLoopThread_def
        with_reading_def isWriting_def echo_need_def retrieveAll_def) (simp add: sample_buffer_def max_vector_def)
qed


end
