(* ===== verification/Closing.thy ===== *)
theory Closing
  imports Echo
begin

text \<open>
  The end of a connection as the loops run it: the pass of the io loop that meets the end of the stream,
  the pass of the base loop that this wakes up, and the pass of the io loop that follows.
\<close>

section \<open>The pass that closes\<close>

text \<open>A connection callback of the user that does nothing.\<close>

definition quiet_user :: "(('k, 'z) ssys_scheme) conn_hooks \<Rightarrow> bool" where
  "quiet_user user \<longleftrightarrow> (\<forall>cb q w. call_connection user cb q w = Inr w)"

text \<open>The connection is tied to its live owner, its channel reads for it, and it may read once more.\<close>

definition may_read :: "conn_ptr \<Rightarrow> ('k, 'z) ssys_scheme \<Rightarrow> bool" where
  "may_read p w \<longleftrightarrow> m_tied (conn_chan p w) \<and> m_tie (conn_chan p w) = Some p \<and> alive p w \<and>
     m_readCallback (conn_chan p w) = Some (TcpConnection_handleRead_cb p) \<and> buffer_ok (m_inputBuffer (conn_of w p)) \<and>
     length (m_buffer (m_inputBuffer (conn_of w p))) + 65536 \<le> max_vector"

text \<open>What that pass leaves of \<open>w\<close>.\<close>

definition closed_in ::
    "('k \<Rightarrow> int \<Rightarrow> int \<Rightarrow> epoll_event option) \<Rightarrow> 'k os \<Rightarrow> conn_ptr \<Rightarrow> ('k, 'z) ssys_scheme \<Rightarrow> ('k, 'z) ssys_scheme \<Rightarrow> bool" where
  "closed_in interest os p w w1 \<longleftrightarrow>
     registry_ok os interest (m_channel (conn_of w p)) w1 \<and> channel_watched interest (m_channel (conn_of w p)) w1 = None \<and>
     m_state (conn_of w1 p) = Disconnected \<and> m_channel (conn_of w1 p) = m_channel (conn_of w p) \<and>
     m_name (conn_of w1 p) = m_name (conn_of w p) \<and> m_tcLoop (conn_of w1 p) = m_tcLoop (conn_of w p) \<and>
     server_of w1 = server_of w \<and> m_chLoop (chan w1 (m_channel (conn_of w p))) = m_chLoop (chan w (m_channel (conn_of w p))) \<and>
     m_fd (chan w1 (m_channel (conn_of w p))) = m_fd (chan w (m_channel (conn_of w p))) \<and>
     (\<forall>x. x \<noteq> m_channel (conn_of w p) \<longrightarrow> chan w1 x = chan w x) \<and>
     (\<forall>x. m_epollfd (poller_of w1 x) = m_epollfd (poller_of w x) \<and>
       (m_eventList (poller_of w x) \<noteq> [] \<longrightarrow> m_eventList (poller_of w1 x) \<noteq> [])) \<and>
     (\<forall>x. m_threadId (loop_of w1 x) = m_threadId (loop_of w x) \<and> m_wakeupChannel (loop_of w1 x) = m_wakeupChannel (loop_of w x)) \<and>
     m_pendingFunctors (loop_of w1 (m_tcLoop (conn_of w p))) = [] \<and> m_pendingFunctors (loop_of w1 (m_srvLoop (server_of w))) =
       m_pendingFunctors (loop_of w (m_srvLoop (server_of w))) @ [RemoveConnectionInLoop_fn p]"

lemma closing_pass:
  fixes w :: "('k, 'z) ssys_scheme"
  assumes nt: "socket_calls_neutral os interest" "wait_calls_neutral os interest" "read_calls_neutral os interest"
    and rc: "readv_contract os" and quiet: "quiet_user user"
    and ok: "registry_ok os interest (m_channel (conn_of w p)) w" and wd: "channel_watched interest (m_channel (conn_of w p)) w \<noteq> None"
    and cb: "tcpconn.m_closeCallback (conn_of w p) = Some server_cb" and remote: "\<not> isInLoopThread (m_srvLoop (server_of w)) w"
    and may: "may_read p w" and l: "l = m_tcLoop (conn_of w p)" "l \<noteq> m_srvLoop (server_of w)" "m_pendingFunctors (loop_of w l) = []"
    and ev: "one_event os l (m_channel (conn_of w p)) EPOLLIN now k2 w"
    and eof: "fst (sys_readv os (m_fd (conn_chan p w)) (read_caps (m_inputBuffer (conn_of w p))) k2) = Inr []"
  shows "\<exists>w1 :: ('k, 'z) ssys_scheme.
     loop_pass os alive (invoke_callback os (server_hooks os user) dflt new) run l w = Inr w1 \<and> closed_in interest os p w w1"
proof -
  let ?c = "m_channel (conn_of w p)" and ?b = "m_srvLoop (server_of w)" and ?hooks = "server_hooks os user"
  let ?invoke = "invoke_callback os ?hooks dflt new"
  obtain w3 :: "('k, 'z) ssys_scheme" where w3: "polled l ?c EPOLLIN now k2 w w3"
      "loop_pass os alive ?invoke run l w = andThen (Channel_handleEvent alive ?invoke ?c now w3) (doPendingFunctors run l)"
    using loop_pass_single [OF ev] by blast
  have P: "conn_of w3 = conn_of w" "server_of w3 = server_of w" "kern w3 = k2" "chan w3 = (chan w)(?c := setRevents EPOLLIN (chan w ?c))"
      "cur_thread w3 = cur_thread w"
      "loop_of w3 = (loop_of w)(l := (loop_of w l)\<lparr>m_activeChannels := [?c], m_pollReturnTime := now\<rparr>)"
    using w3(1) by (simp_all add: polled_def)
  have B: "buffer_ok (m_inputBuffer (conn_of w p))" "length (m_buffer (m_inputBuffer (conn_of w p))) + 65536 \<le> max_vector"
    using may by (simp_all add: may_read_def)
  define k3 where "k3 = snd (sys_readv os (m_fd (conn_chan p w)) (read_caps (m_inputBuffer (conn_of w p))) k2)"
  have fd: "m_fd (conn_chan p w3) = m_fd (conn_chan p w)"
    by (simp add: conn_chan_def P)
  have "sys_readv os (m_fd (conn_chan p w3)) (read_caps (m_inputBuffer (conn_of w3 p))) (kern w3) = (Inr [], k3)"
    using eof by (simp add: k3_def prod_eq_iff fd P)
  then obtain d where rd: "TcpConnection_handleRead os ?hooks p now w3 =
      TcpConnection_handleClose os ?hooks p (upd_conn p (\<lambda>c. c\<lparr>m_inputBuffer := d\<rparr>) (w3\<lparr>kern := k3\<rparr>))"
    using handleRead_eof [of w3 p os k3 ?hooks now] B rc by (auto simp: P)
  define w4 where "w4 = upd_conn p (\<lambda>c. c\<lparr>m_inputBuffer := d\<rparr>) (w3\<lparr>kern := k3\<rparr>)"
  have k3: "interest k3 = interest k2"
    using nt(3) by (simp add: k3_def read_calls_neutral_def)
  have "polled l ?c EPOLLIN now k3 w (w3\<lparr>kern := k3\<rparr>)"
    using w3(1) by (simp add: polled_def)
  note same3 = polled_interest [OF nt(2) ev this k3]
  have same: "same_registry interest w w4"
    by (rule same_registry_trans [OF same3 same_registryI]) (simp_all add: w4_def)
  have c4: "m_channel (conn_of w4 p) = ?c" and s4: "server_of w4 = server_of w" and l4: "loop_of w4 = loop_of w3" "cur_thread w4 = cur_thread w"
    by (simp_all add: w4_def P)
  obtain w5 where w5: "change_mask os (\<lambda>_. 0) ?c (setState p Disconnected w4) = Inr w5" "registry_ok os interest ?c w5" "channel_watched interest ?c w5 = None"
    and m: "mask_changed (\<lambda>_. 0) ?c (setState p Disconnected w4) w5" and s5: "server_of w5 = server_of w"
    and close: "TcpConnection_handleClose os ?hooks p w4 = Inr (queueInLoop os ?b (RemoveConnectionInLoop_fn p) w5)"
  proof (rule handleClose_quiet [of os interest w4 p user])
    show "registry_ok os interest (m_channel (conn_of w4 p)) w4"
      using same_registry_ok [OF same ok] by (simp add: c4)
    show "call_connection user cb p v = Inr v" for cb v
      using quiet by (simp add: quiet_user_def)
    show "tcpconn.m_closeCallback (conn_of w4 p) = Some server_cb"
      using cb by (simp add: w4_def P)
    show "\<not> isInLoopThread (m_srvLoop (server_of w4)) w4"
      using remote l(2) by (simp add: isInLoopThread_def s4 l4 P)
  next
    fix w5 :: "('k, 'z) ssys_scheme"
    assume a: "change_mask os (\<lambda>_. 0) (m_channel (conn_of w4 p)) (setState p Disconnected w4) = Inr w5"
      "registry_ok os interest (m_channel (conn_of w4 p)) w5"
      "channel_watched interest (m_channel (conn_of w4 p)) w5 = (if channel_watched interest (m_channel (conn_of w4 p)) w4 = None then Some 0 else None)"
      "mask_changed (\<lambda>_. 0) (m_channel (conn_of w4 p)) (setState p Disconnected w4) w5" "server_of w5 = server_of w4"
      "TcpConnection_handleClose os ?hooks p w4 = Inr (queueInLoop os (m_srvLoop (server_of w4)) (RemoveConnectionInLoop_fn p) w5)"
    have "channel_watched interest ?c w4 = channel_watched interest ?c w"
      using same_registry_fields [OF same] by (simp add: channel_watched_def watched_def)
    then show thesis
      using that [of w5] a wd by (simp add: c4 s4)
  qed
  let ?w6 = "queueInLoop os ?b (RemoveConnectionInLoop_fn p) w5"
  have W: "conn_of ?w6 = (conn_of w4)(p := (conn_of w4 p)\<lparr>m_state := Disconnected\<rparr>)" "server_of ?w6 = server_of w" "chan ?w6 = chan w5"
      "loop_of ?w6 = (loop_of w3)(?b := (loop_of w ?b)\<lparr>m_pendingFunctors := m_pendingFunctors (loop_of w ?b) @ [RemoveConnectionInLoop_fn p]\<rparr>)"
    using m s5 l(2) P(6) by (simp_all add: mask_changed_def l4 setState_def upd_conn_def)
  have "Channel_handleEvent alive ?invoke ?c now w3 = Inr ?w6"
  proof -
    have "m_revents (chan ?w6 ?c) = EPOLLIN"
      using m P(4) by (auto simp: mask_changed_def w4_def setRevents_def setChannelStatus_def)
    moreover have "chan w3 ?c = setRevents EPOLLIN (chan w ?c)" "alive p w3"
      using may P l(2) by (simp_all add: may_read_def alive_def l)
    ultimately show ?thesis
      using may rd close
      by (simp add: Channel_handleEvent_def handleEventWithGuard_def call_opt_def invoke_callback_def epoll_bits may_read_def conn_chan_def
          setRevents_def flip: w4_def)
  qed
  then have pass: "loop_pass os alive ?invoke run l w = doPendingFunctors run l ?w6"
    by (simp add: w3(2))
  have "m_pendingFunctors (loop_of ?w6 l) = []"
    using l W(4) P(6) by simp
  from doPendingFunctors_none [OF this, of run]
  obtain w1 :: "('k, 'z) ssys_scheme" where w1: "doPendingFunctors run l ?w6 = Inr w1" "conn_of w1 = conn_of ?w6"
      "server_of w1 = server_of ?w6" "chan w1 = chan ?w6" "poller_of w1 = poller_of ?w6" "kern w1 = kern ?w6"
      "loop_of w1 = (loop_of ?w6)(l := (loop_of ?w6 l)\<lparr>m_callingPendingFunctors := False\<rparr>)"
    by blast
  have i1: "interest (kern w1) = interest (kern w5)"
    using w1(6) queueInLoop_interest [OF nt(1)] by simp
  have reg: "registry_ok os interest ?c w1" "channel_watched interest ?c w1 = None"
    using registry_ok_same [OF w5(2), of w1] w5(3) w1(4,5) i1 by (simp_all add: channel_watched_def watched_def)
  have pl: "m_epollfd (poller_of w1 x) = m_epollfd (poller_of w x)" "m_eventList (poller_of w x) \<noteq> [] \<Longrightarrow> m_eventList (poller_of w1 x) \<noteq> []" for x
  proof -
    have "m_epollfd (poller_of w5 x) = m_epollfd (poller_of w4 x)" "m_eventList (poller_of w5 x) = m_eventList (poller_of w4 x)"
      using change_mask_touches [OF w5(1)] by (auto simp: touches_def)
    then show "m_epollfd (poller_of w1 x) = m_epollfd (poller_of w x)" "m_eventList (poller_of w x) \<noteq> [] \<Longrightarrow> m_eventList (poller_of w1 x) \<noteq> []"
      using same w1(5) by (simp_all add: same_registry_def)
  qed
  have ch: "m_chLoop (chan w1 ?c) = m_chLoop (chan w ?c)" "m_fd (chan w1 ?c) = m_fd (chan w ?c)" "x \<noteq> ?c \<Longrightarrow> chan w1 x = chan w x" for x
    using m w1(4) P(4) by (auto simp: mask_changed_def w4_def setChannelStatus_def)
  have lp: "loop_of w1 = (loop_of w)(l := (loop_of w l)\<lparr>m_activeChannels := [?c], m_pollReturnTime := now, m_callingPendingFunctors := False\<rparr>,
      ?b := (loop_of w ?b)\<lparr>m_pendingFunctors := m_pendingFunctors (loop_of w ?b) @ [RemoveConnectionInLoop_fn p]\<rparr>)"
  proof -
    have "loop_of w5 = loop_of w3"
      using m by (simp add: mask_changed_def l4)
    then show ?thesis
      using l(2) by (simp add: w1(7) P(6) fun_upd_twist)
  qed
  show ?thesis
    by (rule exI [of _ w1], unfold closed_in_def pass w1(1-3) W(1,2))
      (use reg ch pl l(2,3) in \<open>simp add: lp w4_def P(1) flip: l(1)\<close>)
qed

section \<open>The passes that follow\<close>

lemma wakeup_ready_same:
  fixes v v' :: "('k, 'z) ssys_scheme"
  assumes "wakeup_channel_ready l v" and "m_wakeupChannel (loop_of v' l) = m_wakeupChannel (loop_of v l)"
    and "\<exists>r. chan v' (m_wakeupChannel (loop_of v l)) = setRevents r (chan v (m_wakeupChannel (loop_of v l)))"
  shows "wakeup_channel_ready l v'"
  using assms by (auto simp: wakeup_channel_ready_def setRevents_def)

lemma removing_pass:
  fixes v :: "('k, 'z) ssys_scheme"
  assumes nt: "socket_calls_neutral os interest" "wait_calls_neutral os interest"
    and ev: "one_event os b (m_wakeupChannel (loop_of v b)) EPOLLIN now k2 v" and wake: "wakeup_channel_ready b v"
    and pend: "m_pendingFunctors (loop_of v b) = [RemoveConnectionInLoop_fn p]" and l: "l = m_tcLoop (conn_of v p)" "l \<noteq> b"
  shows "\<exists>w2 :: ('k, 'z) ssys_scheme.
     loop_pass os lock (invoke_callback os hooks dflt new) (run_closure os hooks ufn) b v = Inr w2 \<and>
     same_registry interest v w2 \<and> conn_of w2 = conn_of v \<and>
     server_of w2 = (server_of v)\<lparr>m_connections := (m_connections (server_of v))(m_name (conn_of v p) := None)\<rparr> \<and>
     (\<forall>x. m_threadId (loop_of w2 x) = m_threadId (loop_of v x) \<and> m_wakeupChannel (loop_of w2 x) = m_wakeupChannel (loop_of v x)) \<and>
     m_pendingFunctors (loop_of w2 b) = [] \<and>
     m_pendingFunctors (loop_of w2 l) = m_pendingFunctors (loop_of v l) @ [ConnectDestroyed_fn p]"
proof -
  obtain v5 :: "('k, 'z) ssys_scheme" where same: "same_registry interest v v5" and v5: "conn_of v5 = conn_of v" "server_of v5 = server_of v"
      "loop_of v5 = (loop_of v)(b := (loop_of v b)\<lparr>m_activeChannels := [m_wakeupChannel (loop_of v b)], m_pollReturnTime := now,
         m_callingPendingFunctors := True, m_pendingFunctors := []\<rparr>)"
    and pass: "loop_pass os lock (invoke_callback os hooks dflt new) (run_closure os hooks ufn) b v =
      andThen (run_closure os hooks ufn (RemoveConnectionInLoop_fn p) v5) (\<lambda>w. Inr (upd_loop b (\<lambda>e. e\<lparr>m_callingPendingFunctors := False\<rparr>) w))"
    by (rule woken_pass [OF nt(2) ev wake pend])
  define v6 where "v6 = removeConnectionInLoop os p v5"
  define w2 where "w2 = upd_loop b (\<lambda>e. e\<lparr>m_callingPendingFunctors := False\<rparr>) v6"
  note R = removed_facts [OF v6_def nt(1)]
  have W: "chan w2 = chan v5" "poller_of w2 = poller_of v5" "interest (kern w2) = interest (kern v5)" "conn_of w2 = conn_of v"
      "server_of w2 = (server_of v)\<lparr>m_connections := (m_connections (server_of v))(m_name (conn_of v p) := None)\<rparr>"
    using R by (simp_all add: w2_def upd_loop_def v5)
  have "loop_of w2 = (loop_of v)(b := (loop_of v b)\<lparr>m_activeChannels := [m_wakeupChannel (loop_of v b)], m_pollReturnTime := now,
       m_pendingFunctors := [], m_callingPendingFunctors := False\<rparr>,
       l := (loop_of v l)\<lparr>m_pendingFunctors := m_pendingFunctors (loop_of v l) @ [ConnectDestroyed_fn p]\<rparr>)"
    using l by (simp add: w2_def v6_def upd_loop_def removeConnectionInLoop_def Let_def getLoop_def getName_def v5 fun_upd_twist)
  moreover have "same_registry interest v w2"
    by (rule same_registry_trans [OF same same_registryI]) (simp_all add: W)
  ultimately show ?thesis
    using l(2) W(4,5) by (intro exI [of _ w2]) (simp add: pass run_closure_def flip: v6_def w2_def)
qed

lemma destroying_pass:
  fixes v :: "('k, 'z) ssys_scheme"
  assumes nt: "wait_calls_neutral os interest"
    and ev: "one_event os l (m_wakeupChannel (loop_of v l)) EPOLLIN now k2 v" and wake: "wakeup_channel_ready l v"
    and pend: "m_pendingFunctors (loop_of v l) = [ConnectDestroyed_fn p]"
    and ok: "registry_ok os interest (m_channel (conn_of v p)) v" and st: "m_state (conn_of v p) = Disconnected"
  shows "succeeds (\<lambda>w3. channel_watched interest (m_channel (conn_of v p)) w3 = None \<and>
       \<not> hasChannel (m_chLoop (conn_chan p v)) (m_channel (conn_of v p)) w3 \<and>
       server_of w3 = server_of v \<and> conn_of w3 = conn_of v \<and>
       (\<forall>x. m_pendingFunctors (loop_of w3 x) = (if x = l then [] else m_pendingFunctors (loop_of v x))))
     (loop_pass os lock (invoke_callback os hooks dflt new) (run_closure os hooks ufn) l v)"
proof -
  obtain v5 :: "('k, 'z) ssys_scheme" where same: "same_registry interest v v5" and v5: "conn_of v5 = conn_of v" "server_of v5 = server_of v"
      "loop_of v5 = (loop_of v)(l := (loop_of v l)\<lparr>m_activeChannels := [m_wakeupChannel (loop_of v l)], m_pollReturnTime := now,
         m_callingPendingFunctors := True, m_pendingFunctors := []\<rparr>)"
    and pass: "loop_pass os lock (invoke_callback os hooks dflt new) (run_closure os hooks ufn) l v =
      andThen (run_closure os hooks ufn (ConnectDestroyed_fn p) v5) (\<lambda>w. Inr (upd_loop l (\<lambda>e. e\<lparr>m_callingPendingFunctors := False\<rparr>) w))"
    by (rule woken_pass [OF nt ev wake pend])
  have "registry_ok os interest (m_channel (conn_of v5 p)) v5" "m_state (conn_of v5 p) = Disconnected"
    using same_registry_ok [OF same ok] st by (simp_all add: v5)
  note D = destroyed_runs [OF this]
  have "m_chLoop (conn_chan p v5) = m_chLoop (conn_chan p v)"
    using same_registry_fields(1) [OF same] by (simp add: conn_chan_def v5)
  then show ?thesis
    unfolding pass
    by (intro succeeds_andThen [OF D]) (auto simp: v5 upd_loop_def channel_watched_def watched_def hasChannel_def)
qed

text \<open>The two passes after \<open>w1\<close>.\<close>

definition removed_in ::
    "('k \<Rightarrow> int \<Rightarrow> int \<Rightarrow> epoll_event option) \<Rightarrow> conn_ptr \<Rightarrow> ('k, 'z) ssys_scheme \<Rightarrow> ('k, 'z) ssys_scheme \<Rightarrow> ('k, 'z) ssys_scheme \<Rightarrow> bool" where
  "removed_in interest p w w1 w2 \<longleftrightarrow> same_registry interest w1 w2 \<and> conn_of w2 = conn_of w1 \<and>
     server_of w2 = (server_of w)\<lparr>m_connections := (m_connections (server_of w))(m_name (conn_of w p) := None)\<rparr> \<and>
     (\<forall>x. m_wakeupChannel (loop_of w2 x) = m_wakeupChannel (loop_of w x)) \<and>
     m_pendingFunctors (loop_of w2 (m_srvLoop (server_of w))) = [] \<and>
     m_pendingFunctors (loop_of w2 (m_tcLoop (conn_of w p))) = [ConnectDestroyed_fn p]"

lemma removing_after:
  fixes w w1 :: "('k, 'z) ssys_scheme"
  assumes nt: "socket_calls_neutral os interest" "wait_calls_neutral os interest" and closed: "closed_in interest os p w w1"
    and b: "b = m_srvLoop (server_of w)" "m_pendingFunctors (loop_of w b) = []" "m_tcLoop (conn_of w p) \<noteq> b"
    and wake: "wakeup_channel_ready b w" "m_wakeupChannel (loop_of w b) \<noteq> m_channel (conn_of w p)"
    and ev: "one_event os b (m_wakeupChannel (loop_of w b)) EPOLLIN now k (w1\<lparr>cur_thread := t\<rparr>)"
  shows "\<exists>w2 :: ('k, 'z) ssys_scheme. removed_in interest p w w1 w2 \<and>
     loop_pass os lock (invoke_callback os hooks dflt new) (run_closure os hooks ufn) b (w1\<lparr>cur_thread := t\<rparr>) = Inr w2"
proof -
  let ?v = "w1\<lparr>cur_thread := t\<rparr>"
  note C = closed [unfolded closed_in_def]
  have "wakeup_channel_ready b ?v"
    using wake C by (simp add: wakeup_channel_ready_def)
  then show ?thesis
    using removing_pass [OF nt, of b ?v now k p "m_tcLoop (conn_of w p)" lock hooks dflt new ufn] ev C b
    by (auto simp: removed_in_def same_registry_def)
qed

lemma destroying_after:
  fixes w w1 w2 :: "('k, 'z) ssys_scheme"
  assumes nt: "wait_calls_neutral os interest" and closed: "closed_in interest os p w w1" and removed: "removed_in interest p w w1 w2"
    and l: "l = m_tcLoop (conn_of w p)" "l \<noteq> m_srvLoop (server_of w)"
    and wake: "wakeup_channel_ready l w" "m_wakeupChannel (loop_of w l) \<noteq> m_channel (conn_of w p)"
    and ev: "one_event os l (m_wakeupChannel (loop_of w l)) EPOLLIN now k (w2\<lparr>cur_thread := t\<rparr>)"
  shows "succeeds (\<lambda>w3. server_of w3 = server_of w2 \<and> \<not> alive p w3 \<and> channel_watched interest (m_channel (conn_of w p)) w3 = None \<and>
       \<not> hasChannel (m_chLoop (conn_chan p w)) (m_channel (conn_of w p)) w3)
     (loop_pass os lock (invoke_callback os hooks dflt new) (run_closure os hooks ufn) l (w2\<lparr>cur_thread := t\<rparr>))"
proof -
  let ?u = "w2\<lparr>cur_thread := t\<rparr>" and ?c = "m_channel (conn_of w p)"
  note C = closed [unfolded closed_in_def] and R = removed [unfolded removed_in_def]
  have same: "same_registry interest w1 ?u"
    using R by (simp add: same_registry_def)
  have wake': "wakeup_channel_ready l ?u"
  proof (rule wakeup_ready_same [of l w1])
    show "wakeup_channel_ready l w1"
      using wake C by (simp add: wakeup_channel_ready_def)
  qed (use same C R in \<open>auto simp: same_registry_def\<close>)
  have c: "m_channel (conn_of ?u p) = ?c" "m_chLoop (conn_chan p ?u) = m_chLoop (conn_chan p w)"
    using C R same_registry_fields(1) [OF same] by (simp_all add: conn_chan_def)
  have "registry_ok os interest (m_channel (conn_of ?u p)) ?u"
    using same_registry_ok [OF same] C c(1) by simp
  note D = destroying_pass [OF nt _ wake' _ this, of now k, unfolded c]
  have "\<not> alive p w3" if "server_of w3 = server_of w2" "conn_of w3 = conn_of w2"
      "\<forall>x. m_pendingFunctors (loop_of w3 x) = (if x = l then [] else m_pendingFunctors (loop_of w2 x))" for w3 :: "('k, 'z) ssys_scheme"
    using that R C l by (simp add: alive_def)
  then show ?thesis
    by (intro succeeds_mono [OF D]) (use ev C R l in auto)
qed

section \<open>Properties\<close>

text \<open>
  C5: From the end of the stream to the last trace of a connection, across two loops: when the io loop is
  told of input on an established connection and there is none left, its pass disconnects the connection,
  makes the kernel forget the channel and wakes up the base loop; the next pass of the base loop erases the
  connection from the map, keeps it alive and wakes up the io loop; and the next pass of that loop
  takes the channel out of its poller and lets go of the connection.
\<close>

theorem end_of_stream_removes:
  fixes w :: "('k, 'z) ssys_scheme" and os :: "'k os" and user :: "(('k, 'z) ssys_scheme) conn_hooks" and p :: conn_ptr
    and ufn :: "nat \<Rightarrow> ('k, 'z) ssys_scheme \<Rightarrow> ('k, 'z) ssys_scheme result" and dflt :: inet_address
    and new :: "('k, 'z) ssys_scheme \<Rightarrow> conn_ptr \<times> chan_ptr"
  defines "c \<equiv> m_channel (conn_of w p)" and "l \<equiv> m_tcLoop (conn_of w p)" and "b \<equiv> m_srvLoop (server_of w)"
    and "conns \<equiv> m_connections (server_of w)" and "name \<equiv> m_name (conn_of w p)"
    and "pass \<equiv> \<lambda>x. loop_pass os alive (invoke_callback os (server_hooks os user) dflt new) (run_closure os (server_hooks os user) ufn) x"
    and "woken \<equiv> \<lambda>x v. \<exists>now k. one_event os x (m_wakeupChannel (loop_of w x)) EPOLLIN now k v"
  assumes "socket_calls_neutral os interest" and "wait_calls_neutral os interest" and "read_calls_neutral os interest"
    and "readv_contract os" and "quiet_user user" and "registry_ok os interest c w" and "channel_watched interest c w \<noteq> None"
    and "tcpconn.m_closeCallback (conn_of w p) = Some server_cb" and "may_read p w"
    and "isInLoopThread l w" and "m_threadId (loop_of w b) \<noteq> m_threadId (loop_of w l)"
    and "m_pendingFunctors (loop_of w l) = []" and "m_pendingFunctors (loop_of w b) = []"
    and "wakeup_channel_ready b w" and "wakeup_channel_ready l w" and "m_wakeupChannel (loop_of w b) \<noteq> c" and "m_wakeupChannel (loop_of w l) \<noteq> c"
    and "one_event os l c EPOLLIN now k2 w" and "fst (sys_readv os (m_fd (chan w c)) (read_caps (m_inputBuffer (conn_of w p))) k2) = Inr []"
  shows "succeeds (\<lambda>w1. m_state (conn_of w1 p) = Disconnected \<and> channel_watched interest c w1 = None \<and> alive p w1 \<and>
       (woken b (w1\<lparr>cur_thread := m_threadId (loop_of w b)\<rparr>) \<longrightarrow>
          succeeds (\<lambda>w2. m_connections (server_of w2) = conns(name := None) \<and> alive p w2 \<and>
              (woken l (w2\<lparr>cur_thread := m_threadId (loop_of w l)\<rparr>) \<longrightarrow>
                 succeeds (\<lambda>w3. m_connections (server_of w3) = conns(name := None) \<and> \<not> alive p w3 \<and>
                     channel_watched interest c w3 = None \<and> \<not> hasChannel (m_chLoop (chan w c)) c w3)
                   (pass l (w2\<lparr>cur_thread := m_threadId (loop_of w l)\<rparr>))))
            (pass b (w1\<lparr>cur_thread := m_threadId (loop_of w b)\<rparr>))))
     (pass l w)"
proof -
  have lb: "l \<noteq> b" and remote: "\<not> isInLoopThread b w"
    using assms(17,18) by (auto simp: isInLoopThread_def)
  obtain w1 where p1: "pass l w = Inr w1" and closed: "closed_in interest os p w w1"
    using closing_pass [OF assms(8-12) assms(13) [unfolded c_def] assms(14) [unfolded c_def] assms(15) remote [unfolded b_def] assms(16)
        l_def [THEN meta_eq_to_obj_eq] lb [unfolded b_def] assms(19) assms(25) [unfolded c_def]
        assms(26) [unfolded c_def, folded conn_chan_def], of dflt new "run_closure os (server_hooks os user) ufn"]
    unfolding pass_def by blast
  note C = closed [unfolded closed_in_def, folded c_def l_def b_def name_def]
  have "succeeds (\<lambda>w2. m_connections (server_of w2) = conns(name := None) \<and> alive p w2 \<and>
      (woken l (w2\<lparr>cur_thread := m_threadId (loop_of w l)\<rparr>) \<longrightarrow>
         succeeds (\<lambda>w3. m_connections (server_of w3) = conns(name := None) \<and> \<not> alive p w3 \<and>
             channel_watched interest c w3 = None \<and> \<not> hasChannel (m_chLoop (chan w c)) c w3)
           (pass l (w2\<lparr>cur_thread := m_threadId (loop_of w l)\<rparr>)))) (pass b (w1\<lparr>cur_thread := m_threadId (loop_of w b)\<rparr>))"
    if ev: "one_event os b (m_wakeupChannel (loop_of w b)) EPOLLIN now k (w1\<lparr>cur_thread := m_threadId (loop_of w b)\<rparr>)" for now k
  proof -
    obtain w2 where p2: "pass b (w1\<lparr>cur_thread := m_threadId (loop_of w b)\<rparr>) = Inr w2" and removed: "removed_in interest p w w1 w2"
      using removing_after [OF assms(8,9) closed b_def [THEN meta_eq_to_obj_eq] assms(20) lb [unfolded l_def] assms(21)
          assms(23) [unfolded c_def] ev] unfolding pass_def by blast
    note R = removed [unfolded removed_in_def, folded c_def l_def b_def name_def conns_def]
    have "alive p w2"
      using C R by (simp add: alive_def holds_conn_def)
    moreover have "succeeds (\<lambda>w3. m_connections (server_of w3) = conns(name := None) \<and> \<not> alive p w3 \<and>
        channel_watched interest c w3 = None \<and> \<not> hasChannel (m_chLoop (chan w c)) c w3) (pass l (w2\<lparr>cur_thread := m_threadId (loop_of w l)\<rparr>))"
      if "one_event os l (m_wakeupChannel (loop_of w l)) EPOLLIN now' k' (w2\<lparr>cur_thread := m_threadId (loop_of w l)\<rparr>)" for now' k'
      unfolding pass_def
      by (rule succeeds_mono [OF destroying_after [OF assms(9) closed removed l_def [THEN meta_eq_to_obj_eq] lb [unfolded b_def] assms(22)
        assms(24) [unfolded c_def] that]]) (use R in \<open>simp add: conn_chan_def flip: c_def\<close>)
    ultimately show ?thesis
      unfolding p2 succeeds_Inr woken_def using R by auto
  qed
  moreover have "alive p w1"
    using C assms(20) by (simp add: alive_def holds_conn_def flip: b_def)
  ultimately show ?thesis
    unfolding p1 succeeds_Inr woken_def using C by blast
qed

section \<open>A concrete end\<close>

text \<open>A kernel at the end of all streams; loop 10 (epoll descriptor 40) is told of descriptor 6 while that is
  watched, and of its wakeup channel 12 otherwise, and loop 0 (epoll descriptor 30) of its wakeup channel 2.\<close>

definition turn_os :: "simk os" where
  "turn_os = sim_os\<lparr>sys_epoll_wait := (\<lambda>ep n t k. (Inr [\<lparr>ev_events = EPOLLIN,
     ev_ptr = (if ep = 30 then 2 else if k_interest k 40 6 = None then 12 else 8)\<rparr>], k))\<rparr>"

lemma turn_contracts:
  "epoll_contract turn_os k_interest" "socket_calls_neutral turn_os k_interest" "wait_calls_neutral turn_os k_interest"
  "read_calls_neutral turn_os k_interest" "readv_contract turn_os"
  using sim_epoll sim_neutral sim_readv
  by (auto simp: turn_os_def epoll_contract_def socket_calls_neutral_def wait_calls_neutral_def read_calls_neutral_def readv_contract_def)

text \<open>The connection of Races.thy, watched by the kernel and in the map.\<close>

definition closing_world :: "simk ssys" where
  "closing_world = upd_server (\<lambda>s. s\<lparr>m_connections := [''c'' \<mapsto> 5]\<rparr>) ((gone_world Connected)\<lparr>
     kern := boot\<lparr>k_interest := (\<lambda>_ _. None)(40 := (\<lambda>_. None)(6 := Some \<lparr>ev_events = kReadEvent, ev_ptr = 8\<rparr>))\<rparr>,
     chan := (chan (gone_world Connected))(8 := setChannelStatus kStatusAdded (with_reading (chan (gone_world Connected) 8)),
       2 := setReadCallback (EventLoop_handleRead_cb 0) (Channel_ctor 0 5), 12 := setReadCallback (EventLoop_handleRead_cb 10) (Channel_ctor 10 5)),
     poller_of := (\<lambda>l. \<lparr>m_channels = (if l = 10 then [6 \<mapsto> 8] else Map.empty), m_epollfd = 30 + int l, m_eventList = [\<lparr>ev_events = 0, ev_ptr = 0\<rparr>]\<rparr>),
     loop_of := (\<lambda>l. (loop_of server_world l)\<lparr>m_wakeupChannel := 2 + l\<rparr>)\<rparr>)"

lemma closing_world_simps:
  "conn_of closing_world q = conn_of (gone_world Connected) q" "cur_thread closing_world = 20" "m_srvLoop (server_of closing_world) = 0"
  "m_connections (server_of closing_world) = [''c'' \<mapsto> 5]" "m_wakeupChannel (loop_of closing_world l) = 2 + l"
  "m_threadId (loop_of closing_world l) = (if l = 0 then 7 else 10 + int l)" "m_pendingFunctors (loop_of closing_world l) = []"
  "poller_of closing_world l = \<lparr>m_channels = (if l = 10 then [6 \<mapsto> 8] else Map.empty), m_epollfd = 30 + int l, m_eventList = [\<lparr>ev_events = 0, ev_ptr = 0\<rparr>]\<rparr>"
  "k_interest (kern closing_world) = (\<lambda>_ _. None)(40 := (\<lambda>_. None)(6 := Some \<lparr>ev_events = kReadEvent, ev_ptr = 8\<rparr>))"
  "k_input (kern closing_world) = (\<lambda>_. [])"
  "m_name (conn_of calm 4) = ''c''"
  by (simp_all add: closing_world_def server_world_def boot_def calm_def conn_world_def)

lemma closing_world_chan:
  "chan closing_world 8 = (Channel_tie 5 (setRevents (EPOLLHUP OR EPOLLPRI) (setReadCallback (TcpConnection_handleRead_cb 5)
     (setCloseCallback (TcpConnection_handleClose_cb 5) (Channel_ctor 10 6)))))\<lparr>m_events := kReadEvent, m_channelStatus := kStatusAdded\<rparr>"
  "chan closing_world 2 = setReadCallback (EventLoop_handleRead_cb 0) (Channel_ctor 0 5)"
  "chan closing_world 12 = setReadCallback (EventLoop_handleRead_cb 10) (Channel_ctor 10 5)"
  "x \<noteq> 8 \<Longrightarrow> x \<noteq> 2 \<Longrightarrow> x \<noteq> 12 \<Longrightarrow> chan closing_world x = Channel_ctor 9 0"
  by (simp_all add: closing_world_def gone_world_def with_reading_def setChannelStatus_def Channel_tie_def setRevents_def
      setReadCallback_def setCloseCallback_def Channel_ctor_def)

lemmas closing_chans = closing_world_chan Channel_tie_def setRevents_def setReadCallback_def setCloseCallback_def Channel_ctor_def

lemma closing_world_channel:
  "m_chLoop (chan closing_world x) = (if x = 8 \<or> x = 12 then 10 else if x = 2 then 0 else 9)"
  "m_channelStatus (chan closing_world x) = (if x = 8 then kStatusAdded else kStatusNew)"
  "m_fd (chan closing_world x) = (if x = 8 then 6 else if x = 2 \<or> x = 12 then 5 else 0)"
  "m_events (chan closing_world 8) = kReadEvent"
  by (cases "x = 8"; cases "x = 2"; cases "x = 12"; simp add: closing_chans status_values)+

lemma closing_world_registry: "registry_ok turn_os k_interest 8 closing_world"
proof -
  have "poller_inv k_interest {} 10 closing_world"
    by (auto simp: poller_inv_def closing_world_simps closing_world_channel split: if_splits)
  then show ?thesis
    using turn_contracts(1) by (simp add: registry_ok_def fd_free_def closing_world_channel status_values)
qed

lemma turn_event:
  assumes "m_eventList (poller_of w l) \<noteq> []"
    and "c = (if m_epollfd (poller_of w l) = 30 then 2 else if k_interest (kern w) 40 6 = None then 12 else 8)"
  shows "one_event turn_os l c EPOLLIN 0 (kern w) w"
  using assms by (simp add: one_event_def turn_os_def)

text \<open>A channel that is not watched is not in the interest list under its descriptor.\<close>

lemma unwatched_interest:
  assumes "registry_ok os interest c w" and "channel_watched interest c w = None"
  shows "interest (kern w) (m_epollfd (poller_of w (m_chLoop (chan w c)))) (m_fd (chan w c)) = None"
proof (rule ccontr)
  assume "interest (kern w) (m_epollfd (poller_of w (m_chLoop (chan w c)))) (m_fd (chan w c)) \<noteq> None"
  then obtain ev where ev: "interest (kern w) (m_epollfd (poller_of w (m_chLoop (chan w c)))) (m_fd (chan w c)) = Some ev" by blast
  then have "ev_ptr ev \<noteq> c"
    using assms(2) by (auto simp: channel_watched_def watched_def)
  then show False
    using ev assms(1) poller_invD(1) [of interest "{}" "m_chLoop (chan w c)" w] by (auto simp: registry_ok_def fd_free_def)
qed

theorem end_of_stream_removes_witness:
  "succeeds (\<lambda>w1. m_state (conn_of w1 5) = Disconnected \<and> alive 5 w1 \<and>
       succeeds (\<lambda>w2. m_connections (server_of w2) = Map.empty \<and> alive 5 w2 \<and>
           succeeds (\<lambda>w3. \<not> alive 5 w3 \<and> channel_watched k_interest 8 w3 = None \<and> \<not> hasChannel 10 8 w3)
             (loop_pass turn_os alive (invoke_callback turn_os (server_hooks turn_os silent_hooks) (InetAddress_of peer_addr) (\<lambda>_. (9, 9)))
                (run_closure turn_os (server_hooks turn_os silent_hooks) (\<lambda>_. Inr)) 10 (w2\<lparr>cur_thread := 20\<rparr>)))
         (loop_pass turn_os alive (invoke_callback turn_os (server_hooks turn_os silent_hooks) (InetAddress_of peer_addr) (\<lambda>_. (9, 9)))
            (run_closure turn_os (server_hooks turn_os silent_hooks) (\<lambda>_. Inr)) 0 (w1\<lparr>cur_thread := 7\<rparr>)))
     (loop_pass turn_os alive (invoke_callback turn_os (server_hooks turn_os silent_hooks) (InetAddress_of peer_addr) (\<lambda>_. (9, 9)))
        (run_closure turn_os (server_hooks turn_os silent_hooks) (\<lambda>_. Inr)) 10 closing_world)"
proof -
  let ?w = closing_world and ?hooks = "server_hooks turn_os silent_hooks" and ?dflt = "InetAddress_of peer_addr"
    and ?new = "\<lambda>_ :: simk ssys. (9 :: conn_ptr, 9 :: chan_ptr)"
  let ?run = "run_closure turn_os ?hooks (\<lambda>_. Inr)" and ?invoke = "invoke_callback turn_os ?hooks ?dflt ?new"
  have c: "m_channel (conn_of ?w 5) = 8" "m_tcLoop (conn_of ?w 5) = 10" "m_name (conn_of ?w 5) = ''c''"
    by (simp_all add: closing_world_simps)
  have quiet: "quiet_user (silent_hooks :: simk ssys conn_hooks)"
    by (simp add: quiet_user_def silent_hooks_def)
  have wd: "channel_watched k_interest 8 ?w \<noteq> None"
    by (simp add: channel_watched_def watched_def closing_world_simps closing_world_channel)
  have may: "may_read 5 ?w"
    using sample_buffer_ok calm_small(2)
    by (simp add: may_read_def conn_chan_def alive_def closing_world_simps) (simp add: closing_chans)
  have thread: "isInLoopThread 10 ?w" "m_threadId (loop_of ?w 0) \<noteq> m_threadId (loop_of ?w 10)" "\<not> isInLoopThread 0 ?w"
    by (simp_all add: isInLoopThread_def closing_world_simps)
  have wake: "wakeup_channel_ready 0 ?w" "wakeup_channel_ready 10 ?w"
    by (simp_all add: wakeup_channel_ready_def closing_world_simps) (simp_all add: closing_chans)
  have ev: "one_event turn_os 10 8 EPOLLIN 0 (kern ?w) ?w"
    by (rule turn_event) (simp_all add: closing_world_simps)
  have eof: "fst (sys_readv turn_os (m_fd (chan ?w 8)) (read_caps (m_inputBuffer (conn_of ?w 5))) (kern ?w)) = Inr []"
    by (simp add: turn_os_def closing_world_simps)
  note T = end_of_stream_removes [where w = ?w and p = 5 and os = turn_os and interest = k_interest and user = silent_hooks and dflt = ?dflt
      and new = ?new and ufn = "\<lambda>_. Inr" and now = 0 and ?k2.0 = "kern ?w", unfolded c closing_world_simps(3,4),
      OF turn_contracts(2-5) quiet closing_world_registry wd _ may thread(1,2) _ _ wake _ _ ev eof]
  have cb: "tcpconn.m_closeCallback (conn_of ?w 5) = Some server_cb"
    by (simp add: closing_world_simps)
  have "\<exists>w1 :: simk ssys. loop_pass turn_os alive ?invoke ?run 10 ?w = Inr w1 \<and> closed_in k_interest turn_os 5 ?w w1"
    by (rule closing_pass [OF turn_contracts(2-5) quiet, where p = 5 and w = ?w and l = 10 and now = 0 and ?k2.0 = "kern ?w" and dflt = ?dflt
        and new = ?new and run = ?run, unfolded c closing_world_simps(3,7) conn_chan_def])
      (rule closing_world_registry wd cb thread(3) may refl ev eof | simp)+
  then obtain w1 :: "simk ssys" where p1: "loop_pass turn_os alive ?invoke ?run 10 ?w = Inr w1" and closed: "closed_in k_interest turn_os 5 ?w w1"
    by blast
  note C = closed [unfolded closed_in_def c closing_world_simps(3)]
  have ev1: "one_event turn_os 0 2 EPOLLIN 0 (kern w1) (w1\<lparr>cur_thread := 7\<rparr>)"
    using C turn_event [of "w1\<lparr>cur_thread := 7\<rparr>" 0 2] by (simp add: closing_world_simps)
  obtain w2 :: "simk ssys" where p2: "loop_pass turn_os alive ?invoke ?run 0 (w1\<lparr>cur_thread := 7\<rparr>) = Inr w2"
    and removed: "removed_in k_interest 5 ?w w1 w2"
    using removing_after [OF turn_contracts(2,3) closed, where b = 0 and now = 0 and k = "kern w1" and t = 7 and lock = alive
        and hooks = ?hooks and dflt = ?dflt and new = ?new and ufn = "\<lambda>_. Inr"] ev1 wake
    by (auto simp: c closing_world_simps)
  note R = removed [unfolded removed_in_def c closing_world_simps(3)]
  have "k_interest (kern w1) 40 6 = None"
    using unwatched_interest [of turn_os k_interest 8 w1] C by (simp add: closing_world_simps closing_world_channel)
  then have ev2: "one_event turn_os 10 12 EPOLLIN 0 (kern w2) (w2\<lparr>cur_thread := 20\<rparr>)"
    using C R turn_event [of "w2\<lparr>cur_thread := 20\<rparr>" 10 12] by (simp add: closing_world_simps same_registry_def)
  show ?thesis
    using T p1 p2 ev1 ev2 by (auto simp: closing_world_simps closing_world_channel elim!: succeeds_mono)
qed

end
