(* ===== verification/Confinement.thy ===== *)
theory Confinement
  imports Lifetime
begin

text \<open>
  One loop per thread: the data of a connection that no mutex and no atomic guards (its buffers, its
  callbacks, its channel) is changed by the thread of its loop only, the data of a poller by the thread of
  the poller's loop, and the map of the server by the thread of the base loop. What crosses threads is the
  state, which is atomic in the code, and the queues of closures, which a mutex guards.
\<close>

section \<open>What belongs to a thread\<close>

text \<open>A connection without its atomic state, and its channel.\<close>

definition thread_local :: "conn_ptr \<Rightarrow> ('k, 'z) ssys_scheme \<Rightarrow> tcpconn \<times> channel" where
  "thread_local q w = ((conn_of w q)\<lparr>m_state := Connecting\<rparr>, conn_chan q w)"

definition in_own_thread :: "conn_ptr \<Rightarrow> ('k, 'z) ssys_scheme \<Rightarrow> bool" where
  "in_own_thread q w \<longleftrightarrow> isInLoopThread (m_tcLoop (conn_of w q)) w"

text \<open>The change from \<open>w\<close> to \<open>w'\<close> by the running thread touches only what is that thread's.\<close>

definition in_thread :: "conn_ptr list \<Rightarrow> ('k, 'z) ssys_scheme \<Rightarrow> ('k, 'z) ssys_scheme \<Rightarrow> bool" where
  "in_thread ps w w' \<longleftrightarrow>
     cur_thread w' = cur_thread w \<and> (\<forall>l. m_threadId (loop_of w' l) = m_threadId (loop_of w l)) \<and>
     m_srvLoop (server_of w') = m_srvLoop (server_of w) \<and>
     (\<forall>q \<in> set ps. m_tcLoop (conn_of w' q) = m_tcLoop (conn_of w q) \<and> m_channel (conn_of w' q) = m_channel (conn_of w q) \<and>
        m_chLoop (conn_chan q w') = m_chLoop (conn_chan q w) \<and>
        conn_callbacks (m_channel (conn_of w q)) w' = conn_callbacks (m_channel (conn_of w q)) w \<and>
        (\<not> in_own_thread q w \<longrightarrow> thread_local q w' = thread_local q w)) \<and>
     (\<forall>l. \<not> isInLoopThread l w \<longrightarrow> poller_of w' l = poller_of w l) \<and>
     (\<not> isInLoopThread (m_srvLoop (server_of w)) w \<longrightarrow> server_of w' = server_of w)"

text \<open>Closures wait in the queue of the loop that owns what they work on.\<close>

definition at_home :: "conn_ptr list \<Rightarrow> ('k, 'z) ssys_scheme \<Rightarrow> loop_ptr \<Rightarrow> closure \<Rightarrow> bool" where
  "at_home ps w l f \<longleftrightarrow> (\<forall>p. loop_work f = Some p \<longrightarrow> p \<in> set ps \<and> l = m_tcLoop (conn_of w p)) \<and>
     (\<forall>p. f = RemoveConnectionInLoop_fn p \<longrightarrow> p \<in> set ps \<and> l = m_srvLoop (server_of w)) \<and> f \<noteq> Listen_fn"

definition home_inv :: "conn_ptr list \<Rightarrow> ('k, 'z) ssys_scheme \<Rightarrow> bool" where
  "home_inv ps w \<longleftrightarrow> chans_ok ps w \<and> (\<forall>q \<in> set ps. m_chLoop (conn_chan q w) = m_tcLoop (conn_of w q)) \<and>
     (\<forall>l. list_all (at_home ps w l) (pending l w))"

definition at_homes :: "conn_ptr list \<Rightarrow> ('k, 'z) ssys_scheme \<Rightarrow> ('k, 'z) ssys_scheme \<Rightarrow> bool" where
  "at_homes ps w w' \<longleftrightarrow> home_inv ps w' \<and> in_thread ps w w'"

lemma in_thread_refl: "in_thread ps w w"
  by (simp add: in_thread_def)

lemma in_thread_trans:
  assumes "in_thread ps w w1" and "in_thread ps w1 w2"
  shows "in_thread ps w w2"
proof -
  have "isInLoopThread l w1 = isInLoopThread l w" "q \<in> set ps \<Longrightarrow> in_own_thread q w1 = in_own_thread q w" for l q
    using assms(1) by (simp_all add: in_thread_def isInLoopThread_def in_own_thread_def)
  then show ?thesis
    using assms by (simp add: in_thread_def)
qed

lemma at_homes_trans: "at_homes ps w w1 \<Longrightarrow> at_homes ps w1 w2 \<Longrightarrow> at_homes ps w w2"
  by (auto simp: at_homes_def intro: in_thread_trans)

lemma at_homes_refl: "home_inv ps w \<Longrightarrow> at_homes ps w w"
  by (simp add: at_homes_def in_thread_refl)

text \<open>A confined change that queues closures where they belong.\<close>

lemma at_homesI:
  assumes inv: "home_inv ps w" and conf: "in_thread ps w w'"
    and queues: "\<And>l. pending l w' = pending l w @ F l" "\<And>l. list_all (at_home ps w l) (F l)"
  shows "at_homes ps w w'"
proof -
  have home: "at_home ps w' = at_home ps w"
    using conf by (auto simp: at_home_def in_thread_def fun_eq_iff)
  have "inj_on (\<lambda>q. m_channel (conn_of w' q)) (set ps) = inj_on (\<lambda>q. m_channel (conn_of w q)) (set ps)"
    using conf by (intro inj_on_cong) (simp add: in_thread_def)
  then have "chans_ok ps w'"
    using inv conf by (simp add: chans_ok_def home_inv_def in_thread_def)
  then have "home_inv ps w'"
    using inv conf queues by (simp add: home_inv_def in_thread_def home)
  then show ?thesis
    using conf by (simp add: at_homes_def)
qed

section \<open>Elementary changes\<close>

lemma kern_home: "home_inv ps w \<Longrightarrow> at_homes ps w (w\<lparr>kern := k\<rparr>)"
  by (rule at_homesI [where F = "\<lambda>_. []"])
    (simp_all add: in_thread_def thread_local_def conn_chan_def conn_callbacks_def pending_def)

lemma state_home: "home_inv ps w \<Longrightarrow> at_homes ps w (setState p st w)"
  by (rule at_homesI [where F = "\<lambda>_. []"])
    (simp_all add: in_thread_def thread_local_def conn_chan_def conn_callbacks_def pending_def)

lemma queue_home:
  assumes "home_inv ps w" and "at_home ps w l f"
  shows "at_homes ps w (queueInLoop os l f w)"
  by (rule at_homesI [OF assms(1), where F = "\<lambda>l'. if l' = l then [f] else []"])
    (simp_all add: assms(2) in_thread_def thread_local_def conn_chan_def conn_callbacks_def pending_def)

text \<open>The thread of its loop changes a connection and its channel.\<close>

lemma buffer_home:
  assumes "home_inv ps w" and own: "in_own_thread p w"
  shows "at_homes ps w (upd_conn p (\<lambda>t. t\<lparr>m_inputBuffer := h t\<rparr>) w)" "at_homes ps w (upd_conn p (\<lambda>t. t\<lparr>m_outputBuffer := h t\<rparr>) w)"
proof -
  have "at_homes ps w (upd_conn p f w)" if f: "\<And>t. m_tcLoop (f t) = m_tcLoop t \<and> m_channel (f t) = m_channel t" for f
  proof (rule at_homesI [OF assms(1), where F = "\<lambda>_. []"])
    have "thread_local q (upd_conn p f w) = thread_local q w" if "\<not> in_own_thread q w" for q
    proof -
      have "q \<noteq> p" using own that by blast
      then show ?thesis by (simp add: thread_local_def conn_chan_def upd_conn_def)
    qed
    moreover have "m_tcLoop (conn_of (upd_conn p f w) q) = m_tcLoop (conn_of w q)" "m_channel (conn_of (upd_conn p f w) q) = m_channel (conn_of w q)" for q
      using f by (simp_all add: upd_conn_def)
    ultimately show "in_thread ps w (upd_conn p f w)"
      by (simp add: in_thread_def conn_chan_def conn_callbacks_def)
  qed (simp_all add: pending_def)
  then show "at_homes ps w (upd_conn p (\<lambda>t. t\<lparr>m_inputBuffer := h t\<rparr>) w)" "at_homes ps w (upd_conn p (\<lambda>t. t\<lparr>m_outputBuffer := h t\<rparr>) w)"
    by simp_all
qed

lemma channel_other:
  assumes "home_inv ps w" and "p \<in> set ps" and "q \<in> set ps" and "m_channel (conn_of w q) = m_channel (conn_of w p)"
  shows "q = p"
  using assms unfolding home_inv_def chans_ok_def by (blast dest: inj_onD)

lemma channel_home:
  assumes inv: "home_inv ps w" and p: "p \<in> set ps" "in_own_thread p w"
    and w': "touches (m_tcLoop (conn_of w p)) (m_channel (conn_of w p)) (upd_chan (m_channel (conn_of w p)) h w) w'"
    and h: "\<And>c. m_chLoop (h c) = m_chLoop c \<and> m_readCallback (h c) = m_readCallback c \<and> m_writeCallback (h c) = m_writeCallback c \<and>
      channel.m_closeCallback (h c) = channel.m_closeCallback c \<and> m_errorCallback (h c) = m_errorCallback c"
  shows "at_homes ps w w'"
proof (rule at_homesI [OF inv, where F = "\<lambda>_. []"])
  let ?c = "m_channel (conn_of w p)"
  obtain k s M where w'_eq: "w' = sys_touch (m_tcLoop (conn_of w p)) ?c k s M (upd_chan ?c h w)"
    using w' by (auto simp: touches_def)
  have local: "thread_local q w' = thread_local q w" if "q \<in> set ps" "\<not> in_own_thread q w" for q
    using channel_other [OF inv p(1) that(1)] that(2) p(2)
    by (auto simp: thread_local_def conn_chan_def w'_eq sys_touch_def upd_chan_def)
  show "in_thread ps w w'"
    using local p(2) h
    by (auto simp: in_thread_def in_own_thread_def conn_callbacks_def conn_chan_def setChannelStatus_def w'_eq sys_touch_def upd_chan_def)
qed (use w' in \<open>auto simp: touches_def pending_def sys_touch_def upd_chan_def\<close>)

lemma mask_home:
  assumes "home_inv ps w" and "p \<in> set ps" and "in_own_thread p w"
  shows "holds (at_homes ps w) (change_mask os g (m_channel (conn_of w p)) w)"
proof -
  have "m_chLoop (chan w (m_channel (conn_of w p))) = m_tcLoop (conn_of w p)"
    using assms(1,2) by (simp add: home_inv_def conn_chan_def)
  then show ?thesis
    using channel_home [OF assms] change_mask_touches by (fastforce simp: holds_def)
qed

lemma tie_home:
  assumes "home_inv ps w" and "p \<in> set ps" and "in_own_thread p w"
  shows "at_homes ps w (upd_chan (m_channel (conn_of w p)) (Channel_tie p) w)" "at_homes ps w (upd_chan (m_channel (conn_of w p)) (setRevents r) w)"
  by (rule channel_home [OF assms touches_refl]; simp add: Channel_tie_def setRevents_def)+

lemma remove_home:
  assumes "home_inv ps w" and "p \<in> set ps" and "in_own_thread p w"
  shows "holds (at_homes ps w) (Channel_remove os (m_channel (conn_of w p)) w)"
proof -
  have "m_chLoop (chan w (m_channel (conn_of w p))) = m_tcLoop (conn_of w p)"
    using assms(1,2) by (simp add: home_inv_def conn_chan_def)
  moreover have "upd_chan c (\<lambda>ch. ch) w = w" for c
    by (simp add: upd_chan_def)
  ultimately show ?thesis
    using channel_home [OF assms, of "\<lambda>ch. ch"]
    by (auto simp: holds_def Channel_remove_def EventLoop_removeChannel_def intro: removeChannel_touches)
qed

text \<open>The base loop takes a connection out of the map; any other thread asks it to.\<close>

lemma map_home:
  assumes inv: "home_inv ps w" and p: "p \<in> set ps"
  shows "isInLoopThread (m_srvLoop (server_of w)) w \<Longrightarrow> at_homes ps w (removeConnectionInLoop os p w)"
    "holds (at_homes ps w) (removeConnection os p w)"
proof -
  show *: "at_homes ps w (removeConnectionInLoop os p w)" if "isInLoopThread (m_srvLoop (server_of w)) w"
  proof (rule at_homesI [OF inv, where F = "\<lambda>l'. if l' = m_tcLoop (conn_of w p) then [ConnectDestroyed_fn p] else []"])
    show "in_thread ps w (removeConnectionInLoop os p w)"
      using that by (simp add: removeConnectionInLoop_def Let_def in_thread_def thread_local_def conn_chan_def conn_callbacks_def)
  qed (simp_all add: removeConnectionInLoop_def Let_def pending_def getLoop_def at_home_def p)
  show "holds (at_homes ps w) (removeConnection os p w)"
    using * queue_home [OF inv] p by (simp add: removeConnection_def runInLoop_def at_home_def)
qed

section \<open>The handlers\<close>

text \<open>Callbacks of the user run in the thread of the connection's loop. They may use whatever belongs to that
  thread, and \<open>send\<close>, \<open>shutdown\<close> and the queues for the rest.\<close>

definition hooks_confined :: "(('k, 'z) ssys_scheme) conn_hooks \<Rightarrow> bool" where
  "hooks_confined hooks \<longleftrightarrow> (\<forall>ps w p. home_inv ps w \<longrightarrow> p \<in> set ps \<longrightarrow> in_own_thread p w \<longrightarrow>
     (\<forall>cb. holds (at_homes ps w) (call_connection hooks cb p w)) \<and>
     (\<forall>cb t. holds (at_homes ps w) (call_message hooks cb p t w)) \<and>
     (\<forall>cb. holds (at_homes ps w) (call_writeComplete hooks cb p w)) \<and>
     (\<forall>cb n. holds (at_homes ps w) (call_highWaterMark hooks cb p n w)) \<and>
     (\<forall>cb. holds (at_homes ps w) (call_close hooks cb p w)))"

definition closures_confined :: "(nat \<Rightarrow> ('k, 'z) ssys_scheme \<Rightarrow> ('k, 'z) ssys_scheme result) \<Rightarrow> bool" where
  "closures_confined ufn \<longleftrightarrow> (\<forall>n ps w. home_inv ps w \<longrightarrow> holds (at_homes ps w) (ufn n w))"

lemma server_hooks_confined: "hooks_confined user \<Longrightarrow> hooks_confined (server_hooks os user)"
  unfolding hooks_confined_def by (auto simp: server_hooks_def map_home(2))

lemma silent_confined: "hooks_confined silent_hooks"
  by (simp add: hooks_confined_def silent_hooks_def at_homes_refl)

interpretation home: closure_law os hooks "\<lambda>w. hooks_confined hooks \<and> home_inv ps w" "at_homes ps"
  "\<lambda>p w. p \<in> set ps \<and> in_own_thread p w" "\<lambda>_ _. True"
  for os :: "'k os" and hooks :: "(('k, 'z) ssys_scheme) conn_hooks" and ps
proof (unfold_locales, goal_cases)
  case (1 w)
  then show ?case by (simp add: at_homes_refl)
next
  case (2 w w1 w2)
  then show ?case by (rule at_homes_trans)
next
  case (3 w w1)
  then show ?case by (simp add: at_homes_def)
next
  case (4 w w1 p)
  then show ?case by (simp add: at_homes_def in_thread_def in_own_thread_def isInLoopThread_def)
next
  case (6 w w1 p)
  then show ?case by (simp add: at_homes_def in_thread_def)
next
  case (7 w p)
  then show ?case by (simp add: home_inv_def chans_ok_def calls_back_def)
qed (simp_all add: kern_home buffer_home tie_home mask_home state_home queue_home at_home_def remove_home hooks_confined_def)

text \<open>\<open>send\<close> and \<open>shutdown\<close> from whatever thread.\<close>

lemma send_home:
  assumes "home_inv ps w" and "p \<in> set ps"
  shows "holds (at_homes ps w) (TcpConnection_send os p bs w)"
proof (cases "in_own_thread p w")
  case True
  then have "holds (at_homes ps w) (sendInLoop os p bs w)"
    using assms by (intro home.sendInLoop_keeps [OF conjI [OF silent_confined]]) simp_all
  then show ?thesis
    using True assms(1) by (simp add: TcpConnection_send_def Let_def in_own_thread_def at_homes_refl)
next
  case False
  then show ?thesis
    using queue_home [OF assms(1), of "m_tcLoop (conn_of w p)" "SendInLoop_fn p bs" os] assms
    by (simp add: TcpConnection_send_def Let_def runInLoop_def in_own_thread_def at_homes_refl at_home_def)
qed

lemma shutdown_home:
  assumes "home_inv ps w" and "p \<in> set ps"
  shows "holds (at_homes ps w) (TcpConnection_shutdown os p w)"
proof (cases "in_own_thread p w")
  case True
  then show ?thesis
    using assms by (intro home.shutdown_keeps [OF conjI [OF silent_confined]]) (simp_all add: in_own_thread_def)
next
  case False
  have w1: "at_homes ps w (setState p Disconnecting w)" by (rule state_home [OF assms(1)])
  then have "at_homes ps w (queueInLoop os (m_tcLoop (conn_of w p)) (ShutdownInLoop_fn p) (setState p Disconnecting w))"
    using assms(2) by (intro at_homes_trans [OF w1] queue_home) (simp_all add: at_homes_def at_home_def)
  then show ?thesis
    using False assms(1)
    by (simp add: TcpConnection_shutdown_def Let_def runInLoop_def in_own_thread_def isInLoopThread_def at_homes_refl)
qed

section \<open>Steps of the program\<close>

text \<open>A closure, run by the thread of the loop in whose queue it waited.\<close>

lemma popped_home:
  fixes w :: "('k, 'z) ssys_scheme"
  assumes inv: "home_inv ps w" and head: "pending l w = f # fs"
  defines "t \<equiv> m_threadId (loop_of w l)"
  shows "home_inv ps (popped l fs w)" "in_thread ps (w\<lparr>cur_thread := t\<rparr>) (popped l fs w)" "at_home ps (popped l fs w) l f"
    "isInLoopThread l (popped l fs w)"
proof -
  let ?w = "popped l fs w"
  have same: "conn_chan q ?w = conn_chan q w" "at_home ps ?w = at_home ps w" "m_threadId (loop_of ?w x) = m_threadId (loop_of w x)" for q x
    by (simp_all add: conn_chan_def at_home_def fun_eq_iff) (simp add: popped_def upd_loop_def)
  have "list_all (at_home ps w l) (f # fs)"
    using inv head unfolding home_inv_def by metis
  then show "home_inv ps ?w" "at_home ps ?w l f"
    using inv by (simp_all add: home_inv_def chans_ok_def same)
  show "in_thread ps (w\<lparr>cur_thread := t\<rparr>) ?w"
    using same by (simp add: in_thread_def thread_local_def conn_callbacks_def conn_chan_def) (simp add: popped_def upd_loop_def t_def)
  show "isInLoopThread l ?w"
    by (simp add: isInLoopThread_def same(3)) (simp add: popped_def)
qed

lemma run_closure_home:
  assumes inv: "home_inv ps w" and f: "at_home ps w l f" and here: "isInLoopThread l w"
    and law: "hooks_confined hooks" "closures_confined ufn"
  shows "holds (at_homes ps w) (run_closure os hooks ufn f w)"
proof (cases "loop_work f")
  case (Some p)
  then have "p \<in> set ps" "in_own_thread p w"
    using f here by (auto simp: at_home_def in_own_thread_def)
  then show ?thesis
    using home.loop_work_keeps [of hooks ps w p f] inv law(1) Some by blast
next
  case None
  then show ?thesis
    using f here inv law(2) map_home(1) [OF inv] by (cases f) (auto simp: run_closure_def at_home_def closures_confined_def)
qed

text \<open>The base loop's thread makes a connection, with a channel of its own in the loop it is given to.\<close>

lemma accept_home:
  fixes w :: "('k, 'z) ssys_scheme"
  assumes inv: "home_inv ps w" and new: "p \<notin> set ps" "c \<notin> (\<lambda>q. m_channel (conn_of w q)) ` set ps"
    and here: "isInLoopThread (m_srvLoop (server_of w)) w" and law: "hooks_confined hooks"
  shows "holds (\<lambda>w'. home_inv (ps @ [p]) w' \<and> in_thread ps w w') (TcpServer_newConnection os hooks p c fd peer w)"
proof (cases "getNextLoop (m_threadPool (server_of w))")
  case (Inl e)
  then show ?thesis by (simp add: TcpServer_newConnection_def)
next
  case (Inr lp)
  obtain l pool1 where lp: "lp = (l, pool1)" by (cases lp)
  obtain w1 :: "('k, 'z) ssys_scheme" where made: "connection_made os p c fd peer l pool1 w w1"
      "TcpServer_newConnection os hooks p c fd peer w = runInLoop os l (ConnectEstablished_fn p) (connectEstablished os hooks p) w1"
    using newConnection_makes Inr unfolding lp by blast
  have M: "m_tcLoop (conn_of w1 p) = l" "m_channel (conn_of w1 p) = c" "chan w1 = (chan w)(c := new_chan p l fd)"
      "poller_of w1 = poller_of w" "loop_of w1 = loop_of w" "cur_thread w1 = cur_thread w" "m_srvLoop (server_of w1) = m_srvLoop (server_of w)"
    using made(1) by (simp_all add: connection_made_def Let_def)
  have "chans_ok ps w" using inv by (simp add: home_inv_def)
  note old = made_chans [OF this new made(1)]
  have conf: "in_thread ps w w1"
    using here by (simp add: in_thread_def M(4-7) old thread_local_def conn_chan_def conn_callbacks_def)
  have "at_home (ps @ [p]) w1 l' f" if "at_home ps w l' f" for l' f
    using that old M(7) by (auto simp: at_home_def)
  moreover have "pending l' w1 = pending l' w" for l'
    by (simp add: pending_def M)
  moreover have "m_chLoop (conn_chan p w1) = l"
    by (simp add: conn_chan_def M(2,3) new_chan_def setReadCallback_def setWriteCallback_def setCloseCallback_def setErrorCallback_def Channel_ctor_def)
  ultimately have inv1: "home_inv (ps @ [p]) w1"
    using inv old M(1) by (auto simp: home_inv_def conn_chan_def list_all_iff)
  have "holds (at_homes (ps @ [p]) w1) (runInLoop os l (ConnectEstablished_fn p) (connectEstablished os hooks p) w1)"
    using home.establishing_keeps [of hooks "ps @ [p]" w1 p os] queue_home [OF inv1, of l "ConnectEstablished_fn p" os] law inv1 M(1)
    by (simp add: runInLoop_def in_own_thread_def at_home_def)
  moreover have "home_inv (ps @ [p]) w' \<and> in_thread ps w w'" if "at_homes (ps @ [p]) w1 w'" for w'
    using that in_thread_trans [OF conf, of w'] by (simp add: at_homes_def in_thread_def)
  ultimately show ?thesis
    unfolding made(2) by (rule holds_mono)
qed

lemma thread_home: "home_inv ps (w\<lparr>cur_thread := t\<rparr>) = home_inv ps w"
proof -
  have "at_home ps (w\<lparr>cur_thread := t\<rparr>) = at_home ps w"
    by (simp add: at_home_def fun_eq_iff)
  then show ?thesis
    by (simp add: home_inv_def chans_ok_def conn_callbacks_def conn_chan_def pending_def)
qed

text \<open>A step, judged from the thread that takes it.\<close>

lemma program_step_home:
  assumes step: "program_step os user ufn s s'" and law: "hooks_confined user" "closures_confined ufn"
    and inv: "home_inv (fst s) (snd s)"
  shows "home_inv (fst s') (snd s') \<and> in_thread (fst s) ((snd s)\<lparr>cur_thread := cur_thread (snd s')\<rparr>) (snd s')"
proof -
  note hooks = server_hooks_confined [OF law(1), of os]
  have settle: "home_inv ps w' \<and> in_thread ps (w\<lparr>cur_thread := cur_thread w'\<rparr>) w'"
    if "holds (at_homes ps (w\<lparr>cur_thread := t\<rparr>)) r" "r = Inr w'" for ps t r and w w' :: "('a, 'b) ssys_scheme"
  proof -
    have h: "at_homes ps (w\<lparr>cur_thread := t\<rparr>) w'" using that by simp
    then have "cur_thread w' = t" by (simp add: at_homes_def in_thread_def)
    then show ?thesis using h by (simp add: at_homes_def)
  qed
  from step show ?thesis
  proof cases
    case (accept p ps c w fd peer w')
    let ?w = "w\<lparr>cur_thread := m_threadId (loop_of w (m_srvLoop (server_of w)))\<rparr>"
    have "holds (\<lambda>w'. home_inv (ps @ [p]) w' \<and> in_thread ps ?w w') (TcpServer_newConnection os (server_hooks os user) p c fd peer ?w)"
      using accept inv by (intro accept_home hooks) (simp_all add: thread_home isInLoopThread_def)
    then have "home_inv (ps @ [p]) w' \<and> in_thread ps ?w w'"
      using accept(6) by simp
    moreover from this have "cur_thread w' = m_threadId (loop_of w (m_srvLoop (server_of w)))"
      by (simp add: in_thread_def)
    ultimately show ?thesis using accept(1,2) by simp
  next
    case (run_functor l w f fs w' ps)
    have "home_inv ps w" using inv run_functor(1) by simp
    note popped = popped_home [OF this run_functor(3)]
    have "at_homes ps (popped l fs w) w'"
      using holdsD [OF run_closure_home [OF popped(1,3,4) hooks law(2)] run_functor(4)] .
    then have "home_inv ps w'" "in_thread ps (w\<lparr>cur_thread := m_threadId (loop_of w l)\<rparr>) w'"
      using in_thread_trans [OF popped(2)] by (simp_all add: at_homes_def)
    moreover from this(2) have "cur_thread w' = m_threadId (loop_of w l)"
      by (simp add: in_thread_def)
    ultimately show ?thesis using run_functor(1,2) by simp
  next
    case (event p ps w dflt new t r w')
    let ?t = "m_threadId (loop_of w (m_tcLoop (conn_of w p)))"
    let ?w = "upd_chan (m_channel (conn_of w p)) (setRevents r) (w\<lparr>cur_thread := ?t\<rparr>)"
    have inv1: "home_inv ps (w\<lparr>cur_thread := ?t\<rparr>)" "in_own_thread p (w\<lparr>cur_thread := ?t\<rparr>)"
      using inv event(1) by (simp_all add: thread_home in_own_thread_def isInLoopThread_def)
    have w1: "at_homes ps (w\<lparr>cur_thread := ?t\<rparr>) ?w"
      using tie_home(2) [OF inv1(1) event(3) inv1(2)] by simp
    then have "home_inv ps ?w" "in_own_thread p ?w"
      using inv1(2) event(3) by (simp_all add: at_homes_def in_thread_def in_own_thread_def isInLoopThread_def)
    then have "holds (at_homes ps ?w) (Channel_handleEvent alive (invoke_callback os (server_hooks os user) dflt new) (m_channel (conn_of ?w p)) t ?w)"
      using home.handleEvent_keeps [of "server_hooks os user" ps ?w p] hooks event(3) by blast
    then have "holds (at_homes ps (w\<lparr>cur_thread := ?t\<rparr>)) (Channel_handleEvent alive (invoke_callback os (server_hooks os user) dflt new) (m_channel (conn_of w p)) t ?w)"
      using at_homes_trans [OF w1] by (auto elim!: holds_mono)
    from settle [OF this event(5)] show ?thesis using event(1,2) by simp
  next
    case (user_send p ps bs t w w')
    then show ?thesis
      using settle [OF send_home user_send(4)] inv by (simp add: thread_home)
  next
    case (late_send p ps w bs t)
    have "at_homes ps (w\<lparr>cur_thread := t\<rparr>) (queueInLoop os (m_tcLoop (conn_of w p)) (SendInLoop_fn p bs) (w\<lparr>cur_thread := t\<rparr>))"
      using late_send inv by (intro queue_home) (simp_all add: thread_home at_home_def)
    then show ?thesis
      using late_send(1,2) by (simp add: at_homes_def)
  next
    case (user_shutdown p ps t w w')
    then show ?thesis
      using settle [OF shutdown_home user_shutdown(4)] inv by (simp add: thread_home)
  qed
qed

interpretation homes: inductive_invariant "\<lambda>s. hooks_confined user \<and> closures_confined ufn \<and> server_started s0 s"
  "program_step os user ufn" "\<lambda>s. hooks_confined user \<and> closures_confined ufn \<and> home_inv (fst s) (snd s)"
  for os user ufn s0
  by unfold_locales (auto simp: server_started_def home_inv_def chans_ok_def dest: program_step_home)

lemma echo_confined: "hooks_confined (echo_hooks os)"
proof -
  have "holds (at_homes ps w) (andThen r (\<lambda>(msg, b). TcpConnection_send os p msg (upd_conn p (\<lambda>t. t\<lparr>m_inputBuffer := b\<rparr>) w)))"
    if "home_inv ps w" "p \<in> set ps" "in_own_thread p w" for ps p r and w :: "('a, 'b) ssys_scheme"
  proof -
    have w1: "at_homes ps w (upd_conn p (\<lambda>t. t\<lparr>m_inputBuffer := b\<rparr>) w)" for b
      by (rule buffer_home(1) [OF that(1,3)])
    show ?thesis
      using home.via [OF w1 send_home] w1 that(2) by (cases r) (auto simp: at_homes_def)
  qed
  then show ?thesis
    by (simp add: hooks_confined_def echo_hooks_def silent_hooks_def at_homes_refl)
qed

section \<open>Properties\<close>

text \<open>
  C2: One loop per thread: whatever the threads of a running server do in whatever order, a step that
  changes a buffer, a callback or the channel of a connection is taken by the thread of that connection's
  loop, a step that changes a poller by the thread of the poller's loop, and a step that changes the server
  (its map, its counter of connections, the turn of its pool) by the thread of the base loop. The callbacks of the user may use what
  belongs to their thread, and may send on and shut down any connection.
\<close>

theorem thread_confinement:
  fixes os :: "'k os" and user :: "(('k, 'z) ssys_scheme) conn_hooks"
  assumes "hooks_confined user" and "closures_confined ufn"
    and "reachable (server_started s0) (program_step os user ufn) (ps, w)"
    and "program_step os user ufn (ps, w) (ps', w')"
  shows "(\<forall>q \<in> set ps. thread_local q w' \<noteq> thread_local q w \<longrightarrow>
       cur_thread w' = m_threadId (loop_of w (m_tcLoop (conn_of w q)))) \<and>
     (\<forall>l. poller_of w' l \<noteq> poller_of w l \<longrightarrow> cur_thread w' = m_threadId (loop_of w l)) \<and>
     (server_of w' \<noteq> server_of w \<longrightarrow> cur_thread w' = m_threadId (loop_of w (m_srvLoop (server_of w))))"
proof -
  have "reachable (\<lambda>s. hooks_confined user \<and> closures_confined ufn \<and> server_started s0 s) (program_step os user ufn) (ps, w)"
    by (rule reachable_weaken [OF _ assms(3)]) (use assms in simp)
  then have "home_inv ps w"
    using homes.inv_reachable by fastforce
  then have c: "in_thread ps (w\<lparr>cur_thread := cur_thread w'\<rparr>) w'"
    using program_step_home [OF assms(4,1,2)] by simp
  have "thread_local q (w\<lparr>cur_thread := t\<rparr>) = thread_local q w" for q t
    by (simp add: thread_local_def conn_chan_def)
  then show ?thesis
    using c unfolding in_thread_def isInLoopThread_def in_own_thread_def by simp metis
qed

text \<open>The step that establishes the first connection changes its channel, and is taken by thread 20.\<close>

theorem thread_confinement_witness:
  "\<exists>(w :: simk ssys) w'. reachable (server_started (server_of server_world)) (program_step sim_os (echo_hooks sim_os) (\<lambda>_. Inr)) ([5], w) \<and>
     program_step sim_os (echo_hooks sim_os) (\<lambda>_. Inr) ([5], w) ([5], w') \<and> thread_local 5 w' \<noteq> thread_local 5 w \<and> cur_thread w' = 20"
proof -
  obtain w2 w3 :: "simk ssys" where w:
    "reachable (server_started (server_of server_world)) (program_step sim_os (echo_hooks sim_os) (\<lambda>_. Inr)) ([5], w2)"
    "program_step sim_os (echo_hooks sim_os) (\<lambda>_. Inr) ([5], w2) ([5], w3)" "registered 5 w3" "\<not> registered 5 w2"
    "m_threadId (loop_of w2 (m_tcLoop (conn_of w2 5))) = 20"
    by (rule first_connection)
  have "thread_local 5 w3 \<noteq> thread_local 5 w2"
    using w(3,4) by (auto simp: thread_local_def registered_def)
  then show ?thesis
    using thread_confinement [OF echo_confined _ w(1,2)] w(1,2,5) by (auto simp: closures_confined_def at_homes_refl)
qed

end
