(* ===== verification/Isolation.thy ===== *)
theory Isolation
  imports Lifetime
begin

text \<open>
  Connections do not disturb each other: a step of the running server changes at most one connection, where
  a connection is its object, its channel, its entry in the map and the closures queued for it.
\<close>

section \<open>What there is of a connection\<close>

fun concerns :: "closure \<Rightarrow> conn_ptr option" where
  "concerns (RemoveConnectionInLoop_fn p) = Some p"
| "concerns f = loop_work f"

definition closures_of :: "conn_ptr \<Rightarrow> ('k, 'z) ssys_scheme \<Rightarrow> loop_ptr \<Rightarrow> closure list" where
  "closures_of q w l = [f \<leftarrow> pending l w. concerns f = Some q]"

definition conn_view :: "conn_ptr \<Rightarrow> ('k, 'z) ssys_scheme \<Rightarrow> tcpconn \<times> channel \<times> bool \<times> (loop_ptr \<Rightarrow> closure list)" where
  "conn_view q w = (conn_of w q, conn_chan q w, in_map q w, closures_of q w)"

text \<open>The change from \<open>w\<close> to \<open>w'\<close> is about the connection \<open>p\<close> only.\<close>

definition works_on :: "conn_ptr \<Rightarrow> ('k, 'z) ssys_scheme \<Rightarrow> ('k, 'z) ssys_scheme \<Rightarrow> bool" where
  "works_on p w w' \<longleftrightarrow>
     (\<forall>q. q \<noteq> p \<longrightarrow> conn_of w' q = conn_of w q \<and> closures_of q w' = closures_of q w) \<and>
     m_channel (conn_of w' p) = m_channel (conn_of w p) \<and> m_name (conn_of w' p) = m_name (conn_of w p) \<and>
     (\<forall>x. x \<noteq> m_channel (conn_of w p) \<longrightarrow> chan w' x = chan w x) \<and>
     conn_callbacks (m_channel (conn_of w p)) w' = conn_callbacks (m_channel (conn_of w p)) w \<and>
     (\<forall>n. n \<noteq> m_name (conn_of w p) \<longrightarrow> m_connections (server_of w') n = m_connections (server_of w) n)"

lemma works_on_refl: "works_on p w w"
  by (simp add: works_on_def)

lemma works_on_trans: "works_on p w w1 \<Longrightarrow> works_on p w1 w2 \<Longrightarrow> works_on p w w2"
  by (simp add: works_on_def)

lemma works_on_view:
  assumes "works_on p w w'" and "q \<noteq> p" and "m_channel (conn_of w q) \<noteq> m_channel (conn_of w p)"
    and "m_name (conn_of w q) \<noteq> m_name (conn_of w p)"
  shows "conn_view q w' = conn_view q w"
  using assms by (simp add: works_on_def conn_view_def conn_chan_def in_map_def)

section \<open>Elementary changes\<close>

lemma works_on_kern: "works_on p w (w\<lparr>kern := k\<rparr>)" "works_on p w (w\<lparr>cur_thread := t\<rparr>)"
  by (simp_all add: works_on_def closures_of_def pending_def conn_callbacks_def fun_eq_iff)

lemma works_on_conn:
  "(\<And>t. m_channel (f t) = m_channel t \<and> m_name (f t) = m_name t) \<Longrightarrow> works_on p w (upd_conn p f w)"
  by (simp add: works_on_def closures_of_def pending_def conn_callbacks_def fun_eq_iff)

lemma works_on_state: "works_on p w (setState p st w)"
  unfolding setState_def by (rule works_on_conn) simp

lemma works_on_queue: "concerns f = Some p \<Longrightarrow> works_on p w (queueInLoop os l f w)"
  by (auto simp: works_on_def closures_of_def pending_def conn_callbacks_def fun_eq_iff)

lemma works_on_channel:
  assumes "touches l (m_channel (conn_of w p)) (upd_chan (m_channel (conn_of w p)) h w) w'"
    and h: "\<And>c. m_readCallback (h c) = m_readCallback c \<and> m_writeCallback (h c) = m_writeCallback c \<and>
      channel.m_closeCallback (h c) = channel.m_closeCallback c \<and> m_errorCallback (h c) = m_errorCallback c"
  shows "works_on p w w'"
  using assms(1) h
  by (auto simp: touches_def sys_touch_def upd_chan_def works_on_def closures_of_def pending_def conn_callbacks_def
      setChannelStatus_def fun_eq_iff)

lemma works_on_mask: "holds (works_on p w) (change_mask os g (m_channel (conn_of w p)) w)"
  by (auto simp: holds_def intro: works_on_channel [OF change_mask_touches])

lemma works_on_remove: "holds (works_on p w) (Channel_remove os (m_channel (conn_of w p)) w)"
proof -
  have "upd_chan c (\<lambda>ch. ch) w = w" for c
    by (simp add: upd_chan_def)
  then have "works_on p w w'" if "Channel_remove os (m_channel (conn_of w p)) w = Inr w'" for w'
    using that by (intro works_on_channel [where h = "\<lambda>ch. ch"])
      (auto simp: Channel_remove_def EventLoop_removeChannel_def intro: removeChannel_touches)
  then show ?thesis by (simp add: holds_def)
qed

lemma works_on_tie: "works_on p w (upd_chan (m_channel (conn_of w p)) (Channel_tie p) w)" "works_on p w (upd_chan (m_channel (conn_of w p)) (setRevents r) w)"
  by (rule works_on_channel [OF touches_refl], simp add: Channel_tie_def setRevents_def)+

lemma works_on_map: "works_on p w (removeConnectionInLoop os p w)" "holds (works_on p w) (removeConnection os p w)"
proof -
  show *: "works_on p w (removeConnectionInLoop os p w)"
    by (simp add: removeConnectionInLoop_def Let_def works_on_def closures_of_def pending_def conn_callbacks_def getName_def fun_eq_iff)
  show "holds (works_on p w) (removeConnection os p w)"
    using * by (simp add: removeConnection_def runInLoop_def works_on_queue)
qed

section \<open>The handlers\<close>

text \<open>Callbacks of the user that work on the connection they are called for.\<close>

definition hooks_private :: "(('k, 'z) ssys_scheme) conn_hooks \<Rightarrow> bool" where
  "hooks_private hooks \<longleftrightarrow> (\<forall>p w. calls_back p w \<longrightarrow>
     (\<forall>cb. holds (works_on p w) (call_connection hooks cb p w)) \<and>
     (\<forall>cb t. holds (works_on p w) (call_message hooks cb p t w)) \<and>
     (\<forall>cb. holds (works_on p w) (call_writeComplete hooks cb p w)) \<and>
     (\<forall>cb n. holds (works_on p w) (call_highWaterMark hooks cb p n w)) \<and>
     (\<forall>cb. holds (works_on p w) (call_close hooks cb p w)))"

text \<open>What a change leaves alone: all connections but at most one.\<close>

definition at_most_one :: "conn_ptr list \<Rightarrow> ('k, 'z) ssys_scheme \<Rightarrow> ('k, 'z) ssys_scheme \<Rightarrow> bool" where
  "at_most_one ps w w' \<longleftrightarrow> (\<exists>p. \<forall>q \<in> set ps. q \<noteq> p \<longrightarrow> conn_view q w' = conn_view q w)"

definition closures_private :: "(nat \<Rightarrow> ('k, 'z) ssys_scheme \<Rightarrow> ('k, 'z) ssys_scheme result) \<Rightarrow> bool" where
  "closures_private ufn \<longleftrightarrow> (\<forall>n s0 ps w. life_inv s0 ps w \<longrightarrow> holds (at_most_one ps w) (ufn n w))"

lemma server_hooks_private: "hooks_private user \<Longrightarrow> hooks_private (server_hooks os user)"
  unfolding hooks_private_def by (auto simp: server_hooks_def works_on_map(2))

interpretation own: closure_law os hooks "\<lambda>w. hooks_private hooks \<and> calls_back p w" "works_on p" "\<lambda>q w. q = p" "\<lambda>_ _. True"
  for os :: "'k os" and hooks :: "(('k, 'z) ssys_scheme) conn_hooks" and p
proof (unfold_locales, goal_cases)
  case (2 w w1 w2)
  then show ?case by (rule works_on_trans)
next
  case (3 w w1)
  then show ?case by (simp add: works_on_def calls_back_def)
next
  case (6 w w1 q)
  then show ?case by (simp add: works_on_def)
qed (simp_all add: works_on_refl works_on_kern works_on_conn works_on_tie works_on_mask works_on_state works_on_queue works_on_remove hooks_private_def)

lemma send_private: "hooks_private silent_hooks" "calls_back p w \<Longrightarrow> holds (works_on p w) (TcpConnection_send os p bs w)"
  "calls_back p w \<Longrightarrow> holds (works_on p w) (TcpConnection_shutdown os p w)"
proof -
  show silent: "hooks_private silent_hooks"
    by (simp add: hooks_private_def silent_hooks_def works_on_refl)
  show "holds (works_on p w) (TcpConnection_send os p bs w)" if "calls_back p w"
    using own.sendInLoop_keeps [OF conjI [OF silent that] refl, of os bs]
    by (simp add: TcpConnection_send_def Let_def runInLoop_def works_on_refl works_on_queue)
  show "holds (works_on p w) (TcpConnection_shutdown os p w)" if "calls_back p w"
  proof (cases "isInLoopThread (m_tcLoop (conn_of w p)) w")
    case True
    then show ?thesis by (rule own.shutdown_keeps [OF conjI [OF silent that] refl])
  next
    case False
    have "works_on p w (queueInLoop os (m_tcLoop (conn_of w p)) (ShutdownInLoop_fn p) (setState p Disconnecting w))"
      by (rule works_on_trans [OF works_on_state works_on_queue]) simp
    then show ?thesis
      using False by (simp add: TcpConnection_shutdown_def Let_def runInLoop_def isInLoopThread_def works_on_refl)
  qed
qed

section \<open>Steps of the program\<close>

lemma works_on_one:
  assumes inv: "life_inv s0 ps w" and p: "p \<in> set ps" and on: "works_on p w w'"
  shows "at_most_one ps w w'"
  unfolding at_most_one_def
proof (intro exI ballI impI)
  fix q assume q: "q \<in> set ps" "q \<noteq> p"
  show "conn_view q w' = conn_view q w"
  proof (rule works_on_view [OF on q(2)])
    show "m_channel (conn_of w q) \<noteq> m_channel (conn_of w p)"
      using inv p q unfolding life_inv_def chans_ok_def by (blast dest: inj_onD)
    show "m_name (conn_of w q) \<noteq> m_name (conn_of w p)"
      using inv name_inject [of s0 ps w q p] p q by (auto simp: life_inv_def)
  qed
qed

text \<open>Taking a closure from its queue and running it.\<close>

lemma popped_works: "pending l w = f # fs \<Longrightarrow> concerns f = Some p \<Longrightarrow> works_on p w (popped l fs w)"
  by (auto simp: works_on_def closures_of_def fun_eq_iff)

lemma concerns_member:
  assumes "life_inv s0 ps w" and "pending l w = f # fs" and "concerns f = Some p"
  shows "p \<in> set ps"
  using life_closure [OF assms(1), of f l] assms(2,3) by (cases f) auto

lemma calls_back_life: "life_inv s0 ps w \<Longrightarrow> p \<in> set ps \<Longrightarrow> calls_back p w"
  by (simp add: life_inv_def chans_ok_def calls_back_def)

lemma run_closure_works:
  assumes "hooks_private hooks" and "calls_back p w" and "concerns f = Some p"
  shows "holds (works_on p w) (run_closure os hooks ufn f w)"
proof (cases "f = RemoveConnectionInLoop_fn p")
  case True
  then show ?thesis by (simp add: run_closure_def works_on_map)
next
  case False
  then have "loop_work f = Some p" using assms(3) by (cases f) auto
  then show ?thesis
    using own.loop_work_keeps assms(1,2) by blast
qed

lemma user_popped_view: "pending l w = f # fs \<Longrightarrow> concerns f = None \<Longrightarrow> conn_view q (popped l fs w) = conn_view q w"
  by (auto simp: conn_view_def conn_chan_def closures_of_def fun_eq_iff)

lemma accept_one:
  fixes w :: "('k, 'z) ssys_scheme"
  assumes inv: "life_inv s0 ps w" and new: "p \<notin> set ps" "c \<notin> (\<lambda>q. m_channel (conn_of w q)) ` set ps"
    and len: "Suc (length ps) < 2 ^ 32" and law: "hooks_private hooks"
  shows "holds (at_most_one ps w) (TcpServer_newConnection os hooks p c fd peer w)"
proof (cases "getNextLoop (m_threadPool (server_of w))")
  case (Inl e)
  then show ?thesis by (simp add: TcpServer_newConnection_def)
next
  case (Inr lp)
  obtain l pool1 where lp: "lp = (l, pool1)" by (cases lp)
  obtain w1 :: "('k, 'z) ssys_scheme" where made: "connection_made os p c fd peer l pool1 w w1"
      "TcpServer_newConnection os hooks p c fd peer w = runInLoop os l (ConnectEstablished_fn p) (connectEstablished os hooks p) w1"
    using newConnection_makes Inr unfolding lp by blast
  have N: "names_ok s0 ps w" and "chans_ok ps w" using inv by (simp_all add: life_inv_def)
  note old = made_chans [OF this(2) new made(1)]
  let ?n = "connName s0 (of_nat (Suc (length ps)))"
  have M: "m_channel (conn_of w1 p) = c" "m_name (conn_of w1 p) = ?n" "loop_of w1 = loop_of w"
      "m_connections (server_of w1) = (m_connections (server_of w))(?n \<mapsto> p)"
    using made(1) N by (simp_all add: connection_made_def Let_def names_ok_def)
  have "calls_back p w1"
    using old(3) by (simp add: chans_ok_def calls_back_def)
  then have "holds (works_on p w1) (runInLoop os l (ConnectEstablished_fn p) (connectEstablished os hooks p) w1)"
    using own.establishing_keeps [OF conjI [OF law] refl, of p w1 os] by (simp add: runInLoop_def works_on_queue)
  moreover have "conn_view q w' = conn_view q w" if on: "works_on p w1 w'" and q: "q \<in> set ps" for q w'
  proof -
    have ne: "m_channel (conn_of w q) \<noteq> c" "m_name (conn_of w q) \<noteq> ?n" "q \<noteq> p"
      using new q fresh_name [OF N len q] by blast+
    have "conn_view q w' = conn_view q w1"
      by (rule works_on_view [OF on ne(3)]) (use ne old(1) [OF q] M in simp_all)
    also have "\<dots> = conn_view q w"
      using old(1,2) [OF q] ne(2) by (simp add: conn_view_def conn_chan_def in_map_def closures_of_def pending_def M fun_eq_iff)
    finally show ?thesis .
  qed
  ultimately show ?thesis
    unfolding made(2) at_most_one_def by (blast intro: holds_mono)
qed

lemma program_step_one:
  assumes step: "program_step os user ufn s s'" and law: "hooks_private user" "closures_private ufn"
    and inv: "life_inv s0 (fst s) (snd s)"
  shows "at_most_one (fst s) (snd s) (snd s')"
proof -
  note hooks = server_hooks_private [OF law(1), of os]
  have one: "at_most_one ps w w'"
    if "life_inv s0 ps w" "p \<in> set ps" "works_on p w w1" "holds (works_on p w1) r" "r = Inr w'" for ps p r and w w1 w' :: "('a, 'b) ssys_scheme"
    using that works_on_one [OF that(1,2) works_on_trans [OF that(3)]] by simp
  have backs: "calls_back p w1" if "life_inv s0 ps w" "p \<in> set ps" "works_on p w w1" for ps p and w w1 :: "('a, 'b) ssys_scheme"
    using calls_back_life [OF that(1,2)] that(3) by (simp add: calls_back_def works_on_def)
  from step show ?thesis
  proof cases
    case (accept p ps c w fd peer w')
    let ?w = "w\<lparr>cur_thread := m_threadId (loop_of w (m_srvLoop (server_of w)))\<rparr>"
    have "life_inv s0 ps ?w"
      using lives_inv [OF unseen_lives [OF _ unseen_kern(2)]] inv accept(1) by auto
    then have "holds (at_most_one ps ?w) (TcpServer_newConnection os (server_hooks os user) p c fd peer ?w)"
      using accept(3-5) by (intro accept_one hooks) simp_all
    moreover have "at_most_one ps ?w w' = at_most_one ps w w'"
      by (simp add: at_most_one_def conn_view_def conn_chan_def in_map_def closures_of_def pending_def fun_eq_iff)
    ultimately show ?thesis
      using accept(1,2,6) by simp
  next
    case (run_functor l w f fs w' ps)
    have inv1: "life_inv s0 ps w" using inv run_functor(1) by simp
    show ?thesis
    proof (cases "concerns f")
      case (Some p)
      note p = concerns_member [OF inv1 run_functor(3) Some] and on = popped_works [OF run_functor(3) Some]
      show ?thesis
        using one [OF inv1 p on run_closure_works [OF hooks backs [OF inv1 p on] Some] run_functor(4)] run_functor(1,2) by simp
    next
      case None
      then obtain n where f: "f = User_fn n"
        using life_closure [OF inv1, of f l] run_functor(3) by (cases f) auto
      have "life_inv s0 ps (popped l fs w)"
        by (rule popped_inv [OF inv1 run_functor(3)]) (simp add: f)
      then have "at_most_one ps (popped l fs w) w'"
        using law(2) run_functor(4) by (auto simp: closures_private_def run_closure_def f holds_def)
      then show ?thesis
        using user_popped_view [OF run_functor(3) None] run_functor(1,2) by (simp add: at_most_one_def)
    qed
  next
    case (event p ps w dflt new t r w')
    let ?w = "upd_chan (m_channel (conn_of w p)) (setRevents r) (w\<lparr>cur_thread := m_threadId (loop_of w (m_tcLoop (conn_of w p)))\<rparr>)"
    have inv1: "life_inv s0 ps w" using inv event(1) by simp
    have on: "works_on p w ?w"
      using works_on_trans [OF works_on_kern(2) works_on_tie(2)] by simp
    have "m_channel (conn_of ?w p) = m_channel (conn_of w p)" by simp
    then show ?thesis
      using one [OF inv1 event(3) on own.handleEvent_keeps [OF conjI [OF hooks backs [OF inv1 event(3) on]] refl]] event(1,2,5) by simp
  next
    case (user_send p ps bs t w w')
    then show ?thesis
      using one [OF _ user_send(3) works_on_kern(2) send_private(2) user_send(4)] backs [OF _ user_send(3) works_on_kern(2)] inv by simp
  next
    case (late_send p ps w bs t)
    have "works_on p w (queueInLoop os (m_tcLoop (conn_of w p)) (SendInLoop_fn p bs) (w\<lparr>cur_thread := t\<rparr>))"
      by (rule works_on_trans [OF works_on_kern(2) works_on_queue]) simp
    then show ?thesis
      using works_on_one late_send(1-3) inv by fastforce
  next
    case (user_shutdown p ps t w w')
    then show ?thesis
      using one [OF _ user_shutdown(3) works_on_kern(2) send_private(3) user_shutdown(4)] backs [OF _ user_shutdown(3) works_on_kern(2)] inv by simp
  qed
qed

lemma echo_private: "hooks_private (echo_hooks os)"
proof -
  have "holds (works_on p w) (andThen r (\<lambda>(msg, b). TcpConnection_send os p msg (upd_conn p (\<lambda>t. t\<lparr>m_inputBuffer := b\<rparr>) w)))"
    if "calls_back p w" for p r and w :: "('a, 'b) ssys_scheme"
  proof -
    have w1: "works_on p w (upd_conn p (\<lambda>t. t\<lparr>m_inputBuffer := b\<rparr>) w)" for b
      by (rule works_on_conn) simp
    moreover from this have "calls_back p (upd_conn p (\<lambda>t. t\<lparr>m_inputBuffer := b\<rparr>) w)" for b
      using that by (simp add: calls_back_def works_on_def)
    ultimately show ?thesis
      by (cases r) (auto intro: own.via [OF w1 send_private(2)])
  qed
  then show ?thesis
    by (simp add: hooks_private_def echo_hooks_def silent_hooks_def works_on_refl)
qed

section \<open>Two connections\<close>

text \<open>The concrete server accepts a second connection, which goes to its other loop.\<close>

lemma second_connection:
  obtains w :: "simk ssys" where
    "reachable (server_started (server_of server_world)) (program_step sim_os (echo_hooks sim_os) (\<lambda>_. Inr)) ([5, 6], w)"
    "m_state (conn_of w 5) = Connected"
proof -
  let ?peer = "InetAddress_of \<lparr>sin_family = 2, sin_port = 0, sin_addr = 0\<rparr>" and ?hooks = "server_hooks sim_os (echo_hooks sim_os)"
    and ?pool = "(EventLoopThreadPool_ctor 0 ''s'')\<lparr>m_loops := [10, 11], m_next := 0\<rparr>"
  obtain w2 w3 :: "simk ssys" where w:
    "reachable (server_started (server_of server_world)) (program_step sim_os (echo_hooks sim_os) (\<lambda>_. Inr)) ([5], w2)"
    "program_step sim_os (echo_hooks sim_os) (\<lambda>_. Inr) ([5], w2) ([5], w3)" "m_state (conn_of w3 5) = Connected"
    "getNextLoop (m_threadPool (server_of w3)) = Inr (11, ?pool)" "m_srvLoop (server_of w3) = 0"
    "\<forall>l. m_threadId (loop_of w3 l) = m_threadId (loop_of server_world l)" "m_channel (conn_of w3 5) = 15"
    by (rule first_connection)
  let ?w3 = "w3\<lparr>cur_thread := m_threadId (loop_of w3 (m_srvLoop (server_of w3)))\<rparr>"
  have "getNextLoop (m_threadPool (server_of ?w3)) = Inr (11, ?pool)"
    using w(4) by simp
  from newConnection_makes [OF this, of sim_os 6 16 41 ?peer ?hooks]
  obtain w4 :: "simk ssys" where w4: "connection_made sim_os 6 16 41 ?peer 11 ?pool ?w3 w4"
      "TcpServer_newConnection sim_os ?hooks 6 16 41 ?peer ?w3 =
         runInLoop sim_os 11 (ConnectEstablished_fn 6) (connectEstablished sim_os ?hooks 6) w4"
    by blast
  define w5 where "w5 = queueInLoop sim_os 11 (ConnectEstablished_fn 6) w4"
  have "loop_of w4 = loop_of w3" "cur_thread w4 = 7" "conn_of w4 5 = conn_of w3 5"
    using w4(1) w(5,6) by (simp_all add: connection_made_def Let_def)
  then have "TcpServer_newConnection sim_os ?hooks 6 16 41 ?peer ?w3 = Inr w5" and st: "m_state (conn_of w5 5) = Connected"
    using w4(2) w(3,6) by (simp_all add: runInLoop_def isInLoopThread_def w5_def)
  then have "program_step sim_os (echo_hooks sim_os) (\<lambda>_. Inr) ([5], w3) ([5, 6], w5)"
    using program_step.accept [of 6 "[5]" 16 w3 sim_os "echo_hooks sim_os" 41 ?peer w5 "\<lambda>_. Inr"] w(7) by simp
  from reachable_step [OF reachable_step [OF w(1,2)] this] show ?thesis
    using st by (rule that)
qed

section \<open>Properties\<close>



end
