(* ===== verification/Spec2Isabelle.thy ===== *)
theory Spec2Isabelle
  imports LoopThreads Logging Closing Confinement Isolation
begin

text \<open>
  \<^bold>\<open>A verification development for muduo\_modernCpp\<close>, a C++ port of the muduo network library: a TCP
  server whose connections are served by event loops, one per thread.

  \<^bold>\<open>How the program is put together.\<close> An \<open>EventLoop\<close> owns a poller (\<open>EPollPoller\<close>), asks it with
  \<open>epoll_wait\<close> for the channels with events, lets every \<open>Channel\<close> call its callbacks back, and then
  runs the closures other code queued (\<open>doPendingFunctors\<close>). A thread that is not the loop's queues a
  closure with \<open>queueInLoop\<close> and wakes the loop up by writing to its eventfd. \<open>EventLoopThread\<close> runs a
  loop in a new thread and hands its address over; \<open>EventLoopThreadPool\<close> starts several and deals them
  out in turn. \<open>Acceptor\<close> is the channel of the listening socket; \<open>TcpServer\<close> makes a \<open>TcpConnection\<close>
  of every accepted descriptor, gives it to a loop of the pool and keeps it in a map until it is closed.
  A connection reads into and writes from a \<open>Buffer\<close> and calls the user's callbacks.

  \<^bold>\<open>Theories and the code they model.\<close>
  \<^item> Prelude: machine types, \<open>'a result\<close> (a \<open>failure\<close> or a value) with its sequencing \<open>andThen\<close>, the copy
    primitives of \<open>std::vector\<close>, decimal text, reachability and the interface \<open>inductive_invariant\<close>.
  \<^item> Kernel: the system calls as a record of functions over a kernel state nobody looks into, and what
    their manual pages promise, as named predicates; Sim\_Kernel: a concrete kernel that fulfils all
    of them, for the witnesses only.
  \<^item> Buffer: Buffer.h, Buffer.cpp. Indices are 64-bit words, the storage a list of bytes; \<open>max_vector\<close>
    is the size beyond which \<open>std::vector\<close> throws. Refined to a queue of bytes through \<open>byte_queue\<close>.
  \<^item> Channel, Channel\_Types: Channel.h, Channel.cpp. The \<open>std::function\<close> members are named by the
    constructors of \<open>callback\<close>; \<open>m_tie\<close> holds the connection the channel is tied to.
  \<^item> EPollPoller: Poller.h, Poller.cpp, EPollPoller.h, EPollPoller.cpp. The world so far is \<open>sys\<close>: the kernel, the heap of
    channels and the pollers, by address.
  \<^item> EventLoop: EventLoop.h, EventLoop.cpp, as its operations run undisturbed; the world \<open>lsys\<close> adds
    the loops, the running thread and \<open>t_loopInThisThread\<close>. \<open>loop_while\<close> is a partial function into
    \<open>option\<close>, so that a loop nobody ends is \<open>None\<close>; loop\_returns\_exactly says when it is not.
  \<^item> LoopThreads: the same class when any number of threads call \<open>queueInLoop\<close> and \<open>quit\<close>: a step
    relation whose steps are the single accesses to shared data.
  \<^item> EventLoopThread: Thread.h, Thread.cpp, EventLoopThread.h, EventLoopThread.cpp: the bookkeeping of a thread, \<open>startLoop\<close> as a function, and the
    handshake of owner and thread (semaphore, mutex, condition variable, join) as a step relation.
  \<^item> EventLoopThreadPool: EventLoopThreadPool.h, EventLoopThreadPool.cpp, with the interface \<open>round_robin\<close>.
  \<^item> InetAddress, Socket, Acceptor: the classes of these names; the laws of \<open>accept\<close> and the others are
    in Kernel.
  \<^item> TcpConnection: TcpConnection.h, TcpConnection.cpp; the world \<open>csys\<close> adds the connections. The user's callbacks
    are the argument \<open>hooks\<close>.
  \<^item> TcpServer: TcpServer.h, TcpServer.cpp; the world \<open>ssys\<close> adds the server. \<open>invoke_callback\<close> and \<open>run_closure\<close>
    tie the names of callbacks and closures to the code they stand for; \<open>alive\<close> says who holds a \<open>shared_ptr\<close>.
  \<^item> Program: passes of two loops in two threads of the whole program.
  \<^item> Handlers: what every handler and closure of a connection keeps, proved once from the elementary laws.
  \<^item> Lifetime: a running server as a step relation over all its threads (accept, run a closure, handle the
    events of a channel, \<open>send\<close>, \<open>shutdown\<close>), with the invariant that keeps raw channel pointers good.
  \<^item> Races: orders of events that break it: the late store of \<open>shutdown\<close>, closing twice, and a \<open>send\<close> whose
    closure outlives its connection.
  \<^item> Confinement: which thread changes what; Isolation: which connection a step changes.
  \<^item> Echo: an echo server over runs of readable and writable events of a connection.
  \<^item> Closing: the passes of two loops from the end of the stream to the destroyed connection.
  \<^item> Logging: Logger.h, Logger.cpp, Timestamp.h, Timestamp.cpp.

  \<^bold>\<open>What the theorems show.\<close> Connections: every run of their handlers keeps the life cycle and the
  invariant (connection\_lifecycle), nothing sent is lost, doubled or reordered (output\_stream\_exact),
  output drains and shutdown waits for it. Loops: a closure queued from another thread is never left with
  the loop asleep (no\_lost\_wakeup), closures run in the order of queueing, the kernel watches exactly what
  the mask of a channel says, and a destroyed channel is forgotten. Threads: \<open>startLoop\<close> returns a
  constructed loop, the destructor touches no destroyed one and joins an ended thread, except for the
  race quick\_destructor\_hangs. Server: the map is the set of live connections, loops are dealt
  in turn, accepting reaches an established connection across two loops, and the end of the stream, in
  three passes, leaves no trace of it; an echo server sends back exactly what it received; in every reachable state of the running server a registered channel belongs to a live
  connection (no\_dangling\_channel), unless \<open>shutdown\<close> is cut in two by another thread
  (shutdown\_race\_dangles). Unguarded data is changed by the thread of its loop only (thread\_confinement), and
  no step changes two connections (one\_connection\_per\_step). Buffers: a queue of bytes with exact errors. Each class has its functional laws besides.

  \<^bold>\<open>Interfaces.\<close> \<open>byte_queue\<close> (provided by Buffer), \<open>channel_registry\<close> (mask changes and removal of a
  channel, provided by EventLoop on the poller), \<open>round_robin\<close> (provided by the pool), \<open>inductive_invariant\<close> (provided by the machines of LoopThreads, EventLoopThread, TcpConnection, Lifetime and
  Confinement), \<open>handler_law\<close> (the elementary changes the handlers are made of, provided by Lifetime) and its
  extension \<open>closure_law\<close> (provided by Confinement and Isolation).

  \<^bold>\<open>Bounds.\<close> Names of connections come from a 32-bit counter, so distinctness is stated for fewer than
  \<open>2 ^ 32\<close> connections; the index of the pool is a 64-bit word and \<open>pool_ok\<close> asks for fewer than
  \<open>2 ^ 63\<close> loops; buffers are within \<open>max_vector\<close>. No definition needs fuel.

  \<^bold>\<open>Choices.\<close> Addresses that \<open>new\<close> returns, thread ids and \<open>localtime\<close> are arguments. \<open>LOG_FATAL\<close> and
  \<open>exit\<close> are the failure \<open>Exit\<close>; the other log calls are left out of the operations, and \<open>errno\<close> is taken to survive them.
  An access the standard gives no meaning to is \<open>Undefined\<close>. The sequential models run one operation at
  a time; the interleavings that matter are those of LoopThreads and EventLoopThread, and the composed
  theorems switch the running thread explicitly. A step of Lifetime runs one handler or closure to its end;
  the halves of \<open>send\<close> and \<open>shutdown\<close> that other threads can separate are steps of their own there and in Races.

  \<^bold>\<open>Not modelled.\<close> Memory is not reclaimed: a destroyed object keeps its last state, and only the effect of
  destructors on the kernel is kept. noncopyable.h and Callbacks.h declare types and run nothing;
  CMakeLists.txt, Dockerfile and README.md are build and documentation.
\<close>

end
